(* ===== verification/Prelude.thy ===== *)
theory Prelude
  imports Main "HOL-Library.Word" "HOL-Library.Multiset" "HOL-Library.AList"
    "HOL-Library.Char_ord" "HOL-Library.List_Lexorder" "HOL-Library.Sublist"
begin

text \<open>
  Shared vocabulary of the development: Go errors as values, Go maps as association
  lists, the parts of package fmt the sources use (decimal and hexadecimal rendering),
  and the lemmas on byte strings, prefixes and lexicographic order the components share.

  A Go string or []byte is a HOL \<^typ>\<open>string\<close>: a \<^typ>\<open>char\<close> is exactly one byte, and the
  order of HOL-Library.List_Lexorder over HOL-Library.Char_ord is Go's byte-wise string
  order (and the key order of bbolt).

  A Go map is an association list with distinct keys. Its list order stands for the order
  in which a range loop of the program visits it, which Go leaves open: a statement about
  every such list is a statement about every iteration order.
\<close>

section \<open>Collections of facts\<close>

named_theorems fmt_simps \<open>rendering of numbers and byte strings\<close>
named_theorems key_simps \<open>keys, prefixes and their lexicographic order\<close>
named_theorems gomap_simps \<open>Go maps as association lists\<close>

section \<open>Types\<close>

type_synonym bytes = string

text \<open>
  A time.Time is its RFC 3339 text: the program only stores, sends and prints it. Its times
  come from time.Now() or are read from such text, so that encoding them does not fail, as it
  would for a year that has no such text.
\<close>

type_synonym gotime = string

text \<open>
  Error values: \<open>Errorf\<close> is fmt.Errorf with no wrapped error (its argument is the
  formatted text), \<open>Wrapf\<close> is fmt.Errorf with %w, and \<open>TamperingErr\<close> is the
  concrete type *verify.TamperingError. A Go type assertion on an error looks at the
  outermost value only.
\<close>

datatype goerror =
    Errorf string
  | Wrapf string goerror
  | TamperingErr string string

type_synonym 'a result = "goerror + 'a"

type_synonym ('k, 'v) gomap = "('k \<times> 'v) list"

abbreviation gomap_ok :: "('k, 'v) gomap \<Rightarrow> bool" where
  "gomap_ok m \<equiv> distinct (map fst m)"

definition wrap :: "string \<Rightarrow> 'a result \<Rightarrow> 'a result" where
  "wrap msg r = (case r of Inl e \<Rightarrow> Inl (Wrapf msg e) | Inr x \<Rightarrow> Inr x)"

definition bind_res :: "'a result \<Rightarrow> ('a \<Rightarrow> 'b result) \<Rightarrow> 'b result" where
  "bind_res r f = (case r of Inl e \<Rightarrow> Inl e | Inr x \<Rightarrow> f x)"

lemma wrap_simps [simp]:
  "wrap msg (Inl e) = Inl (Wrapf msg e)"
  "wrap msg (Inr x) = Inr x"
  by (simp_all add: wrap_def)

lemma wrap_eq_Inr_iff [simp]: "wrap msg r = Inr x \<longleftrightarrow> r = Inr x"
  by (cases r) simp_all

lemma bind_res_simps [simp]:
  "bind_res (Inl e) f = Inl e"
  "bind_res (Inr x) f = f x"
  by (simp_all add: bind_res_def)

lemma bind_res_eq_Inr_iff: "bind_res r f = Inr y \<longleftrightarrow> (\<exists>x. r = Inr x \<and> f x = Inr y)"
  by (cases r) simp_all

section \<open>Rendering numbers: fmt verbs\<close>

definition digit :: "nat \<Rightarrow> char" where
  "digit n = char_of (48 + n)"

definition is_digit :: "char \<Rightarrow> bool" where
  "is_digit c \<longleftrightarrow> 48 \<le> (of_char c :: nat) \<and> (of_char c :: nat) \<le> 57"

text \<open>The verb %d on an unsigned integer.\<close>

fun fmt_d :: "nat \<Rightarrow> string" where
  "fmt_d n = (if n < 10 then [digit n] else fmt_d (n div 10) @ [digit (n mod 10)])"

declare fmt_d.simps [simp del]

text \<open>The verb %d on a signed integer.\<close>

definition fmt_int :: "int \<Rightarrow> string" where
  "fmt_int i = (if i < 0 then CHR ''-'' # fmt_d (nat (- i)) else fmt_d (nat i))"

text \<open>Reading a run of decimal digits.\<close>

fun read_digits :: "nat \<Rightarrow> string \<Rightarrow> nat \<times> string" where
  "read_digits acc [] = (acc, [])"
| "read_digits acc (c # cs) =
     (if is_digit c then read_digits (10 * acc + (of_char c - 48)) cs else (acc, c # cs))"

lemma of_char_digit [fmt_simps]: "n < 10 \<Longrightarrow> of_char (digit n) = 48 + n"
  by (simp add: digit_def)

lemma is_digit_digit [fmt_simps]: "n < 10 \<Longrightarrow> is_digit (digit n)"
  by (simp add: is_digit_def fmt_simps)

lemma fmt_d_not_Nil [simp]: "fmt_d n \<noteq> []"
  by (subst fmt_d.simps) simp

lemma fmt_d_digits: "c \<in> set (fmt_d n) \<Longrightarrow> is_digit c"
proof (induction n rule: fmt_d.induct)
  case (1 n)
  show ?case
  proof (cases "n < 10")
    case True
    with "1.prems" show ?thesis by (subst (asm) fmt_d.simps) (auto simp: fmt_simps)
  next
    case False
    with "1.prems" have "c \<in> set (fmt_d (n div 10)) \<or> c = digit (n mod 10)"
      by (subst (asm) fmt_d.simps) auto
    with "1.IH" False show ?thesis by (auto simp: fmt_simps)
  qed
qed

lemma read_digits_append:
  "(\<And>c. c \<in> set xs \<Longrightarrow> is_digit c) \<Longrightarrow>
   read_digits acc (xs @ ys) = read_digits (fst (read_digits acc xs)) ys"
  by (induction xs arbitrary: acc) auto

lemma read_digits_fmt_d: "read_digits 0 (fmt_d n) = (n, [])"
proof (induction n rule: fmt_d.induct)
  case (1 n)
  show ?case
  proof (cases "n < 10")
    case True
    then show ?thesis by (subst fmt_d.simps) (simp add: fmt_simps)
  next
    case False
    then have "read_digits 0 (fmt_d n) =
        read_digits (fst (read_digits 0 (fmt_d (n div 10)))) [digit (n mod 10)]"
      by (subst fmt_d.simps) (simp add: read_digits_append fmt_d_digits)
    with "1.IH" False show ?thesis by (simp add: fmt_simps)
  qed
qed

lemma read_digits_stop:
  assumes "rest = [] \<or> \<not> is_digit (hd rest)"
  shows "read_digits acc rest = (acc, rest)"
  using assms by (cases rest) auto

lemma read_digits_fmt_d_append:
  assumes "rest = [] \<or> \<not> is_digit (hd rest)"
  shows "read_digits 0 (fmt_d n @ rest) = (n, rest)"
  using assms by (simp add: read_digits_append fmt_d_digits read_digits_fmt_d read_digits_stop)

lemma fmt_d_inject [simp]: "fmt_d m = fmt_d n \<longleftrightarrow> m = n"
  by (metis fst_conv read_digits_fmt_d)

section \<open>Hexadecimal\<close>

definition hex_digit :: "nat \<Rightarrow> char" where
  "hex_digit n = (if n < 10 then char_of (48 + n) else char_of (87 + n))"

text \<open>encoding/hex.EncodeToString: two lower-case digits per byte.\<close>

fun hex_encode :: "bytes \<Rightarrow> string" where
  "hex_encode [] = []"
| "hex_encode (b # bs) =
     hex_digit (of_char b div 16) # hex_digit (of_char b mod 16) # hex_encode bs"

lemma length_hex_encode [simp]: "length (hex_encode bs) = 2 * length bs"
  by (induction bs) auto

lemma of_char_hex_digit: "n < 16 \<Longrightarrow> of_char (hex_digit n) = (if n < 10 then 48 + n else 87 + n)"
  by (simp add: hex_digit_def)

lemma hex_digit_inject: "m < 16 \<Longrightarrow> n < 16 \<Longrightarrow> hex_digit m = hex_digit n \<longleftrightarrow> m = n"
  by (auto dest!: arg_cong [where f = "of_char :: char \<Rightarrow> nat"] simp: of_char_hex_digit split: if_splits)

lemma of_char_less_256: "(of_char c :: nat) < 256"
  using of_char_mod_256 [of c] by (metis mod_less_divisor zero_less_numeral)

lemma of_char_div_16: "(of_char c :: nat) div 16 < 16"
  by (rule less_mult_imp_div_less) (use of_char_less_256 [of c] in linarith)

lemma of_char_div_mod_inject:
  assumes "(of_char x :: nat) div 16 = of_char y div 16" "(of_char x :: nat) mod 16 = of_char y mod 16"
  shows "x = y"
proof -
  have "(of_char x :: nat) = 16 * (of_char x div 16) + of_char x mod 16" by simp
  also have "\<dots> = 16 * (of_char y div 16) + of_char y mod 16" by (simp only: assms)
  also have "\<dots> = of_char y" by simp
  finally show ?thesis by simp
qed

lemma hex_encode_inject [simp]: "hex_encode xs = hex_encode ys \<longleftrightarrow> xs = ys"
proof (induction xs arbitrary: ys)
  case Nil
  show ?case by (cases ys) auto
next
  case (Cons x xs)
  note IH = Cons.IH
  show ?case
  proof (cases ys)
    case Nil
    then show ?thesis by simp
  next
    case (Cons y ys')
    have eq: "(of_char x :: nat) div 16 = of_char y div 16 \<and> (of_char x :: nat) mod 16 = of_char y mod 16
        \<longleftrightarrow> x = y"
      using of_char_div_mod_inject [of x y] by blast
    have "(of_char x :: nat) div 16 < 16" and "(of_char y :: nat) div 16 < 16"
      by (rule of_char_div_16)+
    then show ?thesis
      using eq by (auto simp: Cons IH hex_digit_inject)
  qed
qed

section \<open>Lexicographic order, prefixes and cursor scans\<close>

text \<open>
  The order of byte strings restricted to the strings with a common prefix: the strings
  with prefix \<open>p\<close> start at \<open>p\<close> itself and are contiguous.
\<close>

lemma append_less_iff [key_simps]: "p @ x < p @ y \<longleftrightarrow> x < (y :: string)"
  by (induction p) simp_all

lemma append_le_iff [key_simps]: "p @ x \<le> p @ y \<longleftrightarrow> x \<le> (y :: string)"
  by (induction p) simp_all

lemma le_append: "p \<le> p @ (x :: string)"
  by (induction p) simp_all

lemma prefix_between:
  assumes "p \<le> k" "k \<le> p @ x"
  shows "\<exists>y. k = p @ (y :: string)"
  using assms
proof (induction p arbitrary: k)
  case Nil
  then show ?case by simp
next
  case (Cons c p)
  then obtain k' where "k = c # k'" and "p \<le> k'" and "k' \<le> p @ x"
    by (cases k) auto
  with Cons.IH show ?case by auto
qed

text \<open>
  The loop over a bbolt cursor that Seeks a prefix and goes on while the key has it,
  with the test the sources write.
\<close>

definition has_prefix :: "string \<Rightarrow> string \<Rightarrow> bool" where
  "has_prefix p k \<longleftrightarrow> length p \<le> length k \<and> take (length p) k = p"

definition scan_prefix :: "string \<Rightarrow> (string \<times> 'v) list \<Rightarrow> (string \<times> 'v) list" where
  "scan_prefix p kvs =
     takeWhile (\<lambda>(k, v). has_prefix p k) (dropWhile (\<lambda>(k, v). k < p) kvs)"

lemma has_prefix_iff [key_simps]: "has_prefix p k \<longleftrightarrow> (\<exists>x. k = p @ x)"
  by (metis append_take_drop_id has_prefix_def append_eq_conv_conj le_add1 length_append)

lemma scan_prefix_filter:
  assumes "sorted (map fst kvs)"
  shows "scan_prefix p kvs = filter (\<lambda>(k, v). has_prefix p k) kvs"
  using assms
proof (induction kvs)
  case Nil
  then show ?case by (simp add: scan_prefix_def)
next
  case (Cons kv kvs)
  obtain k v where kv: "kv = (k, v)" by force
  show ?case
  proof (cases "k < p")
    case True
    then have "\<not> has_prefix p k" using le_append [of p] by (auto simp: has_prefix_iff not_le [symmetric])
    with True Cons show ?thesis by (simp add: kv scan_prefix_def)
  next
    case ge: False
    have tail: "scan_prefix p kvs = takeWhile (\<lambda>(k, v). has_prefix p k) kvs"
      using Cons.prems ge unfolding scan_prefix_def
      by (cases kvs) (auto simp: kv dest: order.trans leD)
    show ?thesis
    proof (cases "has_prefix p k")
      case True
      then show ?thesis using ge Cons tail by (simp add: kv scan_prefix_def)
    next
      case False
      have "\<not> has_prefix p k'" if "(k', v') \<in> set kvs" for k' v'
      proof
        assume "has_prefix p k'"
        moreover have "k \<le> k'" using Cons.prems that by (force simp: kv)
        ultimately have "has_prefix p k"
          using prefix_between [of p k] ge by (auto simp: has_prefix_iff)
        with False show False ..
      qed
      then have "filter (\<lambda>(k, v). has_prefix p k) kvs = []"
        by (auto simp: filter_empty_conv)
      with False ge show ?thesis by (simp add: kv scan_prefix_def)
    qed
  qed
qed

lemma sorted_fst_filter: "sorted (map fst kvs) \<Longrightarrow> sorted (map fst (filter P kvs))"
  by (rule sorted_filter)

text \<open>Keys of the form \<open>table:number\<close>, as the sources build them with "%s:%d".\<close>

definition seq_key :: "string \<Rightarrow> nat \<Rightarrow> string" where
  "seq_key t n = t @ '':'' @ fmt_d n"

lemma colon_not_digit: "CHR '':'' \<notin> set (fmt_d n)"
  using fmt_d_digits [of "CHR '':''" n] by (auto simp: is_digit_def)

lemma append_Cons_inject:
  "c \<notin> set s \<Longrightarrow> c \<notin> set t \<Longrightarrow> s @ c # x = t @ c # y \<longleftrightarrow> s = t \<and> x = y"
proof (induction s arbitrary: t)
  case Nil
  then show ?case by (cases t) auto
next
  case (Cons a s)
  then show ?case by (cases t) auto
qed

lemma seq_key_inject:
  assumes "CHR '':'' \<notin> set t" "CHR '':'' \<notin> set t'"
  shows "seq_key t n = seq_key t' n' \<longleftrightarrow> t = t' \<and> n = n'"
  using assms by (auto simp: seq_key_def append_Cons_inject)

lemma has_prefix_seq_key:
  assumes "CHR '':'' \<notin> set t" "CHR '':'' \<notin> set t'"
  shows "has_prefix (t @ '':'') (seq_key t' n) \<longleftrightarrow> t = t'"
  using assms by (auto simp: has_prefix_iff seq_key_def append_Cons_inject)

lemma seq_key_le_iff [key_simps]: "seq_key t m \<le> seq_key t n \<longleftrightarrow> fmt_d m \<le> fmt_d n"
  by (simp add: seq_key_def append_le_iff)

section \<open>Go maps\<close>

lemmas gomap_update_simps [gomap_simps] = update_conv' distinct_update

lemma gomap_map_of_eq [gomap_simps]:
  "gomap_ok m \<Longrightarrow> map_of m k = Some v \<longleftrightarrow> (k, v) \<in> set m"
  by simp

lemma gomap_perm_map_of:
  assumes "mset m = mset m'" "gomap_ok m"
  shows "map_of m = map_of m'"
proof -
  have "distinct (map fst m')"
    using assms by (metis mset_eq_imp_distinct_iff mset_map)
  moreover have "set m = set m'" using assms(1) by (rule mset_eq_setD)
  ultimately show ?thesis using assms(2) by (simp add: map_of_inject_set)
qed

lemma gomap_perm_ok: "mset m = mset m' \<Longrightarrow> gomap_ok m \<longleftrightarrow> gomap_ok m'"
  by (metis mset_eq_imp_distinct_iff mset_map)

text \<open>The map that a loop of assignments builds.\<close>

definition assign_all :: "('k \<times> 'v) list \<Rightarrow> ('k, 'v) gomap \<Rightarrow> ('k, 'v) gomap" where
  "assign_all kvs m = foldl (\<lambda>m (k, x). AList.update k x m) m kvs"

lemma assign_all_simps [simp]:
  "assign_all [] m = m"
  "assign_all ((k, x) # kvs) m = assign_all kvs (AList.update k x m)"
  by (simp_all add: assign_all_def)

lemma map_of_assign_all: "map_of (assign_all kvs m) = map_of m ++ map_of (rev kvs)"
proof (induction kvs arbitrary: m)
  case (Cons kv kvs)
  then show ?case
    by (cases kv) (auto simp: update_conv' map_add_def fun_eq_iff split: option.splits)
qed simp

lemma gomap_ok_assign_all: "gomap_ok m \<Longrightarrow> gomap_ok (assign_all kvs m)"
proof (induction kvs arbitrary: m)
  case (Cons kv kvs)
  then show ?case by (cases kv) (simp add: distinct_update)
qed simp

lemma keys_assign_all: "fst ` set (assign_all kvs m) = fst ` set m \<union> fst ` set kvs"
proof (induction kvs arbitrary: m)
  case (Cons kv kvs)
  then show ?case by (cases kv) (simp add: dom_update)
qed simp

lemma assign_all_fresh: "gomap_ok (m @ kvs) \<Longrightarrow> assign_all kvs m = m @ kvs"
proof (induction kvs arbitrary: m)
  case (Cons kv kvs)
  obtain k x where kv: "kv = (k, x)" by force
  have "k \<notin> fst ` set m" using Cons.prems by (auto simp: kv)
  then have "AList.update k x m = m @ [(k, x)]" by (induction m) auto
  with Cons.IH [of "m @ [(k, x)]"] Cons.prems show ?case by (simp add: kv)
qed simp

end
