(* ===== verification/Json.thy ===== *)
theory Json
  imports Prelude
begin

text \<open>
  The part of package encoding/json the sources use, at the level of bytes: string
  quoting with HTML escaping and UTF-8 checking, compact printing, parsing into a tree,
  and the decoding of struct fields. Numbers are integers: the program never marshals a
  fraction, and a literal with a fraction or an exponent is a syntax error here.
  The main result is that parsing inverts printing on trees whose strings are valid
  UTF-8, so that marshalled values can be read back and marshalling is injective there.
\<close>

section \<open>UTF-8\<close>

abbreviation byte :: "char \<Rightarrow> nat" where
  "byte c \<equiv> of_char c"

definition cont_byte :: "char \<Rightarrow> bool" where
  "cont_byte c \<longleftrightarrow> 128 \<le> byte c \<and> byte c \<le> 191"

text \<open>
  The number of bytes of the well-formed UTF-8 encoding at the head of a string, 0 if there
  is none (unicode/utf8.DecodeRune, with the ranges of its first and second byte).
\<close>

definition lead_size :: "char \<Rightarrow> nat" where
  "lead_size a =
     (if byte a < 128 then 1
      else if byte a < 194 then 0
      else if byte a < 224 then 2
      else if byte a < 240 then 3
      else if byte a < 245 then 4
      else 0)"

definition second_ok :: "char \<Rightarrow> char \<Rightarrow> bool" where
  "second_ok a b \<longleftrightarrow> cont_byte b \<and> (byte a = 224 \<longrightarrow> 160 \<le> byte b) \<and> (byte a = 237 \<longrightarrow> byte b \<le> 159)
     \<and> (byte a = 240 \<longrightarrow> 144 \<le> byte b) \<and> (byte a = 244 \<longrightarrow> byte b \<le> 143)"

fun rune_len :: "string \<Rightarrow> nat" where
  "rune_len (a # b # cs) =
     (if lead_size a \<le> 1 then lead_size a
      else if lead_size a \<le> 2 + length cs \<and> second_ok a b
         \<and> list_all cont_byte (take (lead_size a - 2) cs)
      then lead_size a else 0)"
| "rune_len [a] = (if lead_size a = 1 then 1 else 0)"
| "rune_len [] = 0"

fun valid_utf8 :: "string \<Rightarrow> bool" where
  "valid_utf8 [] = True"
| "valid_utf8 (c # cs) = (0 < rune_len (c # cs) \<and> valid_utf8 (drop (rune_len (c # cs) - 1) cs))"

lemma rune_len_cases: "rune_len (a # cs) = 0 \<or> rune_len (a # cs) = lead_size a"
  by (cases cs) auto

lemma rune_len_le: "rune_len s \<le> length s"
  by (cases s rule: rune_len.cases) auto

lemma rune_len_prefix:
  assumes "0 < rune_len s"
  shows "rune_len (take (rune_len s) s @ x) = rune_len s"
proof (cases s rule: rune_len.cases)
  case (1 a b cs)
  show ?thesis
  proof (cases "lead_size a \<le> 1")
    case True
    with assms 1 have "lead_size a = 1" by simp
    with 1 show ?thesis by (cases x) auto
  next
    case False
    then obtain m where m: "lead_size a = Suc (Suc m)"
      by (metis Suc_le_mono le0 not0_implies_Suc One_nat_def)
    with assms 1 show ?thesis by (auto split: if_splits)
  qed
next
  case (2 a)
  with assms show ?thesis by (cases x) (auto split: if_splits)
next
  case 3
  with assms show ?thesis by simp
qed

lemma lead_size_1: "lead_size c = Suc 0 \<longleftrightarrow> byte c < 128"
  by (simp add: lead_size_def)

lemma rune_len_1: "rune_len (c # cs) = Suc 0 \<longleftrightarrow> byte c < 128"
  using rune_len_cases [of c cs] by (cases cs) (auto simp: lead_size_def split: if_splits)

lemma valid_utf8_ascii: "(\<And>c. c \<in> set s \<Longrightarrow> byte c < 128) \<Longrightarrow> valid_utf8 s"
proof (induction s)
  case (Cons c s)
  then have "rune_len (c # s) = Suc 0" by (simp add: rune_len_1)
  with Cons show ?case by simp
qed simp

section \<open>Strings\<close>

text \<open>
  Quoting (encoding/json, appendString with HTML escaping on): printable ASCII other than
  the quote, the backslash and the three HTML characters stands for itself, the named
  escapes are used where JSON has them, every other control or HTML character is a
  u00XX escape; of the multi-byte characters U+2028 and U+2029 are escaped, and a byte
  that starts no well-formed encoding becomes the replacement character.
\<close>

definition html_safe :: "char \<Rightarrow> bool" where
  "html_safe c \<longleftrightarrow> 32 \<le> byte c \<and> byte c < 128 \<and> c \<notin> {CHR 0x22, CHR 0x5C, CHR ''<'', CHR ''>'', CHR ''&''}"

definition escape_ascii :: "char \<Rightarrow> string" where
  "escape_ascii c =
     (if html_safe c then [c]
      else if c = CHR 0x5C \<or> c = CHR 0x22 then [CHR 0x5C, c]
      else if byte c = 8 then [CHR 0x5C, CHR ''b'']
      else if byte c = 12 then [CHR 0x5C, CHR ''f'']
      else if byte c = 10 then [CHR 0x5C, CHR ''n'']
      else if byte c = 13 then [CHR 0x5C, CHR ''r'']
      else if byte c = 9 then [CHR 0x5C, CHR ''t'']
      else CHR 0x5C # ''u00'' @ [hex_digit (byte c div 16), hex_digit (byte c mod 16)])"

fun quote_body :: "string \<Rightarrow> string" where
  "quote_body [] = []"
| "quote_body (c # cs) =
     (if rune_len (c # cs) = 0 then CHR 0x5C # ''ufffd'' @ quote_body cs
      else if rune_len (c # cs) = 1 then escape_ascii c @ quote_body cs
      else (if take 3 (c # cs) = [CHR 0xE2, CHR 0x80, CHR 0xA8] then CHR 0x5C # ''u2028''
            else if take 3 (c # cs) = [CHR 0xE2, CHR 0x80, CHR 0xA9] then CHR 0x5C # ''u2029''
            else take (rune_len (c # cs)) (c # cs))
           @ quote_body (drop (rune_len (c # cs) - 1) cs))"

definition quote :: "string \<Rightarrow> string" where
  "quote s = CHR 0x22 # quote_body s @ [CHR 0x22]"

text \<open>Unquoting: the text after an opening quote, up to the closing one.\<close>

definition hex_value :: "char \<Rightarrow> nat option" where
  "hex_value c =
     (let n = byte c in
      if 48 \<le> n \<and> n \<le> 57 then Some (n - 48)
      else if 97 \<le> n \<and> n \<le> 102 then Some (n - 87)
      else if 65 \<le> n \<and> n \<le> 70 then Some (n - 55)
      else None)"

definition hex4 :: "char \<Rightarrow> char \<Rightarrow> char \<Rightarrow> char \<Rightarrow> nat option" where
  "hex4 a b c d =
     (case (hex_value a, hex_value b, hex_value c, hex_value d) of
        (Some i, Some j, Some k, Some l) \<Rightarrow> Some (((i * 16 + j) * 16 + k) * 16 + l)
      | _ \<Rightarrow> None)"

text \<open>unicode/utf8.EncodeRune.\<close>

definition utf8_encode :: "nat \<Rightarrow> string" where
  "utf8_encode r =
     (if r < 128 then [char_of r]
      else if r < 2048 then [char_of (192 + r div 64), char_of (128 + r mod 64)]
      else if r < 65536 then
        [char_of (224 + r div 4096), char_of (128 + r div 64 mod 64), char_of (128 + r mod 64)]
      else [char_of (240 + r div 262144), char_of (128 + r div 4096 mod 64),
            char_of (128 + r div 64 mod 64), char_of (128 + r mod 64)])"

definition replacement :: string where
  "replacement = [CHR 0xEF, CHR 0xBF, CHR 0xBD]"

definition is_surrogate :: "nat \<Rightarrow> bool" where
  "is_surrogate r \<longleftrightarrow> 55296 \<le> r \<and> r < 57344"

definition prepend :: "string \<Rightarrow> (string \<times> string) option \<Rightarrow> (string \<times> string) option" where
  "prepend x r = map_option (\<lambda>(s, rest). (x @ s, rest)) r"

definition simple_escape :: "char \<Rightarrow> char option" where
  "simple_escape e =
     map_of [(CHR 0x22, CHR 0x22), (CHR 0x5C, CHR 0x5C), (CHR ''/'', CHR ''/''),
       (CHR ''b'', CHR 0x08), (CHR ''f'', CHR 0x0C), (CHR ''n'', CHR 0x0A),
       (CHR ''r'', CHR 0x0D), (CHR ''t'', CHR 0x09)] e"

text \<open>The low half of a surrogate pair: the escape that must follow at once.\<close>

fun low_surrogate :: "string \<Rightarrow> (nat \<times> string) option" where
  "low_surrogate (bs # u # a # b # c # d # cs) =
     (if bs = CHR 0x5C \<and> u = CHR ''u'' then
        (case hex4 a b c d of
           Some r \<Rightarrow> if 56320 \<le> r \<and> r < 57344 then Some (r, cs) else None
         | None \<Rightarrow> None)
      else None)"
| "low_surrogate _ = None"

lemma low_surrogate_length: "low_surrogate s = Some (r, cs) \<Longrightarrow> length cs < length s"
  by (induction s rule: low_surrogate.induct) (auto split: if_splits option.splits)

function unquote :: "string \<Rightarrow> (string \<times> string) option" where
  "unquote s =
     (case s of
        [] \<Rightarrow> None
      | c # cs \<Rightarrow>
          if c = CHR 0x22 then Some ([], cs)
          else if c = CHR 0x5C then
            (case cs of
               [] \<Rightarrow> None
             | e # es \<Rightarrow>
                 if e = CHR ''u'' then
                   (case es of
                      h1 # h2 # h3 # h4 # rest \<Rightarrow>
                        (case hex4 h1 h2 h3 h4 of
                           None \<Rightarrow> None
                         | Some r \<Rightarrow>
                             if is_surrogate r then
                               (case (if r < 56320 then low_surrogate rest else None) of
                                  Some (lo, rest') \<Rightarrow>
                                    prepend (utf8_encode (65536 + (r - 55296) * 1024 + (lo - 56320)))
                                      (unquote rest')
                                | None \<Rightarrow> prepend replacement (unquote rest))
                             else prepend (utf8_encode r) (unquote rest))
                    | _ \<Rightarrow> None)
                 else (case simple_escape e of
                         Some x \<Rightarrow> prepend [x] (unquote es)
                       | None \<Rightarrow> None))
          else if byte c < 32 then None
          else if rune_len s = 0 then prepend replacement (unquote cs)
          else prepend (take (rune_len s) s) (unquote (drop (rune_len s) s)))"
  by pat_completeness auto
termination
  by (relation "measure length") (auto dest!: low_surrogate_length split: if_splits)

declare unquote.simps [simp del]

lemma prepend_simps [simp]:
  "prepend x None = None" "prepend x (Some (s, rest)) = Some (x @ s, rest)"
  by (simp_all add: prepend_def)

lemma hex_value_hex_digit: "n < 16 \<Longrightarrow> hex_value (hex_digit n) = Some n"
  by (simp add: hex_value_def of_char_hex_digit)

lemma hex_value_0: "hex_value (CHR ''0'') = Some 0"
  by (simp add: hex_value_def)

lemma escapes_2028_2029:
  "hex4 (CHR ''2'') (CHR ''0'') (CHR ''2'') (CHR ''8'') = Some 8232"
  "hex4 (CHR ''2'') (CHR ''0'') (CHR ''2'') (CHR ''9'') = Some 8233"
  "utf8_encode 8232 = [CHR 0xE2, CHR 0x80, CHR 0xA8]"
  "utf8_encode 8233 = [CHR 0xE2, CHR 0x80, CHR 0xA9]"
  by (simp_all add: hex4_def hex_value_def utf8_encode_def char_of_eq_iff)

lemma byte_eq_iff: "byte c = byte d \<longleftrightarrow> c = d"
  by simp

lemma unquote_close: "unquote (CHR 0x22 # rest) = Some ([], rest)"
  by (subst unquote.simps) simp

lemma unquote_simple:
  "e \<noteq> CHR ''u'' \<Longrightarrow> simple_escape e = Some x \<Longrightarrow>
   unquote (CHR 0x5C # e # rest) = prepend [x] (unquote rest)"
  by (subst unquote.simps) simp

lemma unquote_u:
  "hex4 a b c d = Some r \<Longrightarrow> \<not> is_surrogate r \<Longrightarrow>
   unquote (CHR 0x5C # CHR ''u'' # a # b # c # d # rest) = prepend (utf8_encode r) (unquote rest)"
  by (subst unquote.simps) simp

lemma unquote_rune:
  assumes "0 < rune_len s" "hd s \<noteq> CHR 0x22" "hd s \<noteq> CHR 0x5C" "32 \<le> byte (hd s)"
  shows "unquote (take (rune_len s) s @ rest) = prepend (take (rune_len s) s) (unquote rest)"
proof -
  obtain c cs where s: "s = c # cs" using assms(1) by (cases s) auto
  obtain m where m: "rune_len (c # cs) = Suc m" using assms(1) s by (cases "rune_len s") auto
  have len: "length (take (rune_len s) s) = rune_len s" using rune_len_le [of s] by simp
  have "rune_len (c # take m cs @ rest) = rune_len s"
    using rune_len_prefix [OF assms(1), of rest] unfolding s m by simp
  with assms len show ?thesis
    unfolding s m by (subst unquote.simps) (simp add: m)
qed

lemma unquote_escape_ascii:
  assumes "byte c < 128"
  shows "unquote (escape_ascii c @ rest) = prepend [c] (unquote rest)"
proof (cases "html_safe c")
  case True
  then show ?thesis
    using unquote_rune [of "[c]" rest] by (simp add: html_safe_def escape_ascii_def lead_size_1)
next
  case unsafe: False
  have u00: "unquote (CHR 0x5C # ''u00'' @ [hex_digit (byte c div 16), hex_digit (byte c mod 16)] @ rest)
      = prepend [c] (unquote rest)"
  proof -
    have "byte c div 16 < 16" by (rule of_char_div_16)
    then have "hex4 (CHR ''0'') (CHR ''0'') (hex_digit (byte c div 16)) (hex_digit (byte c mod 16))
        = Some (byte c)"
      by (simp add: hex4_def hex_value_hex_digit hex_value_0)
    then show ?thesis
      using assms by (simp add: unquote_u is_surrogate_def utf8_encode_def)
  qed
  show ?thesis
  proof (cases "byte c \<in> {8, 9, 10, 12, 13, 34, 92}")
    case True
    then have "c = CHR 0x08 \<or> c = CHR 0x09 \<or> c = CHR 0x0A \<or> c = CHR 0x0C \<or> c = CHR 0x0D
        \<or> c = CHR 0x22 \<or> c = CHR 0x5C"
      by (simp add: byte_eq_iff [symmetric] del: of_char_eq_iff)
    then show ?thesis
      by (elim disjE) (simp_all add: escape_ascii_def html_safe_def simple_escape_def unquote_simple)
  next
    case False
    then have "escape_ascii c = CHR 0x5C # ''u00'' @ [hex_digit (byte c div 16), hex_digit (byte c mod 16)]"
      using unsafe by (auto simp: escape_ascii_def)
    then show ?thesis using u00 by simp
  qed
qed

lemma unquote_quote_body:
  "valid_utf8 s \<Longrightarrow> unquote (quote_body s @ CHR 0x22 # rest) = Some (s, rest)"
proof (induction s rule: quote_body.induct)
  case 1
  then show ?case by (simp add: unquote_close)
next
  case (2 c cs)
  let ?n = "rune_len (c # cs)"
  let ?s = "c # cs"
  from "2.prems" have pos: "0 < ?n" and tl: "valid_utf8 (drop (?n - 1) cs)" by auto
  show ?case
  proof (cases "?n = 1")
    case True
    then have "byte c < 128" using rune_len_1 [of c cs] by simp
    with True "2.IH"(2) tl show ?thesis
      by (simp add: unquote_escape_ascii)
  next
    case False
    with pos have ge: "128 \<le> byte c" using rune_len_1 [of c cs] by (simp add: not_less [symmetric])
    have IH: "unquote (quote_body (drop (?n - 1) cs) @ CHR 0x22 # rest) = Some (drop (?n - 1) cs, rest)"
      using "2.IH"(3) pos False tl by simp
    have split: "take ?n ?s @ drop (?n - 1) cs = ?s"
      using pos by (cases ?n) auto
    show ?thesis
    proof (cases "take 3 ?s = [CHR 0xE2, CHR 0x80, CHR 0xA8] \<or> take 3 ?s = [CHR 0xE2, CHR 0x80, CHR 0xA9]")
      case True
      then obtain d ds where s: "?s = CHR 0xE2 # CHR 0x80 # d # ds" and d: "d = CHR 0xA8 \<or> d = CHR 0xA9"
        by (cases cs; cases "tl cs") auto
      then have n3: "?n = 3" using pos rune_len_cases [of c cs] by (auto simp: lead_size_def)
      from d IH show ?thesis
        unfolding quote_body.simps(2) [of c cs] using False pos n3 s
        by (auto simp del: rune_len.simps simp: unquote_u is_surrogate_def escapes_2028_2029)
    next
      case plain: False
      have "quote_body ?s = take ?n ?s @ quote_body (drop (?n - 1) cs)"
        using False pos plain by (simp only: quote_body.simps) auto
      moreover have "unquote (take ?n ?s @ quote_body (drop (?n - 1) cs) @ CHR 0x22 # rest)
          = prepend (take ?n ?s) (unquote (quote_body (drop (?n - 1) cs) @ CHR 0x22 # rest))"
        using pos ge by (intro unquote_rune) auto
      ultimately show ?thesis using IH split by simp
    qed
  qed
qed

lemma valid_utf8_literal: "list_all (\<lambda>c. byte c < 128) s \<Longrightarrow> valid_utf8 s"
  by (rule valid_utf8_ascii) (simp add: list_all_iff)

declare rune_len.simps [simp del] valid_utf8.simps(2) [simp del] quote_body.simps(2) [simp del]

section \<open>Trees, printing and parsing\<close>

datatype json =
    JNull
  | JBool bool
  | JNum int
  | JStr string
  | JArr "json list"
  | JObj "(string \<times> json) list"

text \<open>Compact output of json.Marshal.\<close>

fun json_print :: "json \<Rightarrow> string"
  and print_elems :: "json list \<Rightarrow> string"
  and print_members :: "(string \<times> json) list \<Rightarrow> string" where
  "json_print JNull = ''null''"
| "json_print (JBool b) = (if b then ''true'' else ''false'')"
| "json_print (JNum i) = fmt_int i"
| "json_print (JStr s) = quote s"
| "json_print (JArr js) = ''['' @ print_elems js @ '']''"
| "json_print (JObj kvs) = ''{'' @ print_members kvs @ ''}''"
| "print_elems [] = []"
| "print_elems (j # js) = json_print j @ (if js = [] then [] else CHR '','' # print_elems js)"
| "print_members [] = []"
| "print_members (kv # kvs) =
     quote (fst kv) @ CHR '':'' # json_print (snd kv) @ (if kvs = [] then [] else CHR '','' # print_members kvs)"

definition is_ws :: "char \<Rightarrow> bool" where
  "is_ws c \<longleftrightarrow> byte c \<in> {9, 10, 13, 32}"

definition skip_ws :: "string \<Rightarrow> string" where
  "skip_ws s = dropWhile is_ws s"

text \<open>An integer literal; a leading zero, a fraction or an exponent is an error.\<close>

definition parse_nat :: "string \<Rightarrow> (nat \<times> string) option" where
  "parse_nat s =
     (case s of
        [] \<Rightarrow> None
      | c # cs \<Rightarrow>
          if is_digit c \<and> \<not> (c = CHR ''0'' \<and> cs \<noteq> [] \<and> is_digit (hd cs))
          then (let (n, rest) = read_digits 0 s in
                if rest \<noteq> [] \<and> hd rest \<in> {CHR ''.'', CHR ''e'', CHR ''E''} then None else Some (n, rest))
          else None)"

definition strip_word :: "string \<Rightarrow> string \<Rightarrow> string option" where
  "strip_word w s = (if has_prefix w s then Some (drop (length w) s) else None)"

fun parse_value :: "nat \<Rightarrow> string \<Rightarrow> (json \<times> string) option"
  and parse_elems :: "nat \<Rightarrow> string \<Rightarrow> (json list \<times> string) option"
  and parse_members :: "nat \<Rightarrow> string \<Rightarrow> ((string \<times> json) list \<times> string) option" where
  "parse_value 0 s = None"
| "parse_value (Suc f) s =
     (case skip_ws s of
        [] \<Rightarrow> None
      | c # cs \<Rightarrow>
          if c = CHR 0x22 then map_option (\<lambda>(x, r). (JStr x, r)) (unquote cs)
          else if c = CHR ''['' then
            (case skip_ws cs of
               d # r \<Rightarrow> if d = CHR '']'' then Some (JArr [], r)
                        else map_option (\<lambda>(x, r). (JArr x, r)) (parse_elems f cs)
             | [] \<Rightarrow> None)
          else if c = CHR ''{'' then
            (case skip_ws cs of
               d # r \<Rightarrow> if d = CHR ''}'' then Some (JObj [], r)
                        else map_option (\<lambda>(x, r). (JObj x, r)) (parse_members f cs)
             | [] \<Rightarrow> None)
          else if c = CHR ''-'' then map_option (\<lambda>(n, r). (JNum (- int n), r)) (parse_nat cs)
          else if c = CHR ''n'' then map_option (\<lambda>r. (JNull, r)) (strip_word ''ull'' cs)
          else if c = CHR ''t'' then map_option (\<lambda>r. (JBool True, r)) (strip_word ''rue'' cs)
          else if c = CHR ''f'' then map_option (\<lambda>r. (JBool False, r)) (strip_word ''alse'' cs)
          else map_option (\<lambda>(n, r). (JNum (int n), r)) (parse_nat (c # cs)))"
| "parse_elems 0 s = None"
| "parse_elems (Suc f) s =
     (case parse_value f s of
        None \<Rightarrow> None
      | Some (j, r) \<Rightarrow>
          (case skip_ws r of
             [] \<Rightarrow> None
           | c # cs \<Rightarrow>
               if c = CHR '']'' then Some ([j], cs)
               else if c = CHR '','' then map_option (\<lambda>(js, r'). (j # js, r')) (parse_elems f cs)
               else None))"
| "parse_members 0 s = None"
| "parse_members (Suc f) s =
     (case skip_ws s of
        [] \<Rightarrow> None
      | q # qs \<Rightarrow>
          if q \<noteq> CHR 0x22 then None
          else (case unquote qs of
             None \<Rightarrow> None
           | Some (k, r) \<Rightarrow>
               (case skip_ws r of
                  [] \<Rightarrow> None
                | c # cs \<Rightarrow>
                    if c \<noteq> CHR '':'' then None
                    else (case parse_value f cs of
                       None \<Rightarrow> None
                     | Some (j, r') \<Rightarrow>
                         (case skip_ws r' of
                            [] \<Rightarrow> None
                          | d # ds \<Rightarrow>
                              if d = CHR ''}'' then Some ([(k, j)], ds)
                              else if d = CHR '','' then
                                map_option (\<lambda>(kvs, r''). ((k, j) # kvs, r'')) (parse_members f ds)
                              else None)))))"

definition json_parse :: "string \<Rightarrow> json option" where
  "json_parse s =
     (case parse_value (length s) s of
        Some (j, r) \<Rightarrow> if skip_ws r = [] then Some j else None
      | None \<Rightarrow> None)"

text \<open>Every string in the tree is well-formed UTF-8.\<close>

fun json_ok :: "json \<Rightarrow> bool"
  and elems_ok :: "json list \<Rightarrow> bool"
  and members_ok :: "(string \<times> json) list \<Rightarrow> bool" where
  "json_ok (JStr s) = valid_utf8 s"
| "json_ok (JArr js) = elems_ok js"
| "json_ok (JObj kvs) = members_ok kvs"
| "json_ok _ = True"
| "elems_ok [] = True"
| "elems_ok (j # js) = (json_ok j \<and> elems_ok js)"
| "members_ok [] = True"
| "members_ok (kv # kvs) = (valid_utf8 (fst kv) \<and> json_ok (snd kv) \<and> members_ok kvs)"

lemma skip_ws_Cons: "\<not> is_ws c \<Longrightarrow> skip_ws (c # cs) = c # cs"
  by (simp add: skip_ws_def)

lemma not_ws [simp]:
  "\<not> is_ws (CHR 0x22)" "\<not> is_ws (CHR ''['')" "\<not> is_ws (CHR '']'')" "\<not> is_ws (CHR ''{'')" "\<not> is_ws (CHR ''}'')"
  "\<not> is_ws (CHR '','')" "\<not> is_ws (CHR '':'')" "\<not> is_ws (CHR ''-'')" "\<not> is_ws (CHR ''n'')" "\<not> is_ws (CHR ''t'')"
  "\<not> is_ws (CHR ''f'')"
  by (simp_all add: is_ws_def)

lemma hd_fmt_d_0: "hd (fmt_d n) = digit 0 \<Longrightarrow> n = 0"
proof (induction n rule: fmt_d.induct)
  case (1 n)
  show ?case
  proof (cases "n < 10")
    case True
    with "1.prems" have "of_char (digit n) = (of_char (digit 0) :: nat)"
      by (subst (asm) fmt_d.simps) simp
    with True show ?thesis by (simp add: of_char_digit)
  next
    case False
    with "1.prems" have "hd (fmt_d (n div 10)) = digit 0"
      by (subst (asm) fmt_d.simps) simp
    with "1.IH" False show ?thesis by simp
  qed
qed

definition number_stop :: "string \<Rightarrow> bool" where
  "number_stop rest \<longleftrightarrow> rest = [] \<or> (\<not> is_digit (hd rest) \<and> hd rest \<notin> {CHR ''.'', CHR ''e'', CHR ''E''})"

lemma number_stop_simps [simp]:
  "number_stop []" "number_stop (CHR '','' # cs)" "number_stop (CHR '']'' # cs)" "number_stop (CHR ''}'' # cs)"
  by (simp_all add: number_stop_def is_digit_def)

lemma digit_0: "digit 0 = CHR ''0''"
  by (simp add: digit_def char_of_eq_iff)

lemma parse_nat_fmt_d:
  assumes "number_stop rest"
  shows "parse_nat (fmt_d n @ rest) = Some (n, rest)"
proof -
  obtain c cs where fd: "fmt_d n = c # cs" by (cases "fmt_d n") auto
  have dig: "is_digit c" using fmt_d_digits [of c n] fd by simp
  have rd: "read_digits 0 (fmt_d n @ rest) = (n, rest)"
    using assms by (intro read_digits_fmt_d_append) (auto simp: number_stop_def)
  have "\<not> (c = CHR ''0'' \<and> cs @ rest \<noteq> [] \<and> is_digit (hd (cs @ rest)))"
  proof
    assume a: "c = CHR ''0'' \<and> cs @ rest \<noteq> [] \<and> is_digit (hd (cs @ rest))"
    then have "n = 0" using hd_fmt_d_0 [of n] fd by (simp add: digit_0)
    then have "cs = []" using fd by (subst (asm) fmt_d.simps) simp
    with a assms show False by (auto simp: number_stop_def)
  qed
  with rd fd dig assms show ?thesis by (auto simp: parse_nat_def number_stop_def)
qed

lemma parse_value_number:
  assumes "number_stop rest"
  shows "parse_value (Suc f) (fmt_int i @ rest) = Some (JNum i, rest)"
proof (cases "i < 0")
  case True
  then show ?thesis using parse_nat_fmt_d [OF assms] by (simp add: fmt_int_def skip_ws_Cons)
next
  case False
  obtain c cs where fd: "fmt_d (nat i) = c # cs" by (cases "fmt_d (nat i)") auto
  have dig: "is_digit c" using fmt_d_digits [of c "nat i"] fd by simp
  then have "\<not> is_ws c" "c \<notin> {CHR 0x22, CHR ''['', CHR ''{'', CHR ''-'', CHR ''n'', CHR ''t'', CHR ''f''}"
    by (auto simp: is_digit_def is_ws_def)
  with parse_nat_fmt_d [OF assms, of "nat i"] fd False show ?thesis
    by (auto simp: fmt_int_def skip_ws_Cons)
qed

lemma parse_value_string:
  "valid_utf8 s \<Longrightarrow> parse_value (Suc f) (quote s @ rest) = Some (JStr s, rest)"
  by (simp add: quote_def skip_ws_Cons unquote_quote_body)

text \<open>What printing a value can start with, to step over the opening of a container.\<close>

lemma json_print_head:
  "\<exists>c cs. json_print j = c # cs \<and> \<not> is_ws c \<and> c \<noteq> CHR '']'' \<and> c \<noteq> CHR ''}''"
proof (cases j)
  case (JNum i)
  obtain c cs where fd: "fmt_d (nat i) = c # cs" by (cases "fmt_d (nat i)") auto
  have "is_digit c" using fmt_d_digits [of c "nat i"] fd by simp
  with fd JNum show ?thesis by (auto simp: fmt_int_def is_digit_def is_ws_def)
qed (auto simp: quote_def)

lemma length_json_print: "0 < length (json_print j)"
  using json_print_head [of j] by auto

lemma parse_value_JArr:
  assumes "js \<noteq> [] \<Longrightarrow> parse_elems f (print_elems js @ CHR '']'' # rest) = Some (js, rest)"
  shows "parse_value (Suc f) (json_print (JArr js) @ rest) = Some (JArr js, rest)"
proof (cases js)
  case Nil
  then show ?thesis by (simp add: skip_ws_Cons)
next
  case (Cons j js')
  obtain c cs where "json_print j = c # cs" "\<not> is_ws c" "c \<noteq> CHR '']''"
    using json_print_head [of j] by auto
  with assms Cons show ?thesis by (simp add: skip_ws_Cons)
qed

lemma parse_value_JObj:
  assumes "kvs \<noteq> [] \<Longrightarrow> parse_members f (print_members kvs @ CHR ''}'' # rest) = Some (kvs, rest)"
  shows "parse_value (Suc f) (json_print (JObj kvs) @ rest) = Some (JObj kvs, rest)"
  using assms by (cases kvs) (simp_all add: skip_ws_Cons quote_def)

lemma parse_elems_Cons:
  assumes "\<And>r. number_stop r \<Longrightarrow> parse_value f (json_print j @ r) = Some (j, r)"
    and "js \<noteq> [] \<Longrightarrow> parse_elems f (print_elems js @ CHR '']'' # rest) = Some (js, rest)"
  shows "parse_elems (Suc f) (print_elems (j # js) @ CHR '']'' # rest) = Some (j # js, rest)"
  using assms by (cases "js = []") (simp_all add: skip_ws_Cons)

lemma parse_members_Cons:
  assumes "valid_utf8 (fst kv)"
    and "\<And>r. number_stop r \<Longrightarrow> parse_value f (json_print (snd kv) @ r) = Some (snd kv, r)"
    and "kvs \<noteq> [] \<Longrightarrow> parse_members f (print_members kvs @ CHR ''}'' # rest) = Some (kvs, rest)"
  shows "parse_members (Suc f) (print_members (kv # kvs) @ CHR ''}'' # rest) = Some (kv # kvs, rest)"
  using assms by (cases "kvs = []") (simp_all add: skip_ws_Cons quote_def unquote_quote_body)

lemma parse_print:
  "json_ok j \<Longrightarrow> length (json_print j) \<le> f \<Longrightarrow> number_stop rest \<Longrightarrow>
     parse_value f (json_print j @ rest) = Some (j, rest)"
  "elems_ok js \<Longrightarrow> js \<noteq> [] \<Longrightarrow> length (print_elems js) < f \<Longrightarrow>
     parse_elems f (print_elems js @ CHR '']'' # rest) = Some (js, rest)"
  "members_ok kvs \<Longrightarrow> kvs \<noteq> [] \<Longrightarrow> length (print_members kvs) < f \<Longrightarrow>
     parse_members f (print_members kvs @ CHR ''}'' # rest) = Some (kvs, rest)"
proof (induction j and js and kvs arbitrary: f rest and f rest and f rest
    rule: json_print_print_elems_print_members.induct)
  case 1
  then show ?case by (cases f) (auto simp: skip_ws_Cons strip_word_def has_prefix_def)
next
  case (2 b)
  then show ?case by (cases f; cases b) (auto simp: skip_ws_Cons strip_word_def has_prefix_def)
next
  case (3 i)
  then obtain f' where "f = Suc f'" using length_json_print [of "JNum i"] by (cases f) auto
  with 3 show ?case by (simp add: parse_value_number del: parse_value.simps)
next
  case (4 s)
  then obtain f' where "f = Suc f'" by (cases f) (auto simp: quote_def)
  with 4 show ?case by (simp add: parse_value_string del: parse_value.simps)
next
  case (5 js)
  then obtain f' where f: "f = Suc f'" by (cases f) auto
  show ?case unfolding f by (rule parse_value_JArr) (use 5 f in auto)
next
  case (6 kvs)
  then obtain f' where f: "f = Suc f'" by (cases f) auto
  show ?case unfolding f by (rule parse_value_JObj) (use 6 f in auto)
next
  case (8 j js)
  then obtain f' where f: "f = Suc f'" by (cases f) auto
  show ?case unfolding f
    by (rule parse_elems_Cons) (use 8 f length_json_print [of j] in \<open>auto split: if_splits\<close>)
next
  case (10 kv kvs)
  then obtain f' where f: "f = Suc f'" by (cases f) auto
  show ?case unfolding f
    by (rule parse_members_Cons) (use 10 f length_json_print [of "snd kv"] in \<open>auto split: if_splits\<close>)
qed simp_all

theorem json_parse_print: "json_ok j \<Longrightarrow> json_parse (json_print j) = Some j"
  using parse_print(1) [of j "length (json_print j)" "[]"]
  by (simp add: json_parse_def skip_ws_def)

lemma json_print_inject: "json_ok i \<Longrightarrow> json_ok j \<Longrightarrow> json_print i = json_print j \<longleftrightarrow> i = j"
  by (metis json_parse_print option.inject)

section \<open>Maps and struct fields\<close>

text \<open>
  json.Marshal of a map[string]string writes the members in the order of their keys.
\<close>

definition json_of_smap :: "(string, string) gomap \<Rightarrow> json" where
  "json_of_smap m = JObj (map (\<lambda>(k, v). (k, JStr v)) (sort_key fst m))"

text \<open>
  Reading a struct: a field whose name is absent keeps its zero value, as does one that is
  null; of several members with the same name the last one counts; a member of another
  kind is an error. (Go also accepts names that differ in case only; the program writes
  and reads the exact names.)
\<close>

definition field :: "(string \<times> json) list \<Rightarrow> string \<Rightarrow> json" where
  "field kvs k = (case map_of (rev kvs) k of Some j \<Rightarrow> j | None \<Rightarrow> JNull)"

definition dec_string :: "json \<Rightarrow> string option" where
  "dec_string j = (case j of JStr s \<Rightarrow> Some s | JNull \<Rightarrow> Some [] | _ \<Rightarrow> None)"

definition dec_uint64 :: "json \<Rightarrow> 64 word option" where
  "dec_uint64 j =
     (case j of
        JNum i \<Rightarrow> if 0 \<le> i \<and> i < 2 ^ 64 then Some (word_of_int i) else None
      | JNull \<Rightarrow> Some 0
      | _ \<Rightarrow> None)"

definition dec_int :: "json \<Rightarrow> int option" where
  "dec_int j =
     (case j of
        JNum i \<Rightarrow> if - (2 ^ 63) \<le> i \<and> i < 2 ^ 63 then Some i else None
      | JNull \<Rightarrow> Some 0
      | _ \<Rightarrow> None)"

fun dec_members :: "(string \<times> json) list \<Rightarrow> (string, string) gomap \<Rightarrow> (string, string) gomap option" where
  "dec_members [] m = Some m"
| "dec_members ((k, j) # kvs) m =
     (case dec_string j of Some s \<Rightarrow> dec_members kvs (AList.update k s m) | None \<Rightarrow> None)"

definition dec_smap :: "json \<Rightarrow> (string, string) gomap option" where
  "dec_smap j = (case j of JObj kvs \<Rightarrow> dec_members kvs [] | JNull \<Rightarrow> Some [] | _ \<Rightarrow> None)"

lemma dec_uint64_uint [simp]: "dec_uint64 (JNum (uint w)) = Some w" for w :: "64 word"
proof -
  have "uint w < 2 ^ 64" using uint_lt2p [of w] by simp
  then show ?thesis by (simp add: dec_uint64_def)
qed

lemma members_ok_iff: "members_ok kvs \<longleftrightarrow> (\<forall>kv \<in> set kvs. valid_utf8 (fst kv) \<and> json_ok (snd kv))"
  by (induction kvs) auto

definition smap_utf8 :: "(string, string) gomap \<Rightarrow> bool" where
  "smap_utf8 m \<longleftrightarrow> list_all (\<lambda>(k, v). valid_utf8 k \<and> valid_utf8 v) m"

lemma json_ok_smap: "smap_utf8 m \<Longrightarrow> json_ok (json_of_smap m)"
  by (auto simp: json_of_smap_def members_ok_iff smap_utf8_def list_all_iff)

lemma sort_key_fst_perm:
  assumes "mset m = mset m'" "gomap_ok m"
  shows "sort_key fst m = sort_key fst m'"
proof (rule sort_key_inj_key_eq)
  show "mset m = mset (sort_key fst m')" using assms by simp
  show "inj_on fst (set m)" using assms(2) by (simp add: distinct_map)
  show "sorted (map fst (sort_key fst m'))" by simp
qed

text \<open>The marshalled text of a map does not depend on the order in which it is visited.\<close>

lemma json_of_smap_perm: "mset m = mset m' \<Longrightarrow> gomap_ok m \<Longrightarrow> json_of_smap m = json_of_smap m'"
  by (simp add: json_of_smap_def sort_key_fst_perm)

lemma json_of_smap_inject:
  assumes "json_of_smap m = json_of_smap m'"
  shows "mset m = mset m'"
proof -
  have "map (\<lambda>(k, v). (k, JStr v)) (sort_key fst m) = map (\<lambda>(k, v). (k, JStr v)) (sort_key fst m')"
    using assms by (simp add: json_of_smap_def)
  then have "sort_key fst m = sort_key fst m'"
    by (rule map_injective) (auto simp: inj_def)
  then show ?thesis by (metis mset_sort)
qed

lemma update_new: "k \<notin> fst ` set m \<Longrightarrow> AList.update k v m = m @ [(k, v)]"
  by (induction m) auto

lemma dec_members_strings:
  "gomap_ok (m @ kvs) \<Longrightarrow> dec_members (map (\<lambda>(k, v). (k, JStr v)) kvs) m = Some (m @ kvs)"
proof (induction kvs arbitrary: m)
  case (Cons kv kvs)
  obtain k v where kv: "kv = (k, v)" by force
  with Cons.prems have "k \<notin> fst ` set m" by auto
  with Cons kv show ?case by (simp add: dec_string_def update_new)
qed simp

lemma dec_smap_json_of_smap: "gomap_ok m \<Longrightarrow> dec_smap (json_of_smap m) = Some (sort_key fst m)"
  using dec_members_strings [of "[]" "sort_key fst m"]
  by (simp add: dec_smap_def json_of_smap_def distinct_map)

end
