(* ===== verification/Hash.thy ===== *)
theory Hash
  imports Json
begin

text \<open>
  Package internal/hash, file hash.go, and the record hashing of merkle.go: the selectable
  hash algorithms, the process-wide hasher, HashChain, and the normalisation of a record
  before it is hashed.

  The digests of xxhash, blake2b and blake3 come from third-party modules and are fields of
  the parameter \<open>digests\<close>; SHA-256, of the standard library, is defined here. Every other
  function takes the hash function in force, \<open>GetHasher().Hash\<close>, as its argument \<open>H\<close>.
\<close>

section \<open>SHA-256 (crypto/sha256)\<close>

text \<open>Big-endian bytes of a number (encoding/binary.BigEndian).\<close>

fun be_bytes :: "nat \<Rightarrow> nat \<Rightarrow> bytes" where
  "be_bytes 0 n = []"
| "be_bytes (Suc k) n = char_of (n div 256 ^ k) # be_bytes k (n mod 256 ^ k)"

definition be_value :: "bytes \<Rightarrow> nat" where
  "be_value bs = foldl (\<lambda>a c. 256 * a + byte c) 0 bs"

definition PutUint64 :: "64 word \<Rightarrow> bytes" where
  "PutUint64 w = be_bytes 8 (unat w)"

lemma length_be_bytes [simp]: "length (be_bytes k n) = k"
  by (induction k arbitrary: n) auto

lemma foldl_be: "foldl (\<lambda>a c. 256 * a + byte c) a bs = a * 256 ^ length bs + be_value bs"
proof (induction bs arbitrary: a)
  case (Cons b bs)
  have "foldl (\<lambda>a c. 256 * a + byte c) a (b # bs) = (256 * a + byte b) * 256 ^ length bs + be_value bs"
    by (simp add: Cons.IH)
  moreover have "be_value (b # bs) = byte b * 256 ^ length bs + be_value bs"
    using Cons.IH [of "byte b"] by (simp add: be_value_def)
  ultimately show ?case by (simp add: algebra_simps)
qed (simp add: be_value_def)

lemma be_value_Cons: "be_value (b # bs) = byte b * 256 ^ length bs + be_value bs"
  using foldl_be [of "byte b" bs] by (simp add: be_value_def)

lemma be_value_be_bytes: "n < 256 ^ k \<Longrightarrow> be_value (be_bytes k n) = n"
proof (induction k arbitrary: n)
  case (Suc k)
  then have "n div 256 ^ k < 256" by (simp add: less_mult_imp_div_less)
  with Suc show ?case
    using div_mult_mod_eq [of n "256 ^ k"] by (simp only: be_bytes.simps) (simp add: be_value_Cons)
qed (simp add: be_value_def)

lemma less_iff_div_mod:
  fixes m n b :: nat
  assumes "0 < b"
  shows "m < n \<longleftrightarrow> m div b < n div b \<or> m div b = n div b \<and> m mod b < n mod b"
proof (cases "m div b = n div b")
  case True
  then show ?thesis
    using div_mult_mod_eq [of m b] div_mult_mod_eq [of n b] by (metis less_irrefl nat_add_left_cancel_less)
next
  case False
  then show ?thesis
    using div_le_mono [of m n b] div_le_mono [of n m b] by linarith
qed

lemma be_bytes_less_iff:
  "m < 256 ^ k \<Longrightarrow> n < 256 ^ k \<Longrightarrow> be_bytes k m < be_bytes k n \<longleftrightarrow> m < n"
proof (induction k arbitrary: m n)
  case (Suc k)
  let ?b = "(256 :: nat) ^ k"
  have q: "m div ?b < 256" "n div ?b < 256"
    using Suc.prems by (simp_all add: less_mult_imp_div_less)
  have hd: "char_of (m div ?b) < (char_of (n div ?b) :: char) \<longleftrightarrow> m div ?b < n div ?b"
    using q by (simp add: less_char_def)
  have eq: "char_of (m div ?b) = (char_of (n div ?b) :: char) \<longleftrightarrow> m div ?b = n div ?b"
    using q by (simp add: char_of_eq_iff take_bit_eq_mod)
  have tl: "be_bytes k (m mod ?b) < be_bytes k (n mod ?b) \<longleftrightarrow> m mod ?b < n mod ?b"
    by (rule Suc.IH) simp_all
  have "m < n \<longleftrightarrow> m div ?b < n div ?b \<or> m div ?b = n div ?b \<and> m mod ?b < n mod ?b"
    by (rule less_iff_div_mod) simp
  then show ?case using q by (simp add: hd eq tl)
qed simp

lemma be_bytes_inject: "m < 256 ^ k \<Longrightarrow> n < 256 ^ k \<Longrightarrow> be_bytes k m = be_bytes k n \<longleftrightarrow> m = n"
  by (metis be_value_be_bytes)

lemma unat_64_bound: "unat (w :: 64 word) < 256 ^ 8"
  using unsigned_less [of w, where ?'a = nat] by simp

lemma PutUint64_facts [simp]:
  "length (PutUint64 w) = 8"
  "be_value (PutUint64 w) = unat w"
  "PutUint64 v = PutUint64 w \<longleftrightarrow> v = w"
  "PutUint64 v < PutUint64 w \<longleftrightarrow> v < w"
  using unat_64_bound [of v] unat_64_bound [of w]
  by (simp_all add: PutUint64_def be_value_be_bytes be_bytes_inject be_bytes_less_iff word_less_nat_alt
      word_unat_eq_iff)

unbundle bit_operations_syntax

definition sha256_K :: "32 word list" where
  "sha256_K = [1116352408, 1899447441, 3049323471, 3921009573, 961987163, 1508970993,
    2453635748, 2870763221, 3624381080, 310598401, 607225278, 1426881987,
    1925078388, 2162078206, 2614888103, 3248222580, 3835390401, 4022224774,
    264347078, 604807628, 770255983, 1249150122, 1555081692, 1996064986,
    2554220882, 2821834349, 2952996808, 3210313671, 3336571891, 3584528711,
    113926993, 338241895, 666307205, 773529912, 1294757372, 1396182291,
    1695183700, 1986661051, 2177026350, 2456956037, 2730485921, 2820302411,
    3259730800, 3345764771, 3516065817, 3600352804, 4094571909, 275423344,
    430227734, 506948616, 659060556, 883997877, 958139571, 1322822218,
    1537002063, 1747873779, 1955562222, 2024104815, 2227730452, 2361852424,
    2428436474, 2756734187, 3204031479, 3329325298]"

definition sha256_init :: "32 word list" where
  "sha256_init = [1779033703, 3144134277, 1013904242, 2773480762, 1359893119, 2600822924,
    528734635, 1541459225]"

definition small_sigma :: "nat \<Rightarrow> nat \<Rightarrow> nat \<Rightarrow> 32 word \<Rightarrow> 32 word" where
  "small_sigma a b c x = word_rotr a x XOR word_rotr b x XOR drop_bit c x"

definition big_sigma :: "nat \<Rightarrow> nat \<Rightarrow> nat \<Rightarrow> 32 word \<Rightarrow> 32 word" where
  "big_sigma a b c x = word_rotr a x XOR word_rotr b x XOR word_rotr c x"

text \<open>The message schedule: 48 further words after the 16 of the block.\<close>

fun schedule :: "nat \<Rightarrow> 32 word list \<Rightarrow> 32 word list" where
  "schedule 0 ws = ws"
| "schedule (Suc k) ws =
     (let t = length ws in
      schedule k (ws @ [small_sigma 17 19 10 (ws ! (t - 2)) + ws ! (t - 7)
                        + small_sigma 7 18 3 (ws ! (t - 15)) + ws ! (t - 16)]))"

fun sha_round :: "32 word list \<Rightarrow> 32 word \<times> 32 word \<Rightarrow> 32 word list" where
  "sha_round [a, b, c, d, e, f, g, h] (k, w) =
     (let t1 = h + big_sigma 6 11 25 e + (e AND f XOR NOT e AND g) + k + w;
          t2 = big_sigma 2 13 22 a + (a AND b XOR a AND c XOR b AND c)
      in [t1 + t2, a, b, c, d + t1, e, f, g])"
| "sha_round st _ = st"

text \<open>The 32-bit words of a block, four bytes each.\<close>

fun words32 :: "bytes \<Rightarrow> 32 word list" where
  "words32 (a # b # c # d # r) = of_nat (be_value [a, b, c, d]) # words32 r"
| "words32 _ = []"

definition sha_block :: "32 word list \<Rightarrow> bytes \<Rightarrow> 32 word list" where
  "sha_block st blk =
     map2 (+) st (foldl sha_round st (zip sha256_K (schedule 48 (words32 blk))))"

definition sha_pad :: "bytes \<Rightarrow> bytes" where
  "sha_pad m = m @ CHR 0x80 # replicate ((119 - length m mod 64) mod 64) (CHR 0x00)
     @ be_bytes 8 (8 * length m)"

function sha_blocks :: "32 word list \<Rightarrow> bytes \<Rightarrow> 32 word list" where
  "sha_blocks st m = (if m = [] then st else sha_blocks (sha_block st (take 64 m)) (drop 64 m))"
  by pat_completeness auto
termination by (relation "measure (\<lambda>(_, m). length m)") auto

declare sha_blocks.simps [simp del]

definition sha256_Sum256 :: "bytes \<Rightarrow> bytes" where
  "sha256_Sum256 m = concat (map (\<lambda>w. be_bytes 4 (unat w)) (sha_blocks sha256_init (sha_pad m)))"

lemma length_sha_round [simp]: "length (sha_round st kw) = length st"
  by (cases "(st, kw)" rule: sha_round.cases) (auto simp: Let_def)

lemma length_sha_rounds [simp]: "length (foldl sha_round st kws) = length st"
  by (induction kws arbitrary: st) auto

lemma length_sha_blocks [simp]: "length (sha_blocks st m) = length st"
  by (induction st m rule: sha_blocks.induct) (subst sha_blocks.simps, simp add: sha_block_def)

lemma length_concat_be4: "length (concat (map (\<lambda>w. be_bytes 4 (unat w)) ws)) = 4 * length ws"
  by (induction ws) auto

lemma length_sha256_Sum256 [simp]: "length (sha256_Sum256 m) = 32"
  by (simp add: sha256_Sum256_def length_concat_be4 sha256_init_def)

section \<open>Hashers and the process-wide hasher\<close>

text \<open>
  The digest functions of github.com/cespare/xxhash/v2, golang.org/x/crypto/blake2b and
  github.com/zeebo/blake3: Sum64, the Sum(nil) of a digest to which the data was written,
  and the two Sum256.
\<close>

record digests =
  xxhash_Sum64 :: "bytes \<Rightarrow> 64 word"
  xxhash_digest_Sum :: "bytes \<Rightarrow> bytes"
  blake2b_Sum256 :: "bytes \<Rightarrow> bytes"
  blake3_Sum256 :: "bytes \<Rightarrow> bytes"

text \<open>The implementations of the interface Hasher.\<close>

datatype Hasher =
    xxHash64Hasher
  | xxHash128Hasher
  | sha256Hasher
  | blake2b256Hasher
  | blake3Hasher

fun Hasher_Hash :: "digests \<Rightarrow> Hasher \<Rightarrow> bytes \<Rightarrow> string" where
  "Hasher_Hash ds xxHash64Hasher data = hex_encode (PutUint64 (xxhash_Sum64 ds data))"
| "Hasher_Hash ds xxHash128Hasher data =
     hex_encode (xxhash_digest_Sum ds data) @ hex_encode (xxhash_digest_Sum ds (CHR 0x01 # data))"
| "Hasher_Hash ds sha256Hasher data = hex_encode (sha256_Sum256 data)"
| "Hasher_Hash ds blake2b256Hasher data = hex_encode (blake2b_Sum256 ds data)"
| "Hasher_Hash ds blake3Hasher data = hex_encode (blake3_Sum256 ds data)"

fun Hasher_Name :: "Hasher \<Rightarrow> string" where
  "Hasher_Name xxHash64Hasher = ''xxhash64''"
| "Hasher_Name xxHash128Hasher = ''xxhash128''"
| "Hasher_Name sha256Hasher = ''sha256''"
| "Hasher_Name blake2b256Hasher = ''blake2b_256''"
| "Hasher_Name blake3Hasher = ''blake3''"

text \<open>The variable globalHasher; nil before Initialize has succeeded.\<close>

type_synonym globalHasher = "Hasher option"

definition Initialize :: "string \<Rightarrow> globalHasher \<Rightarrow> globalHasher result" where
  "Initialize algorithm g =
     (if algorithm = ''xxhash64'' then Inr (Some xxHash64Hasher)
      else if algorithm = ''xxhash128'' then Inr (Some xxHash128Hasher)
      else if algorithm = ''sha256'' then Inr (Some sha256Hasher)
      else if algorithm = ''blake2b_256'' then Inr (Some blake2b256Hasher)
      else if algorithm = ''blake3'' then Inr (Some blake3Hasher)
      else Inl (Errorf (''unsupported hash algorithm: '' @ algorithm)))"

definition GetHasher :: "globalHasher \<Rightarrow> Hasher" where
  "GetHasher g = (case g of None \<Rightarrow> sha256Hasher | Some h \<Rightarrow> h)"

text \<open>
  What callers rely on in a hash function: all its values have one length. For the
  hashers over third-party digests this follows from the documented digest sizes.
\<close>

locale fixed_width =
  fixes H :: "string \<Rightarrow> string" and w :: nat
  assumes length_H: "length (H x) = w"

definition digest_sizes :: "digests \<Rightarrow> bool" where
  "digest_sizes ds \<longleftrightarrow>
     (\<forall>x. length (xxhash_digest_Sum ds x) = 8 \<and> length (blake2b_Sum256 ds x) = 32
        \<and> length (blake3_Sum256 ds x) = 32)"

fun hash_width :: "Hasher \<Rightarrow> nat" where
  "hash_width xxHash64Hasher = 16"
| "hash_width xxHash128Hasher = 32"
| "hash_width _ = 64"

interpretation sha256_hasher: fixed_width "Hasher_Hash ds sha256Hasher" 64 for ds
  by unfold_locales simp

lemma fixed_width_Hasher: "digest_sizes ds \<Longrightarrow> fixed_width (Hasher_Hash ds h) (hash_width h)"
  by unfold_locales (cases h; simp add: digest_sizes_def)

lemma Initialize_ok_iff:
  "(\<exists>g'. Initialize a g = Inr g') \<longleftrightarrow>
     a \<in> {''xxhash64'', ''xxhash128'', ''sha256'', ''blake2b_256'', ''blake3''}"
  by (auto simp: Initialize_def)

lemma Initialize_name: "Initialize a g = Inr g' \<Longrightarrow> Hasher_Name (GetHasher g') = a"
  by (auto simp: Initialize_def GetHasher_def split: if_splits)

section \<open>Calculate, CalculateString and HashChain\<close>

text \<open>
  An interface value handed to json.Marshal: one it accepts, given by the tree it writes,
  or one of a type it rejects (a channel, a function, a cyclic structure).
\<close>

datatype any = Marshals json | Unsupported string

fun json_Marshal :: "any \<Rightarrow> bytes result" where
  "json_Marshal (Marshals j) = Inr (json_print j)"
| "json_Marshal (Unsupported t) = Inl (Errorf (''json: unsupported type: '' @ t))"

definition Calculate :: "(string \<Rightarrow> string) \<Rightarrow> any \<Rightarrow> string result" where
  "Calculate H data =
     (case json_Marshal data of
        Inl err \<Rightarrow> Inl (Wrapf ''failed to marshal data'' err)
      | Inr jsonData \<Rightarrow> Inr (H jsonData))"

definition CalculateString :: "(string \<Rightarrow> string) \<Rightarrow> string \<Rightarrow> string" where
  "CalculateString H data = H data"

record HashChain =
  previousHash :: string

definition NewHashChain :: "string \<Rightarrow> HashChain" where
  "NewHashChain initialHash = \<lparr>previousHash = initialHash\<rparr>"

definition HashChain_Add ::
    "(string \<Rightarrow> string) \<Rightarrow> any \<Rightarrow> HashChain \<Rightarrow> string result \<times> HashChain" where
  "HashChain_Add H data hc =
     (case Calculate H data of
        Inl err \<Rightarrow> (Inl err, hc)
      | Inr dataHash \<Rightarrow>
          (let newHash = CalculateString H (previousHash hc @ dataHash)
           in (Inr newHash, hc\<lparr>previousHash := newHash\<rparr>)))"

definition GetPreviousHash :: "HashChain \<Rightarrow> string" where
  "GetPreviousHash hc = previousHash hc"

definition SetPreviousHash :: "string \<Rightarrow> HashChain \<Rightarrow> HashChain" where
  "SetPreviousHash h hc = hc\<lparr>previousHash := h\<rparr>"

text \<open>Adding a sequence of values, as a caller of Add does.\<close>

definition chain_add_all :: "(string \<Rightarrow> string) \<Rightarrow> json list \<Rightarrow> HashChain \<Rightarrow> HashChain" where
  "chain_add_all H js hc = foldl (\<lambda>hc j. snd (HashChain_Add H (Marshals j) hc)) hc js"

text \<open>Everything the hash function is applied to on the way, links and values.\<close>

fun chain_inputs :: "(string \<Rightarrow> string) \<Rightarrow> string \<Rightarrow> json list \<Rightarrow> string list" where
  "chain_inputs H p [] = []"
| "chain_inputs H p (j # js) =
     json_print j # (p @ H (json_print j)) # chain_inputs H (H (p @ H (json_print j))) js"

lemma previousHash_Add:
  "previousHash (snd (HashChain_Add H (Marshals j) hc)) = H (previousHash hc @ H (json_print j))"
  by (simp add: HashChain_Add_def Calculate_def CalculateString_def Let_def)

lemma chain_add_all_simps [simp]:
  "chain_add_all H [] hc = hc"
  "chain_add_all H (j # js) hc = chain_add_all H js (snd (HashChain_Add H (Marshals j) hc))"
  "chain_add_all H (js @ [j]) hc = snd (HashChain_Add H (Marshals j) (chain_add_all H js hc))"
  by (simp_all add: chain_add_all_def)

lemma chain_inputs_snoc:
  "chain_inputs H (previousHash hc) (js @ [j]) =
     chain_inputs H (previousHash hc) js
     @ [json_print j, previousHash (chain_add_all H js hc) @ H (json_print j)]"
  by (induction js arbitrary: hc) (simp_all flip: previousHash_Add)

context fixed_width
begin

text \<open>
  The head of the chain determines the sequence that was added: two sequences of the same
  length that lead to the same head are equal, unless the hash function collides on one
  of the inputs it was given.
\<close>

lemma chain_binds:
  assumes "inj_on H (set (chain_inputs H p js) \<union> set (chain_inputs H p js'))"
    and "length js = length js'"
    and "list_all json_ok js" "list_all json_ok js'"
    and "previousHash (chain_add_all H js \<lparr>previousHash = p\<rparr>)
       = previousHash (chain_add_all H js' \<lparr>previousHash = p\<rparr>)"
  shows "js = js'"
  using assms
proof (induction js arbitrary: js' rule: rev_induct)
  case Nil
  then show ?case by simp
next
  case (snoc j js)
  then obtain i ks where js': "js' = ks @ [i]" and len: "length js = length ks"
    by (cases js' rule: rev_cases) auto
  let ?p = "previousHash (chain_add_all H js \<lparr>previousHash = p\<rparr>)"
  let ?q = "previousHash (chain_add_all H ks \<lparr>previousHash = p\<rparr>)"
  note ins = chain_inputs_snoc [of H "\<lparr>previousHash = p\<rparr>", simplified]
  have inj: "inj_on H (set (chain_inputs H p js) \<union> set (chain_inputs H p ks)
      \<union> {json_print j, json_print i, ?p @ H (json_print j), ?q @ H (json_print i)})"
    using snoc.prems(1) unfolding js' by (rule inj_on_subset) (auto simp: ins)
  have "H (?p @ H (json_print j)) = H (?q @ H (json_print i))"
    using snoc.prems(5) by (simp add: js' previousHash_Add)
  then have "?p @ H (json_print j) = ?q @ H (json_print i)"
    using inj by (auto dest: inj_onD)
  then have pq: "?p = ?q" and hij: "H (json_print j) = H (json_print i)"
    using length_H [of "json_print j"] length_H [of "json_print i"] by simp_all
  have "json_print j = json_print i" using inj hij by (auto dest: inj_onD)
  then have "j = i" using snoc.prems(3,4) js' by (simp add: json_print_inject)
  moreover have "js = ks"
    using snoc.prems(3,4) js' len pq inj
    by (intro snoc.IH) (auto intro: inj_on_subset)
  ultimately show ?case by (simp add: js')
qed

end

section \<open>Record values and their normalisation\<close>

text \<open>
  The interface values a record holds: nil, []byte, string, and the numeric and boolean
  types; a value of any other dynamic type (a float, a time, a pgx type) is given by what
  fmt's %v verb writes for it.
\<close>

datatype goval =
    GNil
  | GBytes bytes
  | GString string
  | GInt int
  | GBool bool
  | GOther string

fun join :: "string \<Rightarrow> string list \<Rightarrow> string" where
  "join sep [] = []"
| "join sep [x] = x"
| "join sep (x # y # zs) = x @ sep @ join sep (y # zs)"

text \<open>fmt.Sprintf with %v, on a value and on a map (whose keys are printed in order).\<close>

fun fmt_v :: "goval \<Rightarrow> string" where
  "fmt_v GNil = ''<nil>''"
| "fmt_v (GBytes bs) = ''['' @ join '' '' (map (\<lambda>b. fmt_d (byte b)) bs) @ '']''"
| "fmt_v (GString s) = s"
| "fmt_v (GInt i) = fmt_int i"
| "fmt_v (GBool b) = (if b then ''true'' else ''false'')"
| "fmt_v (GOther s) = s"

definition fmt_v_map :: "(string, goval) gomap \<Rightarrow> string" where
  "fmt_v_map m =
     ''map['' @ join '' '' (map (\<lambda>(k, v). k @ '':'' @ fmt_v v) (sort_key fst m)) @ '']''"

fun normalizeValue :: "goval \<Rightarrow> string" where
  "normalizeValue GNil = ''<nil>''"
| "normalizeValue (GBytes bs) = hex_encode bs"
| "normalizeValue (GString s) = s"
| "normalizeValue v = fmt_v v"

definition timestamp_field :: "string \<Rightarrow> bool" where
  "timestamp_field k \<longleftrightarrow> k = ''created_at'' \<or> k = ''updated_at''"

text \<open>The loop of NormalizeForHash, over the map in the order it is visited.\<close>

fun normalize_loop :: "(string, goval) gomap \<Rightarrow> (string, string) gomap \<Rightarrow> (string, string) gomap" where
  "normalize_loop [] result = result"
| "normalize_loop ((k, v) # data) result =
     (if timestamp_field k then normalize_loop data result
      else normalize_loop data (AList.update k (normalizeValue v) result))"

definition NormalizeForHash :: "(string, goval) gomap \<Rightarrow> (string, string) gomap" where
  "NormalizeForHash data = normalize_loop data []"

definition CalculateDataHash :: "(string \<Rightarrow> string) \<Rightarrow> (string, goval) gomap \<Rightarrow> string" where
  "CalculateDataHash H data = H (json_print (json_of_smap (NormalizeForHash data)))"

lemma normalize_loop_eq:
  "gomap_ok data \<Longrightarrow> fst ` set data \<inter> fst ` set r = {} \<Longrightarrow>
   normalize_loop data r =
     r @ map (\<lambda>(k, v). (k, normalizeValue v)) (filter (\<lambda>(k, v). \<not> timestamp_field k) data)"
proof (induction data arbitrary: r)
  case (Cons kv data)
  obtain k v where kv: "kv = (k, v)" by force
  with Cons show ?case by (auto simp: update_new)
qed simp

lemma NormalizeForHash_eq:
  "gomap_ok data \<Longrightarrow> NormalizeForHash data =
     map (\<lambda>(k, v). (k, normalizeValue v)) (filter (\<lambda>(k, v). \<not> timestamp_field k) data)"
  by (simp add: NormalizeForHash_def normalize_loop_eq)

lemma fst_normalized: "map fst (map (\<lambda>(k, v). (k, f v)) kvs) = map fst kvs"
  by (induction kvs) auto

lemma NormalizeForHash_ok: "gomap_ok data \<Longrightarrow> gomap_ok (NormalizeForHash data)"
  by (simp only: NormalizeForHash_eq fst_normalized) (simp add: distinct_map_filter)

lemma NormalizeForHash_perm:
  assumes "gomap_ok data" "mset data = mset data'"
  shows "mset (NormalizeForHash data) = mset (NormalizeForHash data')"
  using assms gomap_perm_ok [OF assms(2)] by (simp add: NormalizeForHash_eq)

text \<open>The hash of a record depends on the record, not on the order its fields are visited in.\<close>

lemma CalculateDataHash_perm:
  assumes "gomap_ok data" "mset data = mset data'"
  shows "CalculateDataHash H data = CalculateDataHash H data'"
  using json_of_smap_perm [OF NormalizeForHash_perm [OF assms] NormalizeForHash_ok [OF assms(1)]]
  by (simp add: CalculateDataHash_def)

text \<open>
  It binds the normalised record: equal hashes come from equal normalised records, unless
  the hash function collides on the two texts.
\<close>

lemma CalculateDataHash_binds:
  assumes "CalculateDataHash H data = CalculateDataHash H data'"
    and "inj_on H {json_print (json_of_smap (NormalizeForHash data)),
                   json_print (json_of_smap (NormalizeForHash data'))}"
    and "smap_utf8 (NormalizeForHash data)" "smap_utf8 (NormalizeForHash data')"
  shows "mset (NormalizeForHash data) = mset (NormalizeForHash data')"
proof -
  have "json_print (json_of_smap (NormalizeForHash data)) = json_print (json_of_smap (NormalizeForHash data'))"
    using assms(1,2) by (auto simp: CalculateDataHash_def dest: inj_onD)
  then have "json_of_smap (NormalizeForHash data) = json_of_smap (NormalizeForHash data')"
    using json_print_inject [OF json_ok_smap [OF assms(3)] json_ok_smap [OF assms(4)]] by blast
  then show ?thesis by (rule json_of_smap_inject)
qed

lemma CalculateDataHash_ignores_timestamps:
  assumes "gomap_ok data" "gomap_ok data'"
    and "filter (\<lambda>(k, v). \<not> timestamp_field k) data = filter (\<lambda>(k, v). \<not> timestamp_field k) data'"
  shows "CalculateDataHash H data = CalculateDataHash H data'"
  using assms by (simp add: CalculateDataHash_def NormalizeForHash_eq)

section \<open>Properties\<close>

text \<open>What is left of a record's field after normalisation; nothing of the two timestamps.\<close>

definition normalized_field :: "(string, goval) gomap \<Rightarrow> string \<Rightarrow> string option" where
  "normalized_field data k = (if timestamp_field k then None else map_option normalizeValue (map_of data k))"

lemma map_of_NormalizeForHash: "gomap_ok data \<Longrightarrow> map_of (NormalizeForHash data) = normalized_field data"
  unfolding NormalizeForHash_eq
proof (induction data)
  case (Cons kv data)
  then show ?case by (cases kv) (auto simp: normalized_field_def fun_eq_iff)
qed (auto simp: normalized_field_def)

lemma mset_NormalizeForHash_iff:
  assumes "gomap_ok data" "gomap_ok data'"
  shows "mset (NormalizeForHash data) = mset (NormalizeForHash data') \<longleftrightarrow> normalized_field data = normalized_field data'"
proof -
  note ok = NormalizeForHash_ok [OF assms(1)] NormalizeForHash_ok [OF assms(2)]
  have "mset (NormalizeForHash data) = mset (NormalizeForHash data') \<longleftrightarrow>
      set (NormalizeForHash data) = set (NormalizeForHash data')"
    using ok by (intro set_eq_iff_mset_eq_distinct [symmetric]) (simp_all add: distinct_map)
  also have "\<dots> \<longleftrightarrow> map_of (NormalizeForHash data) = map_of (NormalizeForHash data')"
    using ok by (simp add: map_of_inject_set)
  finally show ?thesis using assms by (simp add: map_of_NormalizeForHash)
qed

lemma CalculateDataHash_cong:
  assumes "gomap_ok data" "mset (NormalizeForHash data) = mset (NormalizeForHash data')"
  shows "CalculateDataHash H data = CalculateDataHash H data'"
  using json_of_smap_perm [OF assms(2) NormalizeForHash_ok [OF assms(1)]] by (simp add: CalculateDataHash_def)

lemma CalculateDataHash_iff:
  assumes "gomap_ok data" "gomap_ok data'"
    and "smap_utf8 (NormalizeForHash data)" "smap_utf8 (NormalizeForHash data')"
    and "inj_on H {json_print (json_of_smap (NormalizeForHash data)),
                   json_print (json_of_smap (NormalizeForHash data'))}"
  shows "CalculateDataHash H data = CalculateDataHash H data' \<longleftrightarrow> normalized_field data = normalized_field data'"
  unfolding mset_NormalizeForHash_iff [OF assms(1,2), symmetric]
  using CalculateDataHash_binds [OF _ assms(5,3,4)] CalculateDataHash_cong [OF assms(1)] by (rule iffI)

text \<open>Digests of the documented sizes, for concrete instances.\<close>

definition sample_digests :: digests where
  "sample_digests =
     \<lparr>xxhash_Sum64 = (\<lambda>x. of_nat (length x)), xxhash_digest_Sum = (\<lambda>x. be_bytes 8 (length x)),
      blake2b_Sum256 = (\<lambda>x. be_bytes 32 (length x)), blake3_Sum256 = (\<lambda>x. be_bytes 32 (length x))\<rparr>"

lemma digest_sizes_sample: "digest_sizes sample_digests"
  by (simp add: digest_sizes_def sample_digests_def)

text \<open>
  C33. The hash of a record commits to its normalised fields other than
  created_at and updated_at, and to nothing else: two records whose texts are UTF-8 and on
  which the hash function does not collide have the same hash exactly if these agree,
  whatever order their fields are visited in.
\<close>

theorem data_hash_commits:
  assumes "gomap_ok data" "gomap_ok data'"
    and "smap_utf8 (NormalizeForHash data)" "smap_utf8 (NormalizeForHash data')"
    and "inj_on H {json_print (json_of_smap (NormalizeForHash data)),
                   json_print (json_of_smap (NormalizeForHash data'))}"
  shows "CalculateDataHash H data = CalculateDataHash H data' \<longleftrightarrow>
    (\<forall>k. normalized_field data k = normalized_field data' k)"
  unfolding CalculateDataHash_iff [OF assms] fun_eq_iff ..

text \<open>Two orders of one record that differ in a timestamp, hashed by SHA-256.\<close>

theorem data_hash_commits_witness:
  "CalculateDataHash (Hasher_Hash sample_digests sha256Hasher)
       [(''id'', GInt 7), (''name'', GString ''x''), (''created_at'', GOther ''2024'')] =
   CalculateDataHash (Hasher_Hash sample_digests sha256Hasher)
       [(''created_at'', GOther ''2025''), (''name'', GString ''x''), (''id'', GInt 7)]"
proof -
  let ?d = "[(''id'', GInt 7), (''name'', GString ''x''), (''created_at'', GOther ''2024'')]"
  let ?d' = "[(''created_at'', GOther ''2025''), (''name'', GString ''x''), (''id'', GInt 7)]"
  have ok: "gomap_ok ?d" "gomap_ok ?d'" by simp_all
  have norm: "NormalizeForHash ?d = [(''id'', fmt_int 7), (''name'', ''x'')]"
    "NormalizeForHash ?d' = [(''name'', ''x''), (''id'', fmt_int 7)]"
    by (simp_all add: NormalizeForHash_def timestamp_field_def)
  have "valid_utf8 (fmt_int 7)" "valid_utf8 ''id''" "valid_utf8 ''name''" "valid_utf8 ''x''"
    by (simp_all add: valid_utf8_literal fmt_int_def fmt_d.simps digit_def)
  then have utf8: "smap_utf8 (NormalizeForHash ?d)" "smap_utf8 (NormalizeForHash ?d')"
    by (simp_all add: norm smap_utf8_def)
  have "json_of_smap (NormalizeForHash ?d) = json_of_smap (NormalizeForHash ?d')"
    by (rule json_of_smap_perm) (simp_all add: norm)
  then have inj: "inj_on (Hasher_Hash sample_digests sha256Hasher)
      {json_print (json_of_smap (NormalizeForHash ?d)), json_print (json_of_smap (NormalizeForHash ?d'))}"
    by simp
  have "normalized_field ?d k = normalized_field ?d' k" for k
    by (simp add: normalized_field_def timestamp_field_def)
  then show ?thesis using data_hash_commits [OF ok utf8 inj] by blast
qed

text \<open>
  The head of a HashChain commits to the values that were added,
  in their order: two sequences of the same length from the same initial hash with the same
  head are equal, unless the hash function collides on something it was given. This holds
  for each of the algorithms, whose values all have one length.
\<close>

theorem chain_head_commits:
  assumes "digest_sizes ds" "H = Hasher_Hash ds h"
    and "inj_on H (set (chain_inputs H p js) \<union> set (chain_inputs H p js'))"
    and "length js = length js'" "list_all json_ok js" "list_all json_ok js'"
    and "GetPreviousHash (chain_add_all H js (NewHashChain p)) = GetPreviousHash (chain_add_all H js' (NewHashChain p))"
  shows "js = js'"
  using fixed_width.chain_binds [OF fixed_width_Hasher [OF assms(1), of h, folded assms(2)] assms(3-6)] assms(7)
  by (simp add: GetPreviousHash_def NewHashChain_def)

theorem chain_head_commits_witness:
  "inj_on (Hasher_Hash sample_digests blake3Hasher)
     (set (chain_inputs (Hasher_Hash sample_digests blake3Hasher) [] [JNum 1])) \<and> [JNum 1] = map JNum [1]"
proof -
  let ?H = "Hasher_Hash sample_digests blake3Hasher"
  have one: "json_print (JNum 1) = [digit 1]" by (simp add: fmt_int_def fmt_d.simps)
  have H: "length (?H x) = 64" "?H x = ?H y \<longleftrightarrow> be_bytes 32 (length x) = be_bytes 32 (length y)" for x y
    by (simp_all add: sample_digests_def)
  have "set (chain_inputs ?H [] [JNum 1]) = {[digit 1], ?H [digit 1]}"
    by (simp only: chain_inputs.simps one append_Nil list.set)
  moreover have "?H [digit 1] \<noteq> ?H (?H [digit 1])"
    unfolding H(2) [of "[digit 1]"] H(1) by (simp add: be_bytes_inject)
  ultimately have "inj_on ?H (set (chain_inputs ?H [] [JNum 1]))"
    by (simp only: inj_on_insert inj_on_empty) blast
  then have inj: "inj_on ?H (set (chain_inputs ?H [] [JNum 1]) \<union> set (chain_inputs ?H [] (map JNum [1])))"
    by (simp only: list.map Un_absorb)
  have "[JNum 1] = map JNum [1]"
    by (rule chain_head_commits [OF digest_sizes_sample refl inj]) simp_all
  with \<open>inj_on ?H (set (chain_inputs ?H [] [JNum 1]))\<close> show ?thesis by (rule conjI)
qed

end
