(* ===== verification/Bolt.thy ===== *)
theory Bolt
  imports Json
begin

text \<open>
  The embedded key-value store go.etcd.io/bbolt, as the sources use it. It is not part of
  the repository: its operations are the fields of the parameter \<open>bolt\<close>, over an
  arbitrary type of database states, and its documented behaviour is the locale
  \<open>bolt_store\<close>. \<open>reliable_bolt\<close> adds that a transaction within the documented size limits
  does not fail. An in-memory store is the reference implementation of both.
\<close>

section \<open>Operations\<close>

text \<open>
  CreateBucketIfNotExists, Get, Put and Delete of a bucket within a transaction; the pairs
  of a bucket in the order a cursor (or ForEach) visits them; and the commit at the end of
  an Update, which may fail.
\<close>

record 'db bolt =
  bolt_create :: "'db \<Rightarrow> bytes \<Rightarrow> 'db result"
  bolt_get :: "'db \<Rightarrow> bytes \<Rightarrow> bytes \<Rightarrow> bytes option"
  bolt_put :: "'db \<Rightarrow> bytes \<Rightarrow> bytes \<Rightarrow> bytes \<Rightarrow> 'db result"
  bolt_delete :: "'db \<Rightarrow> bytes \<Rightarrow> bytes \<Rightarrow> 'db result"
  bolt_pairs :: "'db \<Rightarrow> bytes \<Rightarrow> (bytes \<times> bytes) list"
  bolt_commit :: "'db \<Rightarrow> 'db result"

text \<open>
  DB.Update runs a function in a read-write transaction: it is committed if the function
  returns no error and rolled back otherwise, so that an error leaves the database as it
  was (the caller keeps the old state).
\<close>

definition db_Update :: "'db bolt \<Rightarrow> ('db \<Rightarrow> 'db result) \<Rightarrow> 'db \<Rightarrow> 'db result" where
  "db_Update B fn db = bind_res (fn db) (bolt_commit B)"

section \<open>Documented behaviour\<close>

definition max_key_size :: nat where
  "max_key_size = 32768"

definition max_value_size :: nat where
  "max_value_size = 2147483646"

locale bolt_store =
  fixes B :: "'db bolt"
  assumes pairs_sorted: "sorted (map fst (bolt_pairs B db b))"
    and pairs_distinct: "gomap_ok (bolt_pairs B db b)"
    and pairs_get: "map_of (bolt_pairs B db b) = bolt_get B db b"
    and get_create: "bolt_create B db b = Inr db' \<Longrightarrow> bolt_get B db' = bolt_get B db"
    and get_put: "bolt_put B db b k v = Inr db' \<Longrightarrow>
      bolt_get B db' b' k' = (if b' = b \<and> k' = k then Some v else bolt_get B db b' k')"
    and get_delete: "bolt_delete B db b k = Inr db' \<Longrightarrow>
      bolt_get B db' b' k' = (if b' = b \<and> k' = k then None else bolt_get B db b' k')"
    and get_commit: "bolt_commit B db = Inr db' \<Longrightarrow> bolt_get B db' = bolt_get B db"
begin

lemma in_pairs_iff: "(k, v) \<in> set (bolt_pairs B db b) \<longleftrightarrow> bolt_get B db b k = Some v"
  using pairs_distinct [of db b] by (simp flip: pairs_get)

lemma pairs_cong:
  assumes "bolt_get B db b = bolt_get B db' b"
  shows "bolt_pairs B db b = bolt_pairs B db' b"
proof -
  have set: "set (bolt_pairs B db b) = set (bolt_pairs B db' b)"
    using assms by (auto simp: in_pairs_iff)
  have "distinct (bolt_pairs B db b)" "distinct (bolt_pairs B db' b)"
    using pairs_distinct by (simp_all add: distinct_map)
  then have "mset (bolt_pairs B db b) = mset (bolt_pairs B db' b)"
    using set by (simp add: set_eq_iff_mset_eq_distinct)
  moreover have "inj_on fst (set (bolt_pairs B db b))"
    using pairs_distinct by (simp add: distinct_map)
  ultimately have "sort_key fst (bolt_pairs B db b) = bolt_pairs B db' b"
    by (rule sort_key_inj_key_eq) (rule pairs_sorted)
  then show ?thesis by (simp add: sort_key_id_if_sorted pairs_sorted)
qed

lemma scan_pairs: "scan_prefix p (bolt_pairs B db b) = filter (\<lambda>(k, v). has_prefix p k) (bolt_pairs B db b)"
  by (rule scan_prefix_filter) (rule pairs_sorted)

lemma Update_put_get:
  assumes "db_Update B (\<lambda>tx. bolt_put B tx b k v) db = Inr db'"
  shows "bolt_get B db' b' k' = (if b' = b \<and> k' = k then Some v else bolt_get B db b' k')"
  using assms get_put get_commit by (fastforce simp: db_Update_def bind_res_eq_Inr_iff)

end

locale reliable_bolt = bolt_store +
  assumes create_ok: "b \<noteq> [] \<Longrightarrow> \<exists>db'. bolt_create B db b = Inr db'"
    and put_ok: "k \<noteq> [] \<Longrightarrow> length k \<le> max_key_size \<Longrightarrow> length v \<le> max_value_size \<Longrightarrow>
      \<exists>db'. bolt_put B db b k v = Inr db'"
    and delete_ok: "\<exists>db'. bolt_delete B db b k = Inr db'"
    and commit_ok: "\<exists>db'. bolt_commit B db = Inr db'"
begin

lemma Update_put_ok:
  assumes "k \<noteq> []" "length k \<le> max_key_size" "length v \<le> max_value_size"
  shows "\<exists>db'. db_Update B (\<lambda>tx. bolt_put B tx b k v) db = Inr db'"
  using put_ok [OF assms, of db b] commit_ok by (auto simp: db_Update_def bind_res_eq_Inr_iff)

end

section \<open>Reference implementation\<close>

type_synonym mem_db = "(bytes, (bytes, bytes) gomap) gomap"

definition mem_bucket :: "mem_db \<Rightarrow> bytes \<Rightarrow> (bytes, bytes) gomap" where
  "mem_bucket db b = (case map_of db b of Some kvs \<Rightarrow> kvs | None \<Rightarrow> [])"

definition mem_put :: "mem_db \<Rightarrow> bytes \<Rightarrow> bytes \<Rightarrow> bytes \<Rightarrow> mem_db result" where
  "mem_put db b k v =
     (if k = [] then Inl (Errorf ''key required'')
      else if max_key_size < length k then Inl (Errorf ''key too large'')
      else if max_value_size < length v then Inl (Errorf ''value too large'')
      else Inr (AList.update b (AList.update k v (mem_bucket db b)) db))"

definition mem_bolt :: "mem_db bolt" where
  "mem_bolt =
     \<lparr>bolt_create = (\<lambda>db b. Inr (AList.update b (mem_bucket db b) db)),
      bolt_get = (\<lambda>db b k. map_of (mem_bucket db b) k),
      bolt_put = mem_put,
      bolt_delete = (\<lambda>db b k. Inr (AList.update b (AList.delete k (mem_bucket db b)) db)),
      bolt_pairs = (\<lambda>db b. sort_key fst (AList.clearjunk (mem_bucket db b))),
      bolt_commit = Inr\<rparr>"

lemma mem_bucket_update:
  "mem_bucket (AList.update b kvs db) b' = (if b' = b then kvs else mem_bucket db b')"
  by (simp add: mem_bucket_def update_conv')

lemma map_of_sort_key: "gomap_ok m \<Longrightarrow> map_of (sort_key fst m) = map_of m"
  by (rule gomap_perm_map_of) (simp_all add: distinct_map)

interpretation mem: reliable_bolt mem_bolt
proof
  fix db b
  show "sorted (map fst (bolt_pairs mem_bolt db b))"
    by (simp add: mem_bolt_def)
  show "gomap_ok (bolt_pairs mem_bolt db b)"
    using distinct_clearjunk [of "mem_bucket db b"] by (simp add: mem_bolt_def distinct_map)
  show "map_of (bolt_pairs mem_bolt db b) = bolt_get mem_bolt db b"
    by (simp add: mem_bolt_def map_of_sort_key distinct_clearjunk map_of_clearjunk)
qed (auto simp: mem_bolt_def mem_put_def mem_bucket_update update_conv' delete_conv' split: if_splits)

end
