(* ===== verification/Storage.thy ===== *)
theory Storage
  imports Bolt
begin

text \<open>
  Package internal/storage: hash entries, Merkle checkpoints and metadata in a bbolt
  database. An entry or checkpoint is stored as its JSON text under the key "table:number".

  The invariant \<open>store_inv\<close> says that the hash-chain bucket holds well-formed entries under
  their own keys; the locale \<open>hash_store\<close> is what the handlers, the verifier and the
  replicated state machine rely on, and the operations of this package are shown to be an
  instance of it for every bbolt. The locale's law on the order of the entries is the order
  of the decimal numerals as strings, which is how the package finds the latest entry.
\<close>

section \<open>Data\<close>

record HashEntry =
  TableName :: string
  SequenceNum :: "64 word"
  DataHash :: string
  Timestamp :: gotime
  OperationType :: string
  RecordID :: string

record MerkleCheckpoint =
  cp_TableName :: string
  cp_SequenceNum :: "64 word"
  cp_MerkleRoot :: string
  cp_Timestamp :: gotime
  cp_RecordCount :: int
  cp_HashAlgorithm :: string
  cp_LeafMap :: "(string, string) gomap"
  cp_InternalNodes :: "(string, string) gomap"

definition HashChainBucket :: bytes where
  "HashChainBucket = ''hashchain''"

definition MetadataBucket :: bytes where
  "MetadataBucket = ''metadata''"

definition MerkleCheckpointBucket :: bytes where
  "MerkleCheckpointBucket = ''merkle_checkpoint''"

text \<open>JSON by the struct tags.\<close>

definition hashEntry_json :: "HashEntry \<Rightarrow> json" where
  "hashEntry_json e =
     JObj [(''table_name'', JStr (TableName e)), (''sequence_num'', JNum (uint (SequenceNum e))),
           (''data_hash'', JStr (DataHash e)), (''timestamp'', JStr (Timestamp e)),
           (''operation_type'', JStr (OperationType e)), (''record_id'', JStr (RecordID e))]"

text \<open>The zero time.Time, which a struct has when the member is absent.\<close>

definition zero_time :: gotime where
  "zero_time = ''0001-01-01T00:00:00Z''"

definition dec_time :: "json \<Rightarrow> gotime option" where
  "dec_time j = (case j of JStr s \<Rightarrow> Some s | JNull \<Rightarrow> Some zero_time | _ \<Rightarrow> None)"

definition hashEntry_of_members :: "(string \<times> json) list \<Rightarrow> HashEntry option" where
  "hashEntry_of_members kvs =
     (case (dec_string (field kvs ''table_name''), dec_uint64 (field kvs ''sequence_num''),
            dec_string (field kvs ''data_hash''), dec_time (field kvs ''timestamp''),
            dec_string (field kvs ''operation_type''), dec_string (field kvs ''record_id'')) of
        (Some t, Some n, Some h, Some ts, Some op, Some rid) \<Rightarrow>
          Some \<lparr>TableName = t, SequenceNum = n, DataHash = h, Timestamp = ts, OperationType = op,
                RecordID = rid\<rparr>
      | _ \<Rightarrow> None)"

definition hashEntry_of_json :: "json \<Rightarrow> HashEntry option" where
  "hashEntry_of_json j =
     (case j of
        JObj kvs \<Rightarrow> hashEntry_of_members kvs
      | JNull \<Rightarrow> hashEntry_of_members []
      | _ \<Rightarrow> None)"

definition marshal_entry :: "HashEntry \<Rightarrow> bytes" where
  "marshal_entry e = json_print (hashEntry_json e)"

definition unmarshal_entry :: "bytes \<Rightarrow> HashEntry option" where
  "unmarshal_entry data = Option.bind (json_parse data) hashEntry_of_json"

definition checkpoint_json :: "MerkleCheckpoint \<Rightarrow> json" where
  "checkpoint_json c =
     JObj ([(''table_name'', JStr (cp_TableName c)), (''sequence_num'', JNum (uint (cp_SequenceNum c))),
            (''merkle_root'', JStr (cp_MerkleRoot c)), (''timestamp'', JStr (cp_Timestamp c)),
            (''record_count'', JNum (cp_RecordCount c)), (''hash_algorithm'', JStr (cp_HashAlgorithm c))]
           @ (if cp_LeafMap c = [] then [] else [(''leaf_map'', json_of_smap (cp_LeafMap c))])
           @ (if cp_InternalNodes c = [] then []
              else [(''internal_nodes'', json_of_smap (cp_InternalNodes c))]))"

definition checkpoint_of_members :: "(string \<times> json) list \<Rightarrow> MerkleCheckpoint option" where
  "checkpoint_of_members kvs =
     (case (dec_string (field kvs ''table_name''), dec_uint64 (field kvs ''sequence_num''),
            dec_string (field kvs ''merkle_root''), dec_time (field kvs ''timestamp''),
            dec_int (field kvs ''record_count''), dec_string (field kvs ''hash_algorithm''),
            dec_smap (field kvs ''leaf_map''), dec_smap (field kvs ''internal_nodes'')) of
        (Some t, Some n, Some r, Some ts, Some c, Some a, Some lm, Some ins) \<Rightarrow>
          Some \<lparr>cp_TableName = t, cp_SequenceNum = n, cp_MerkleRoot = r, cp_Timestamp = ts,
                cp_RecordCount = c, cp_HashAlgorithm = a, cp_LeafMap = lm, cp_InternalNodes = ins\<rparr>
      | _ \<Rightarrow> None)"

definition checkpoint_of_json :: "json \<Rightarrow> MerkleCheckpoint option" where
  "checkpoint_of_json j =
     (case j of
        JObj kvs \<Rightarrow> checkpoint_of_members kvs
      | JNull \<Rightarrow> checkpoint_of_members []
      | _ \<Rightarrow> None)"

definition marshal_checkpoint :: "MerkleCheckpoint \<Rightarrow> bytes" where
  "marshal_checkpoint c = json_print (checkpoint_json c)"

definition unmarshal_checkpoint :: "bytes \<Rightarrow> MerkleCheckpoint option" where
  "unmarshal_checkpoint data = Option.bind (json_parse data) checkpoint_of_json"

section \<open>Operations\<close>

text \<open>New, after bolt.Open has returned: the buckets are created in one transaction.\<close>

definition Storage_New :: "'db bolt \<Rightarrow> 'db result \<Rightarrow> 'db result" where
  "Storage_New B opened =
     bind_res (wrap ''failed to open database'' opened)
       (db_Update B (\<lambda>tx.
          bind_res (wrap ''failed to create bucket'' (bolt_create B tx HashChainBucket)) (\<lambda>tx.
          bind_res (wrap ''failed to create bucket'' (bolt_create B tx MetadataBucket)) (\<lambda>tx.
          wrap ''failed to create bucket'' (bolt_create B tx MerkleCheckpointBucket)))))"

definition entry_key :: "HashEntry \<Rightarrow> string" where
  "entry_key e = seq_key (TableName e) (unat (SequenceNum e))"

definition SaveHashEntry :: "'db bolt \<Rightarrow> HashEntry \<Rightarrow> 'db \<Rightarrow> 'db result" where
  "SaveHashEntry B entry =
     db_Update B (\<lambda>tx. bolt_put B tx HashChainBucket (entry_key entry) (marshal_entry entry))"

definition json_error :: goerror where
  "json_error = Errorf ''json: cannot unmarshal''"

definition GetHashEntry :: "'db bolt \<Rightarrow> string \<Rightarrow> 64 word \<Rightarrow> 'db \<Rightarrow> HashEntry result" where
  "GetHashEntry B tableName seqNum db =
     (case bolt_get B db HashChainBucket (seq_key tableName (unat seqNum)) of
        None \<Rightarrow> Inl (Errorf ''hash entry not found'')
      | Some data \<Rightarrow>
          (case unmarshal_entry data of None \<Rightarrow> Inl json_error | Some entry \<Rightarrow> Inr entry))"

text \<open>The two cursor loops over the keys of one table: the last entry that decodes, and all.\<close>

fun latest_loop :: "(bytes \<Rightarrow> 'e option) \<Rightarrow> (bytes \<times> bytes) list \<Rightarrow> 'e option \<Rightarrow> 'e option" where
  "latest_loop dec [] latest = latest"
| "latest_loop dec ((k, v) # kvs) latest =
     (case dec v of None \<Rightarrow> latest_loop dec kvs latest | Some e \<Rightarrow> latest_loop dec kvs (Some e))"

fun decode_loop :: "(bytes \<Rightarrow> 'e option) \<Rightarrow> (bytes \<times> bytes) list \<Rightarrow> 'e list" where
  "decode_loop dec [] = []"
| "decode_loop dec ((k, v) # kvs) =
     (case dec v of None \<Rightarrow> decode_loop dec kvs | Some e \<Rightarrow> e # decode_loop dec kvs)"

definition GetLatestHashEntry :: "'db bolt \<Rightarrow> string \<Rightarrow> 'db \<Rightarrow> HashEntry result" where
  "GetLatestHashEntry B tableName db =
     (case latest_loop unmarshal_entry
             (scan_prefix (tableName @ '':'') (bolt_pairs B db HashChainBucket)) None of
        None \<Rightarrow> Inl (Errorf (''no hash entries found for table '' @ tableName))
      | Some e \<Rightarrow> Inr e)"

definition stored_entries :: "'db bolt \<Rightarrow> string \<Rightarrow> 'db \<Rightarrow> HashEntry list" where
  "stored_entries B tableName db =
     decode_loop unmarshal_entry
       (scan_prefix (tableName @ '':'') (bolt_pairs B db HashChainBucket))"

definition GetAllHashEntries :: "'db bolt \<Rightarrow> string \<Rightarrow> 'db \<Rightarrow> HashEntry list result" where
  "GetAllHashEntries B tableName db = Inr (stored_entries B tableName db)"

definition GetAllHashEntriesAllTables :: "'db bolt \<Rightarrow> 'db \<Rightarrow> HashEntry list result" where
  "GetAllHashEntriesAllTables B db = Inr (decode_loop unmarshal_entry (bolt_pairs B db HashChainBucket))"

definition SetMetadata :: "'db bolt \<Rightarrow> string \<Rightarrow> string \<Rightarrow> 'db \<Rightarrow> 'db result" where
  "SetMetadata B key val = db_Update B (\<lambda>tx. bolt_put B tx MetadataBucket key val)"

definition GetMetadata :: "'db bolt \<Rightarrow> string \<Rightarrow> 'db \<Rightarrow> string result" where
  "GetMetadata B key db =
     (case bolt_get B db MetadataBucket key of
        None \<Rightarrow> Inl (Errorf (''metadata key not found: '' @ key))
      | Some data \<Rightarrow> Inr data)"

definition checkpoint_key :: "MerkleCheckpoint \<Rightarrow> string" where
  "checkpoint_key c = seq_key (cp_TableName c) (unat (cp_SequenceNum c))"

definition SaveMerkleCheckpoint :: "'db bolt \<Rightarrow> MerkleCheckpoint \<Rightarrow> 'db \<Rightarrow> 'db result" where
  "SaveMerkleCheckpoint B c =
     db_Update B (\<lambda>tx. bolt_put B tx MerkleCheckpointBucket (checkpoint_key c) (marshal_checkpoint c))"

definition GetLatestMerkleCheckpoint :: "'db bolt \<Rightarrow> string \<Rightarrow> 'db \<Rightarrow> MerkleCheckpoint result" where
  "GetLatestMerkleCheckpoint B tableName db =
     (case latest_loop unmarshal_checkpoint
             (scan_prefix (tableName @ '':'') (bolt_pairs B db MerkleCheckpointBucket)) None of
        None \<Rightarrow> Inl (Errorf (''no checkpoints found for table '' @ tableName))
      | Some c \<Rightarrow> Inr c)"

section \<open>Round trips\<close>

definition entry_utf8 :: "HashEntry \<Rightarrow> bool" where
  "entry_utf8 e \<longleftrightarrow> valid_utf8 (TableName e) \<and> valid_utf8 (DataHash e) \<and> valid_utf8 (Timestamp e)
     \<and> valid_utf8 (OperationType e) \<and> valid_utf8 (RecordID e)"

lemma ascii_names [simp]:
  "valid_utf8 ''table_name''" "valid_utf8 ''sequence_num''" "valid_utf8 ''data_hash''"
  "valid_utf8 ''timestamp''" "valid_utf8 ''operation_type''" "valid_utf8 ''record_id''"
  "valid_utf8 ''merkle_root''" "valid_utf8 ''record_count''" "valid_utf8 ''hash_algorithm''"
  "valid_utf8 ''leaf_map''" "valid_utf8 ''internal_nodes''"
  by (rule valid_utf8_literal, simp)+

lemma unmarshal_marshal_entry: "entry_utf8 e \<Longrightarrow> unmarshal_entry (marshal_entry e) = Some e"
proof -
  assume "entry_utf8 e"
  then have "json_ok (hashEntry_json e)" by (simp add: hashEntry_json_def entry_utf8_def)
  then have "json_parse (marshal_entry e) = Some (hashEntry_json e)"
    by (simp add: marshal_entry_def json_parse_print)
  moreover have "hashEntry_of_json (hashEntry_json e) = Some e"
    by (simp add: hashEntry_json_def hashEntry_of_json_def hashEntry_of_members_def field_def
        dec_string_def dec_time_def)
  ultimately show ?thesis by (simp add: unmarshal_entry_def)
qed

definition checkpoint_ok :: "MerkleCheckpoint \<Rightarrow> bool" where
  "checkpoint_ok c \<longleftrightarrow> valid_utf8 (cp_TableName c) \<and> valid_utf8 (cp_MerkleRoot c)
     \<and> valid_utf8 (cp_Timestamp c) \<and> valid_utf8 (cp_HashAlgorithm c)
     \<and> - (2 ^ 63) \<le> cp_RecordCount c \<and> cp_RecordCount c < 2 ^ 63
     \<and> smap_utf8 (cp_LeafMap c) \<and> smap_utf8 (cp_InternalNodes c)
     \<and> gomap_ok (cp_LeafMap c) \<and> gomap_ok (cp_InternalNodes c)"

text \<open>What is read back has its maps in the order of their keys; as Go maps they are the same.\<close>

definition checkpoint_norm :: "MerkleCheckpoint \<Rightarrow> MerkleCheckpoint" where
  "checkpoint_norm c =
     c\<lparr>cp_LeafMap := sort_key fst (cp_LeafMap c), cp_InternalNodes := sort_key fst (cp_InternalNodes c)\<rparr>"

lemma unmarshal_marshal_checkpoint:
  "checkpoint_ok c \<Longrightarrow> unmarshal_checkpoint (marshal_checkpoint c) = Some (checkpoint_norm c)"
proof -
  assume ok: "checkpoint_ok c"
  then have "json_ok (checkpoint_json c)"
    by (auto simp: checkpoint_json_def checkpoint_ok_def json_ok_smap)
  then have "json_parse (marshal_checkpoint c) = Some (checkpoint_json c)"
    by (simp add: marshal_checkpoint_def json_parse_print)
  moreover have "checkpoint_of_json (checkpoint_json c) = Some (checkpoint_norm c)"
    using ok
    by (simp add: checkpoint_json_def checkpoint_of_json_def checkpoint_of_members_def field_def
        dec_string_def dec_time_def dec_int_def dec_smap_json_of_smap checkpoint_ok_def
        checkpoint_norm_def dec_smap_def [of JNull])
  ultimately show ?thesis by (simp add: unmarshal_checkpoint_def)
qed

section \<open>The store as its clients see it\<close>

text \<open>A table name with no colon, so that the keys of two tables never mix.\<close>

definition table_ok :: "string \<Rightarrow> bool" where
  "table_ok t \<longleftrightarrow> CHR '':'' \<notin> set t"

definition entry_ok :: "HashEntry \<Rightarrow> bool" where
  "entry_ok e \<longleftrightarrow> table_ok (TableName e) \<and> entry_utf8 e"

definition seq_text :: "HashEntry \<Rightarrow> string" where
  "seq_text e = fmt_d (unat (SequenceNum e))"

definition no_entries :: "string \<Rightarrow> goerror" where
  "no_entries t = Errorf (''no hash entries found for table '' @ t)"

text \<open>
  The contract: \<open>entries t db\<close> is what the store holds for a table. Saving an entry replaces
  the one with its number or adds it, and touches no other table; the entries come in the
  order of their numbers as decimal text, and the latest entry is the last in that order.
\<close>

locale hash_store =
  fixes inv :: "'db \<Rightarrow> bool"
    and save :: "HashEntry \<Rightarrow> 'db \<Rightarrow> 'db result"
    and entries :: "string \<Rightarrow> 'db \<Rightarrow> HashEntry list"
    and latest :: "string \<Rightarrow> 'db \<Rightarrow> HashEntry result"
  assumes save_inv: "inv db \<Longrightarrow> entry_ok e \<Longrightarrow> save e db = Inr db' \<Longrightarrow> inv db'"
    and entries_ok: "inv db \<Longrightarrow> table_ok t \<Longrightarrow> e \<in> set (entries t db) \<Longrightarrow> entry_ok e \<and> TableName e = t"
    and entries_order: "inv db \<Longrightarrow> table_ok t \<Longrightarrow> sorted_wrt (<) (map seq_text (entries t db))"
    and entries_save: "inv db \<Longrightarrow> entry_ok e \<Longrightarrow> save e db = Inr db' \<Longrightarrow> table_ok t \<Longrightarrow>
      set (entries t db') =
        (if t = TableName e
         then insert e {x \<in> set (entries t db). SequenceNum x \<noteq> SequenceNum e}
         else set (entries t db))"
    and latest_entries: "latest t db =
      (if entries t db = [] then Inl (no_entries t) else Inr (last (entries t db)))"
begin

lemma entries_distinct:
  assumes "inv db" "table_ok t"
  shows "distinct (map seq_text (entries t db))" "distinct (entries t db)"
proof -
  show "distinct (map seq_text (entries t db))"
    using entries_order [OF assms] by (simp add: strict_sorted_iff)
  then show "distinct (entries t db)" by (simp add: distinct_map)
qed

lemma entries_seq_unique:
  assumes "inv db" "table_ok t" "x \<in> set (entries t db)" "y \<in> set (entries t db)"
    "SequenceNum x = SequenceNum y"
  shows "x = y"
proof -
  have "inj_on seq_text (set (entries t db))"
    using entries_distinct [OF assms(1,2)] by (simp add: distinct_map)
  moreover have "seq_text x = seq_text y" using assms(5) by (simp add: seq_text_def)
  ultimately show ?thesis using assms(3,4) by (blast dest: inj_onD)
qed

lemma latest_maximal:
  assumes "inv db" "table_ok t" "latest t db = Inr e" "x \<in> set (entries t db)"
  shows "e \<in> set (entries t db)" "seq_text x \<le> seq_text e"
proof -
  have e: "entries t db \<noteq> []" "e = last (entries t db)"
    using assms(3) by (auto simp: latest_entries split: if_splits)
  then show "e \<in> set (entries t db)" by simp
  have "entries t db = butlast (entries t db) @ [e]" using e by simp
  then have "sorted_wrt (<) (map seq_text (butlast (entries t db)) @ [seq_text e])"
    using entries_order [OF assms(1,2)] by (metis list.simps(8,9) map_append)
  moreover have "x \<in> set (butlast (entries t db)) \<or> x = e"
    using assms(4) e by (metis append_butlast_last_id in_set_conv_decomp insertE list.set(2) rotate1.simps(2) set_rotate1)
  ultimately show "seq_text x \<le> seq_text e"
    by (auto simp: sorted_wrt_append intro: less_imp_le)
qed

end

section \<open>The package implements the contract\<close>

definition store_inv :: "'db bolt \<Rightarrow> 'db \<Rightarrow> bool" where
  "store_inv B db \<longleftrightarrow>
     (\<forall>(k, v) \<in> set (bolt_pairs B db HashChainBucket).
        \<exists>e. entry_ok e \<and> k = entry_key e \<and> v = marshal_entry e)"

lemma latest_loop_decode:
  "latest_loop dec kvs l =
     (if decode_loop dec kvs = [] then l else Some (last (decode_loop dec kvs)))"
  by (induction dec kvs l rule: latest_loop.induct) (auto split: option.splits)

lemma decode_loop_image: "set (decode_loop dec kvs) = {e. \<exists>(k, v) \<in> set kvs. dec v = Some e}"
  by (induction dec kvs rule: decode_loop.induct) (auto split: option.splits)

lemma decode_loop_keys:
  "list_all (\<lambda>(k, v). \<exists>e. dec v = Some e \<and> key e = k) kvs \<Longrightarrow> map key (decode_loop dec kvs) = map fst kvs"
  by (induction dec kvs rule: decode_loop.induct) auto

lemma entry_key_inject:
  "table_ok (TableName e) \<Longrightarrow> table_ok (TableName e') \<Longrightarrow>
   entry_key e = entry_key e' \<longleftrightarrow> TableName e = TableName e' \<and> SequenceNum e = SequenceNum e'"
  by (simp add: entry_key_def seq_key_inject table_ok_def word_unat_eq_iff)

context bolt_store
begin

abbreviation table_pairs :: "string \<Rightarrow> 'db \<Rightarrow> (bytes \<times> bytes) list" where
  "table_pairs t db \<equiv> scan_prefix (t @ '':'') (bolt_pairs B db HashChainBucket)"

lemma table_pairs_entry:
  assumes "store_inv B db" "table_ok t" "(k, v) \<in> set (table_pairs t db)"
  shows "\<exists>e. entry_ok e \<and> TableName e = t \<and> k = entry_key e \<and> v = marshal_entry e"
proof -
  have "(k, v) \<in> set (bolt_pairs B db HashChainBucket)" and pre: "has_prefix (t @ '':'') k"
    using assms(3) by (auto simp: scan_pairs)
  then obtain e where e: "entry_ok e" "k = entry_key e" "v = marshal_entry e"
    using assms(1) by (auto simp: store_inv_def)
  moreover have "TableName e = t"
    using pre e assms(2) has_prefix_seq_key [of t "TableName e"]
    by (simp add: entry_key_def entry_ok_def table_ok_def)
  ultimately show ?thesis by blast
qed

lemma stored_entries_iff:
  assumes "store_inv B db" "table_ok t"
  shows "e \<in> set (stored_entries B t db) \<longleftrightarrow>
     entry_ok e \<and> TableName e = t \<and> bolt_get B db HashChainBucket (entry_key e) = Some (marshal_entry e)"
proof
  assume "e \<in> set (stored_entries B t db)"
  then obtain k v where kv: "(k, v) \<in> set (table_pairs t db)" "unmarshal_entry v = Some e"
    by (auto simp: stored_entries_def decode_loop_image)
  then obtain e' where e': "entry_ok e'" "TableName e' = t" "k = entry_key e'" "v = marshal_entry e'"
    using table_pairs_entry [OF assms kv(1)] by blast
  with kv have "e = e'" by (simp add: unmarshal_marshal_entry entry_ok_def)
  with e' kv(1) show "entry_ok e \<and> TableName e = t
      \<and> bolt_get B db HashChainBucket (entry_key e) = Some (marshal_entry e)"
    by (auto simp: scan_pairs in_pairs_iff)
next
  assume a: "entry_ok e \<and> TableName e = t
      \<and> bolt_get B db HashChainBucket (entry_key e) = Some (marshal_entry e)"
  then have "(entry_key e, marshal_entry e) \<in> set (table_pairs t db)"
    using assms(2) has_prefix_seq_key [of t t]
    by (auto simp: scan_pairs in_pairs_iff entry_key_def table_ok_def)
  moreover have "unmarshal_entry (marshal_entry e) = Some e"
    using a by (simp add: unmarshal_marshal_entry entry_ok_def)
  ultimately show "e \<in> set (stored_entries B t db)"
    by (auto simp: stored_entries_def decode_loop_image)
qed

lemma stored_entries_keys:
  assumes "store_inv B db" "table_ok t"
  shows "map entry_key (stored_entries B t db) = map fst (table_pairs t db)"
  unfolding stored_entries_def
proof (rule decode_loop_keys, unfold list_all_iff, clarify)
  fix k v
  assume "(k, v) \<in> set (table_pairs t db)"
  from table_pairs_entry [OF assms this] show "\<exists>e. unmarshal_entry v = Some e \<and> entry_key e = k"
    by (auto simp: unmarshal_marshal_entry entry_ok_def)
qed

end

context bolt_store
begin

lemma stored_entries_order:
  assumes "store_inv B db" "table_ok t"
  shows "sorted_wrt (<) (map seq_text (stored_entries B t db))"
proof -
  let ?es = "stored_entries B t db"
  have "sorted (map fst (table_pairs t db))" "gomap_ok (table_pairs t db)"
    using pairs_sorted [of db HashChainBucket] pairs_distinct [of db HashChainBucket]
    by (simp_all add: scan_pairs sorted_fst_filter distinct_map_filter)
  then have "sorted_wrt (<) (map entry_key ?es)"
    using stored_entries_keys [OF assms] by (simp add: strict_sorted_iff)
  moreover have "map entry_key ?es = map (\<lambda>s. t @ '':'' @ s) (map seq_text ?es)"
    using stored_entries_iff [OF assms] by (auto simp: entry_key_def seq_key_def seq_text_def)
  ultimately show ?thesis by (simp add: sorted_wrt_map append_less_iff)
qed

lemma SaveHashEntry_get:
  "SaveHashEntry B e db = Inr db' \<Longrightarrow>
   bolt_get B db' b k = (if b = HashChainBucket \<and> k = entry_key e then Some (marshal_entry e) else bolt_get B db b k)"
  unfolding SaveHashEntry_def by (rule Update_put_get)

lemma store_invD:
  "store_inv B db \<Longrightarrow> bolt_get B db HashChainBucket k = Some v \<Longrightarrow>
   \<exists>e. entry_ok e \<and> k = entry_key e \<and> v = marshal_entry e"
  unfolding store_inv_def in_pairs_iff [symmetric] by blast

lemma SaveHashEntry_inv:
  assumes "store_inv B db" "entry_ok e" "SaveHashEntry B e db = Inr db'"
  shows "store_inv B db'"
  unfolding store_inv_def
proof clarify
  fix k v
  assume "(k, v) \<in> set (bolt_pairs B db' HashChainBucket)"
  then have "bolt_get B db' HashChainBucket k = Some v" by (simp add: in_pairs_iff)
  then have "k = entry_key e \<and> v = marshal_entry e \<or> bolt_get B db HashChainBucket k = Some v"
    using SaveHashEntry_get [OF assms(3)] by (auto split: if_splits)
  then show "\<exists>e. entry_ok e \<and> k = entry_key e \<and> v = marshal_entry e"
    using assms(2) store_invD [OF assms(1)] by blast
qed

lemma stored_entries_save:
  assumes "store_inv B db" "entry_ok e" "SaveHashEntry B e db = Inr db'" "table_ok t"
  shows "set (stored_entries B t db') =
    (if t = TableName e
     then insert e {x \<in> set (stored_entries B t db). SequenceNum x \<noteq> SequenceNum e}
     else set (stored_entries B t db))"
proof -
  note inv' = SaveHashEntry_inv [OF assms(1-3)]
  have key: "entry_key x = entry_key e \<longleftrightarrow> TableName x = TableName e \<and> SequenceNum x = SequenceNum e"
    if "entry_ok x" for x
    using that assms(2) by (simp add: entry_key_inject entry_ok_def)
  have marsh: "marshal_entry x = marshal_entry e \<longleftrightarrow> x = e" if "entry_ok x" for x
    using that assms(2) by (metis entry_ok_def option.inject unmarshal_marshal_entry)
  note iff = stored_entries_iff [OF inv' assms(4)] stored_entries_iff [OF assms(1,4)]
    SaveHashEntry_get [OF assms(3)]
  have "x \<in> set (stored_entries B t db') \<longleftrightarrow>
      (if t = TableName e
       then x = e \<or> x \<in> set (stored_entries B t db) \<and> SequenceNum x \<noteq> SequenceNum e
       else x \<in> set (stored_entries B t db))" for x
  proof (cases "entry_ok x \<and> TableName x = t")
    case True
    then show ?thesis
      using key [of x] marsh [of x] assms(2) iff(1,2) [of x] by (auto simp: iff(3))
  next
    case False
    then show ?thesis using assms(2) iff(1,2) [of x] by auto
  qed
  then show ?thesis by (intro set_eqI) simp
qed

end

sublocale bolt_store \<subseteq> store: hash_store "store_inv B" "SaveHashEntry B" "stored_entries B" "GetLatestHashEntry B"
proof
  show "GetLatestHashEntry B t db =
      (if stored_entries B t db = [] then Inl (no_entries t) else Inr (last (stored_entries B t db)))" for t db
    by (simp add: GetLatestHashEntry_def stored_entries_def latest_loop_decode no_entries_def)
qed (simp_all add: SaveHashEntry_inv stored_entries_iff stored_entries_order stored_entries_save)

context bolt_store
begin

lemma axioms_store: "hash_store (store_inv B) (SaveHashEntry B) (stored_entries B) (GetLatestHashEntry B)"
  by unfold_locales

end

lemma length_fmt_d: "n < 10 ^ k \<Longrightarrow> 0 < k \<Longrightarrow> length (fmt_d n) \<le> k"
proof (induction n arbitrary: k rule: fmt_d.induct)
  case (1 n)
  show ?case
  proof (cases "n < 10")
    case True
    with 1 show ?thesis by (subst fmt_d.simps) simp
  next
    case False
    then obtain j where k: "k = Suc j" "0 < j" using "1.prems" by (cases k; cases "k - 1") auto
    then have "n div 10 < 10 ^ j" using "1.prems" by (simp add: less_mult_imp_div_less)
    then have "length (fmt_d (n div 10)) \<le> j" using "1.IH" False k by simp
    with False k show ?thesis by (subst fmt_d.simps) simp
  qed
qed

section \<open>Sizes\<close>

lemma length_escape_ascii: "length (escape_ascii c) \<le> 6"
  by (simp add: escape_ascii_def)

lemma length_quote_body: "length (quote_body s) \<le> 6 * length s"
proof (induction s rule: quote_body.induct)
  case (2 c cs)
  let ?n = "rune_len (c # cs)"
  have le: "?n \<le> Suc (length cs)" using rune_len_le [of "c # cs"] by simp
  show ?case
  proof (cases "?n = 0")
    case True
    with 2 show ?thesis by (simp add: quote_body.simps(2))
  next
    case nz: False
    show ?thesis
    proof (cases "?n = 1")
      case True
      with 2 length_escape_ascii [of c] show ?thesis by (simp add: quote_body.simps(2))
    next
      case False
      with 2 nz have IH: "length (quote_body (drop (?n - 1) cs)) \<le> 6 * (length cs - (?n - 1))"
        by simp
      have "length (quote_body (c # cs)) \<le> 6 + ?n + length (quote_body (drop (?n - 1) cs))"
        using nz False by (simp add: quote_body.simps(2) min_def)
      with IH le nz False show ?thesis by (simp add: diff_mult_distrib2)
    qed
  qed
qed simp

lemma length_quote: "length (quote s) \<le> 6 * length s + 2"
  using length_quote_body [of s] by (simp add: quote_def)

definition entry_size :: "HashEntry \<Rightarrow> nat" where
  "entry_size e = length (TableName e) + length (DataHash e) + length (Timestamp e)
     + length (OperationType e) + length (RecordID e)"

lemma length_fmt_u64: "length (fmt_int (uint (w :: 64 word))) \<le> 20"
proof -
  have "unat w < 10 ^ 20" using unsigned_less [of w, where ?'a = nat] by simp
  then have "length (fmt_d (unat w)) \<le> 20" by (rule length_fmt_d) simp
  then show ?thesis by (simp add: fmt_int_def)
qed

lemma length_marshal_entry: "length (marshal_entry e) \<le> 6 * entry_size e + 700"
  using length_quote [of "TableName e"] length_quote [of "DataHash e"] length_quote [of "Timestamp e"]
    length_quote [of "OperationType e"] length_quote [of "RecordID e"] length_fmt_u64 [of "SequenceNum e"]
    length_quote [of "''table_name''"] length_quote [of "''sequence_num''"] length_quote [of "''data_hash''"]
    length_quote [of "''timestamp''"] length_quote [of "''operation_type''"] length_quote [of "''record_id''"]
  by (simp add: marshal_entry_def hashEntry_json_def entry_size_def)


context reliable_bolt
begin

lemma SaveHashEntry_ok:
  assumes "length (TableName e) \<le> 32000" "entry_size e \<le> 300000000"
  shows "\<exists>db'. SaveHashEntry B e db = Inr db'"
proof -
  have "unat (SequenceNum e) < 10 ^ 20" using unsigned_less [of "SequenceNum e", where ?'a = nat] by simp
  then have "length (fmt_d (unat (SequenceNum e))) \<le> 20" by (rule length_fmt_d) simp
  then show ?thesis
    using assms length_marshal_entry [of e] unfolding SaveHashEntry_def
    by (intro Update_put_ok) (simp_all add: entry_key_def seq_key_def max_key_size_def max_value_size_def)
qed

end

section \<open>The store as a map\<close>

text \<open>
  What the store is meant to be: for each table, a map from sequence numbers to entries.
\<close>

definition store_abs :: "'db bolt \<Rightarrow> 'db \<Rightarrow> string \<Rightarrow> 64 word \<rightharpoonup> HashEntry" where
  "store_abs B db t n = (case GetHashEntry B t n db of Inl _ \<Rightarrow> None | Inr e \<Rightarrow> Some e)"

context bolt_store
begin

lemma store_abs_iff:
  assumes "store_inv B db" "table_ok t"
  shows "store_abs B db t n = Some e \<longleftrightarrow> e \<in> set (stored_entries B t db) \<and> SequenceNum e = n"
proof -
  have "bolt_get B db HashChainBucket (seq_key t (unat n)) = Some (marshal_entry e) \<and> entry_ok e
      \<and> TableName e = t \<and> SequenceNum e = n" if abs: "store_abs B db t n = Some e"
  proof -
    obtain v where v: "bolt_get B db HashChainBucket (seq_key t (unat n)) = Some v" "unmarshal_entry v = Some e"
      using abs by (auto simp: store_abs_def GetHashEntry_def split: option.splits sum.splits)
    then obtain x where x: "entry_ok x" "seq_key t (unat n) = entry_key x" "v = marshal_entry x"
      using store_invD [OF assms(1)] by blast
    then have "x = e" using v(2) by (simp add: unmarshal_marshal_entry entry_ok_def)
    moreover have "TableName x = t \<and> SequenceNum x = n"
      using x(1,2) assms(2) by (simp add: entry_key_def entry_ok_def table_ok_def seq_key_inject word_unat_eq_iff)
    ultimately show ?thesis using v x by simp
  qed
  moreover have "store_abs B db t n = Some e"
    if "bolt_get B db HashChainBucket (entry_key e) = Some (marshal_entry e)" "entry_ok e"
      "TableName e = t" "SequenceNum e = n"
    using that by (simp add: store_abs_def GetHashEntry_def entry_key_def unmarshal_marshal_entry entry_ok_def)
  ultimately show ?thesis
    unfolding stored_entries_iff [OF assms] by (metis entry_key_def)
qed

lemma store_abs_ran:
  assumes "store_inv B db" "table_ok t"
  shows "ran (store_abs B db t) = set (stored_entries B t db)"
  by (auto simp: ran_def store_abs_iff [OF assms])

lemma store_abs_save:
  assumes "store_inv B db" "entry_ok e" "SaveHashEntry B e db = Inr db'" "table_ok t"
  shows "store_abs B db' t = (if t = TableName e then (store_abs B db t)(SequenceNum e \<mapsto> e) else store_abs B db t)"
proof (intro ext option.expand)
  have entry: "unmarshal_entry (marshal_entry e) = Some e"
    using assms(2) by (simp add: unmarshal_marshal_entry entry_ok_def)
  fix n
  have key: "seq_key t (unat n) = entry_key e \<longleftrightarrow> t = TableName e \<and> n = SequenceNum e"
    using assms(2,4) by (simp add: entry_key_def entry_ok_def table_ok_def seq_key_inject word_unat_eq_iff)
  have "store_abs B db' t n =
      (if t = TableName e then (store_abs B db t)(SequenceNum e \<mapsto> e) else store_abs B db t) n"
    using entry by (simp add: store_abs_def GetHashEntry_def SaveHashEntry_get [OF assms(3)] key)
  then show "(store_abs B db' t n = None) =
      ((if t = TableName e then (store_abs B db t)(SequenceNum e \<mapsto> e) else store_abs B db t) n = None)"
    and "the (store_abs B db' t n) =
      the ((if t = TableName e then (store_abs B db t)(SequenceNum e \<mapsto> e) else store_abs B db t) n)"
    by simp_all
qed

text \<open>The pair with the greatest key of a table is the last one of its scan.\<close>

lemma scan_last:
  assumes "bolt_get B db b k = Some v" "has_prefix p k"
    and "\<And>k' v'. bolt_get B db b k' = Some v' \<Longrightarrow> has_prefix p k' \<Longrightarrow> k' \<le> k"
  shows "\<exists>kvs. scan_prefix p (bolt_pairs B db b) = kvs @ [(k, v)]"
proof -
  let ?s = "scan_prefix p (bolt_pairs B db b)"
  have mem: "(k, v) \<in> set ?s" using assms(1,2) by (simp add: scan_pairs in_pairs_iff)
  then have ne: "?s \<noteq> []" by auto
  obtain k' v' where last: "last ?s = (k', v')" by force
  then have kv': "(k', v') \<in> set ?s" using ne by (metis last_in_set)
  then have "k' \<le> k" using assms(3) by (auto simp: scan_pairs in_pairs_iff)
  moreover have "k \<le> k'"
  proof -
    have srt: "sorted (map fst ?s)" by (simp add: scan_pairs sorted_fst_filter pairs_sorted)
    obtain kvs where s: "?s = kvs @ [(k', v')]" using ne last by (metis append_butlast_last_id)
    show ?thesis using srt mem unfolding s by (force simp: sorted_append)
  qed
  ultimately have "k' = k" by simp
  then have "v' = v" using kv' assms(1) by (auto simp: scan_pairs in_pairs_iff)
  with \<open>k' = k\<close> last ne show ?thesis by (metis append_butlast_last_id)
qed

end

text \<open>A bound on the size of a stored checkpoint.\<close>

definition smap_size :: "(string, string) gomap \<Rightarrow> nat" where
  "smap_size m = (\<Sum>(k, v) \<leftarrow> m. length k + length v + 1)"

definition checkpoint_size :: "MerkleCheckpoint \<Rightarrow> nat" where
  "checkpoint_size c = length (cp_TableName c) + length (cp_MerkleRoot c) + length (cp_Timestamp c)
     + length (cp_HashAlgorithm c) + length (fmt_int (cp_RecordCount c))
     + smap_size (cp_LeafMap c) + smap_size (cp_InternalNodes c)"

lemma length_print_strings:
  "length (print_members (map (\<lambda>(k, v). (k, JStr v)) m)) \<le> 6 * smap_size m"
proof (induction m)
  case (Cons kv m)
  obtain k v where kv: "kv = (k, v)" by force
  have "length (print_members (map (\<lambda>(k, v). (k, JStr v)) (kv # m))) \<le>
      length (quote k) + length (quote v) + 2 + length (print_members (map (\<lambda>(k, v). (k, JStr v)) m))"
    by (simp add: kv)
  moreover have "smap_size (kv # m) = length k + length v + 1 + smap_size m" by (simp add: kv smap_size_def)
  ultimately show ?case using Cons length_quote [of k] length_quote [of v] by linarith
qed (simp add: smap_size_def)

lemma smap_size_perm: "mset m = mset m' \<Longrightarrow> smap_size m = smap_size m'"
proof -
  let ?f = "\<lambda>(k, v). length k + length v + 1"
  assume "mset m = mset m'"
  then have "mset (map ?f m) = mset (map ?f m')" by simp
  then have "sum_list (map ?f m) = sum_list (map ?f m')" unfolding sum_mset_sum_list [symmetric] by (rule arg_cong)
  then show ?thesis unfolding smap_size_def .
qed

lemma length_json_of_smap: "length (json_print (json_of_smap m)) \<le> 6 * smap_size m + 2"
  using length_print_strings [of "sort_key fst m"] smap_size_perm [of "sort_key fst m" m]
  by (simp add: json_of_smap_def)

lemma length_print_members_append:
  "length (print_members (xs @ ys)) \<le> length (print_members xs) + length (print_members ys) + 1"
  by (induction xs) auto

lemma add_bounds:
  "x \<le> 4 + a + b + (c :: nat) \<Longrightarrow> a \<le> 6 * s + 500 \<Longrightarrow> b \<le> 6 * t + 53 \<Longrightarrow> c \<le> 6 * u + 89 \<Longrightarrow>
   x \<le> 6 * (s + t + u) + 800"
  by (simp add: distrib_left)

lemma length_marshal_checkpoint: "length (marshal_checkpoint c) \<le> 6 * checkpoint_size c + 800"
proof -
  let ?base = "[(''table_name'', JStr (cp_TableName c)), (''sequence_num'', JNum (uint (cp_SequenceNum c))),
      (''merkle_root'', JStr (cp_MerkleRoot c)), (''timestamp'', JStr (cp_Timestamp c)),
      (''record_count'', JNum (cp_RecordCount c)), (''hash_algorithm'', JStr (cp_HashAlgorithm c))]"
  let ?lm = "if cp_LeafMap c = [] then [] else [(''leaf_map'', json_of_smap (cp_LeafMap c))]"
  let ?in = "if cp_InternalNodes c = [] then [] else [(''internal_nodes'', json_of_smap (cp_InternalNodes c))]"
  have base: "length (print_members ?base) \<le>
      6 * (length (cp_TableName c) + length (cp_MerkleRoot c) + length (cp_Timestamp c)
        + length (cp_HashAlgorithm c) + length (fmt_int (cp_RecordCount c))) + 500"
    using length_quote [of "cp_TableName c"] length_quote [of "cp_MerkleRoot c"] length_quote [of "cp_Timestamp c"]
      length_quote [of "cp_HashAlgorithm c"] length_fmt_u64 [of "cp_SequenceNum c"]
      length_quote [of "''table_name''"] length_quote [of "''sequence_num''"] length_quote [of "''merkle_root''"]
      length_quote [of "''timestamp''"] length_quote [of "''record_count''"] length_quote [of "''hash_algorithm''"]
    by simp
  have lm: "length (print_members ?lm) \<le> 6 * smap_size (cp_LeafMap c) + 53"
    using length_quote [of "''leaf_map''"] length_json_of_smap [of "cp_LeafMap c"] by simp
  have ins: "length (print_members ?in) \<le> 6 * smap_size (cp_InternalNodes c) + 89"
    using length_quote [of "''internal_nodes''"] length_json_of_smap [of "cp_InternalNodes c"] by simp
  have "length (marshal_checkpoint c) \<le> 2 + length (print_members (?base @ ?lm @ ?in))"
    by (simp only: marshal_checkpoint_def checkpoint_json_def json_print.simps length_append list.size)
  also have "\<dots> \<le> 4 + length (print_members ?base) + length (print_members ?lm) + length (print_members ?in)"
    using length_print_members_append [of ?base "?lm @ ?in"] length_print_members_append [of ?lm ?in] by linarith
  finally show ?thesis unfolding checkpoint_size_def by (rule add_bounds [OF _ base lm ins])
qed

context reliable_bolt
begin

lemma SaveMerkleCheckpoint_ok:
  assumes "length (cp_TableName c) \<le> 32000" "checkpoint_size c \<le> 300000000"
  shows "\<exists>db'. SaveMerkleCheckpoint B c db = Inr db'"
proof -
  have "unat (cp_SequenceNum c) < 10 ^ 20" using unsigned_less [of "cp_SequenceNum c", where ?'a = nat] by simp
  then have "length (fmt_d (unat (cp_SequenceNum c))) \<le> 20" by (rule length_fmt_d) simp
  then show ?thesis
    using assms length_marshal_checkpoint [of c] unfolding SaveMerkleCheckpoint_def
    by (intro Update_put_ok) (simp_all add: checkpoint_key_def seq_key_def max_key_size_def max_value_size_def)
qed

end

lemma latest_loop_snoc: "dec v = Some e \<Longrightarrow> latest_loop dec (kvs @ [(k, v)]) l = Some e"
  by (induction dec kvs l rule: latest_loop.induct) (auto split: option.splits)

lemma saved_checkpoint_latest:
  assumes "bolt_store B" "checkpoint_ok c" "SaveMerkleCheckpoint B c db = Inr db'"
    and "\<forall>k v. bolt_get B db MerkleCheckpointBucket k = Some v \<and> has_prefix (cp_TableName c @ '':'') k \<longrightarrow>
           (\<exists>n. k = seq_key (cp_TableName c) n \<and> fmt_d n \<le> fmt_d (unat (cp_SequenceNum c)))"
  shows "GetLatestMerkleCheckpoint B (cp_TableName c) db' = Inr (checkpoint_norm c)"
proof -
  let ?k = "checkpoint_key c" and ?p = "cp_TableName c @ '':''"
  have get: "bolt_get B db' b k =
      (if b = MerkleCheckpointBucket \<and> k = ?k then Some (marshal_checkpoint c) else bolt_get B db b k)" for b k
    using assms(3) unfolding SaveMerkleCheckpoint_def by (rule bolt_store.Update_put_get [OF assms(1)])
  have "k' \<le> ?k" if "bolt_get B db' MerkleCheckpointBucket k' = Some v'" "has_prefix ?p k'" for k' v'
  proof (cases "k' = ?k")
    case False
    with that(1) have "bolt_get B db MerkleCheckpointBucket k' = Some v'" by (simp add: get)
    with assms(4) that(2) obtain n where "k' = seq_key (cp_TableName c) n" "fmt_d n \<le> fmt_d (unat (cp_SequenceNum c))"
      by blast
    then show ?thesis by (simp add: checkpoint_key_def seq_key_le_iff)
  qed simp
  moreover have "bolt_get B db' MerkleCheckpointBucket ?k = Some (marshal_checkpoint c)" by (simp add: get)
  moreover have "has_prefix ?p ?k" by (auto simp: has_prefix_iff checkpoint_key_def seq_key_def)
  ultimately obtain kvs where
    "scan_prefix ?p (bolt_pairs B db' MerkleCheckpointBucket) = kvs @ [(?k, marshal_checkpoint c)]"
    using bolt_store.scan_last [OF assms(1)] by blast
  then show ?thesis
    using latest_loop_snoc [where dec = unmarshal_checkpoint, OF unmarshal_marshal_checkpoint [OF assms(2)]]
    by (simp add: GetLatestMerkleCheckpoint_def)
qed

section \<open>Properties\<close>

definition sample_entry :: HashEntry where
  "sample_entry =
     \<lparr>TableName = ''logs'', SequenceNum = 3, DataHash = ''00'', Timestamp = ''2024-01-01T00:00:00Z'',
      OperationType = ''INSERT'', RecordID = ''map[id:3]''\<rparr>"

lemma sample_entry_ok: "entry_ok sample_entry"
  by (simp add: sample_entry_def entry_ok_def entry_utf8_def table_ok_def valid_utf8_literal)

lemma sample_entry_saved: "\<exists>db'. SaveHashEntry mem_bolt sample_entry db = Inr db'"
  by (rule mem.SaveHashEntry_ok) (simp_all add: sample_entry_def entry_size_def)

lemma store_inv_empty: "store_inv mem_bolt []"
  by (simp add: store_inv_def mem_bolt_def mem_bucket_def)

text \<open>
  C2. The store of hash entries implements a map from sequence numbers to
  entries for each table: SaveHashEntry keeps the invariant and updates the map of the
  entry's table at its number and no other, GetHashEntry reads it, and GetAllHashEntries
  returns exactly its entries.
\<close>

theorem store_refines_map:
  assumes "bolt_store B" "store_inv B db" "entry_ok e" "SaveHashEntry B e db = Inr db'" "table_ok t"
  shows "store_inv B db' \<and>
    store_abs B db' t = (if t = TableName e then (store_abs B db t)(SequenceNum e \<mapsto> e) else store_abs B db t) \<and>
    (\<exists>es. GetAllHashEntries B t db' = Inr es \<and> set es = ran (store_abs B db' t) \<and> distinct es)"
proof -
  have inv: "store_inv B db'" by (rule bolt_store.SaveHashEntry_inv [OF assms(1-4)])
  have "hash_store (store_inv B) (SaveHashEntry B) (stored_entries B) (GetLatestHashEntry B)"
    by (rule bolt_store.axioms_store [OF assms(1)])
  then have "distinct (stored_entries B t db')" using inv assms(5) by (rule hash_store.entries_distinct(2))
  with inv show ?thesis
    using bolt_store.store_abs_save [OF assms] bolt_store.store_abs_ran [OF assms(1) inv assms(5)]
    by (simp add: GetAllHashEntries_def)
qed

theorem store_refines_map_witness:
  "\<exists>db'. SaveHashEntry mem_bolt sample_entry [] = Inr db' \<and> store_abs mem_bolt db' ''logs'' 3 = Some sample_entry"
proof -
  obtain db' where s: "SaveHashEntry mem_bolt sample_entry [] = Inr db'" using sample_entry_saved by blast
  have "store_abs mem_bolt db' ''logs'' = (store_abs mem_bolt [] ''logs'')(3 \<mapsto> sample_entry)"
    using store_refines_map [OF mem.bolt_store_axioms store_inv_empty sample_entry_ok s, of "''logs''"]
    by (simp add: sample_entry_def table_ok_def)
  with s show ?thesis by simp
qed

text \<open>
  GetLatestHashEntry finds an entry exactly if the table has one,
  and it is the entry whose sequence number is the greatest as decimal text, not as a number.
\<close>

theorem latest_is_text_maximum:
  assumes "bolt_store B" "store_inv B db" "table_ok t"
  shows "if stored_entries B t db = [] then GetLatestHashEntry B t db = Inl (no_entries t)
    else \<exists>e \<in> set (stored_entries B t db). GetLatestHashEntry B t db = Inr e
      \<and> (\<forall>x \<in> set (stored_entries B t db). fmt_d (unat (SequenceNum x)) \<le> fmt_d (unat (SequenceNum e)))"
proof -
  have st: "hash_store (store_inv B) (SaveHashEntry B) (stored_entries B) (GetLatestHashEntry B)"
    by (rule bolt_store.axioms_store [OF assms(1)])
  have l: "GetLatestHashEntry B t db =
      (if stored_entries B t db = [] then Inl (no_entries t) else Inr (last (stored_entries B t db)))"
    by (rule hash_store.latest_entries [OF st])
  show ?thesis
  proof (cases "stored_entries B t db = []")
    case False
    then have "GetLatestHashEntry B t db = Inr (last (stored_entries B t db))" using l by simp
    with False show ?thesis
      using hash_store.latest_maximal [OF st assms(2,3)] by (auto simp: seq_text_def)
  qed (simp add: l)
qed

theorem latest_is_text_maximum_witness:
  "\<exists>db'. SaveHashEntry mem_bolt sample_entry [] = Inr db' \<and> GetLatestHashEntry mem_bolt ''logs'' db' = Inr sample_entry"
proof -
  obtain db' where s: "SaveHashEntry mem_bolt sample_entry [] = Inr db'" using sample_entry_saved by blast
  have t: "table_ok ''logs''" "TableName sample_entry = ''logs''" by (simp_all add: table_ok_def sample_entry_def)
  have inv: "store_inv mem_bolt db'" by (rule mem.SaveHashEntry_inv [OF store_inv_empty sample_entry_ok s])
  have "stored_entries mem_bolt ''logs'' [] = []"
    by (simp add: stored_entries_def mem_bolt_def mem_bucket_def scan_prefix_def)
  then have "set (stored_entries mem_bolt ''logs'' db') = {sample_entry}"
    using mem.stored_entries_save [OF store_inv_empty sample_entry_ok s t(1)] t(2) by simp
  moreover from this have "stored_entries mem_bolt ''logs'' db' \<noteq> []" by (metis empty_set insert_not_empty)
  ultimately have "GetLatestHashEntry mem_bolt ''logs'' db' = Inr sample_entry"
    using latest_is_text_maximum [OF mem.bolt_store_axioms inv t(1)] by (metis singletonD)
  with s show ?thesis by blast
qed

text \<open>
  C35. A checkpoint that is saved with a sequence number not below, as
  decimal text, those of the table's stored checkpoints is what GetLatestMerkleCheckpoint then
  returns, with its two maps in the order of their keys.
\<close>

theorem checkpoint_roundtrip:
  assumes "bolt_store B" "checkpoint_ok c" "SaveMerkleCheckpoint B c db = Inr db'"
    and "\<forall>k v. bolt_get B db MerkleCheckpointBucket k = Some v \<and> has_prefix (cp_TableName c @ '':'') k \<longrightarrow>
           (\<exists>n. k = seq_key (cp_TableName c) n \<and> fmt_d n \<le> fmt_d (unat (cp_SequenceNum c)))"
  shows "GetLatestMerkleCheckpoint B (cp_TableName c) db' = Inr (checkpoint_norm c)"
  by (rule saved_checkpoint_latest [OF assms])

definition sample_checkpoint :: MerkleCheckpoint where
  "sample_checkpoint =
     \<lparr>cp_TableName = ''logs'', cp_SequenceNum = 3, cp_MerkleRoot = ''00'', cp_Timestamp = ''2024-01-01T00:00:00Z'',
      cp_RecordCount = 2, cp_HashAlgorithm = ''sha256'', cp_LeafMap = [(''2'', ''bb''), (''1'', ''aa'')],
      cp_InternalNodes = []\<rparr>"

lemma sample_checkpoint_ok: "checkpoint_ok sample_checkpoint"
  by (simp add: checkpoint_ok_def sample_checkpoint_def smap_utf8_def valid_utf8_literal)

lemma sample_checkpoint_saved: "\<exists>db'. SaveMerkleCheckpoint mem_bolt sample_checkpoint db = Inr db'"
proof -
  have "length (fmt_int 2) = 1" by (simp add: fmt_int_def fmt_d.simps)
  then have "length (cp_TableName sample_checkpoint) \<le> 32000" "checkpoint_size sample_checkpoint \<le> 300000000"
    by (simp_all add: checkpoint_size_def sample_checkpoint_def smap_size_def)
  then show ?thesis by (rule mem.SaveMerkleCheckpoint_ok)
qed

theorem checkpoint_roundtrip_witness:
  "\<exists>db'. SaveMerkleCheckpoint mem_bolt sample_checkpoint [] = Inr db'
     \<and> GetLatestMerkleCheckpoint mem_bolt ''logs'' db' = Inr (checkpoint_norm sample_checkpoint)"
proof -
  obtain db' where s: "SaveMerkleCheckpoint mem_bolt sample_checkpoint [] = Inr db'"
    using sample_checkpoint_saved by blast
  have t: "cp_TableName sample_checkpoint = ''logs''" by (simp add: sample_checkpoint_def)
  have "GetLatestMerkleCheckpoint mem_bolt (cp_TableName sample_checkpoint) db' = Inr (checkpoint_norm sample_checkpoint)"
    by (rule checkpoint_roundtrip [OF mem.bolt_store_axioms sample_checkpoint_ok s]) (simp add: mem_bolt_def mem_bucket_def)
  with s t show ?thesis by metis
qed

end
