(* ===== verification/Events.thy ===== *)
theory Events
  imports Hash Storage
begin

text \<open>
  The values that pass between change data capture and its handlers: the change events of
  internal/cdc/types.go, the interface of internal/cdc/tampering.go and the error type of
  internal/verify/errors.go that implements it.
\<close>

section \<open>Change events\<close>

type_synonym OperationType = string

definition OperationInsert :: OperationType where
  "OperationInsert = ''INSERT''"

definition OperationUpdate :: OperationType where
  "OperationUpdate = ''UPDATE''"

definition OperationDelete :: OperationType where
  "OperationDelete = ''DELETE''"

record ChangeEvent =
  ev_TableName :: string
  ev_Operation :: OperationType
  ev_Timestamp :: gotime
  ev_NewData :: "(string, goval) gomap"
  ev_OldData :: "(string, goval) gomap"
  ev_PrimaryKey :: "(string, goval) gomap"
  ev_TransactionID :: "32 word"
  ev_LSN :: "64 word"

lemmas operation_defs = OperationInsert_def OperationUpdate_def OperationDelete_def

lemma operations_distinct [simp]:
  "OperationInsert \<noteq> OperationUpdate" "OperationInsert \<noteq> OperationDelete"
  "OperationUpdate \<noteq> OperationInsert" "OperationUpdate \<noteq> OperationDelete"
  "OperationDelete \<noteq> OperationInsert" "OperationDelete \<noteq> OperationUpdate"
  by (simp_all add: operation_defs)

section \<open>Tampering errors\<close>

definition NewTamperingError :: "string \<Rightarrow> string \<Rightarrow> goerror" where
  "NewTamperingError tableName operation = TamperingErr tableName operation"

text \<open>
  The type assertion to *TamperingError, and the one to the interface TamperingDetector,
  which only *TamperingError implements: both look at the error itself, not at an error
  it wraps. The field Message is never set.
\<close>

record TamperingError =
  te_TableName :: string
  te_Operation :: string
  te_Message :: string

definition IsTampering :: "TamperingError \<Rightarrow> bool" where
  "IsTampering e = True"

definition GetTableName :: "TamperingError \<Rightarrow> string" where
  "GetTableName e = te_TableName e"

definition GetOperation :: "TamperingError \<Rightarrow> string" where
  "GetOperation e = te_Operation e"

fun AsTamperingError :: "goerror \<Rightarrow> TamperingError option" where
  "AsTamperingError (TamperingErr t op) = Some \<lparr>te_TableName = t, te_Operation = op, te_Message = []\<rparr>"
| "AsTamperingError _ = None"

definition IsTamperingError :: "goerror \<Rightarrow> bool" where
  "IsTamperingError err = (AsTamperingError err \<noteq> None)"

text \<open>The text of an error.\<close>

fun error_text :: "goerror \<Rightarrow> string" where
  "error_text (Errorf s) = s"
| "error_text (Wrapf msg e) = msg @ '': '' @ error_text e"
| "error_text (TamperingErr t op) = ''TAMPERING DETECTED: '' @ op @ '' operation on table '' @ t"

text \<open>An error that is a TamperingDetector says so, and names the table and the operation.\<close>

lemma TamperingDetector_sound:
  "AsTamperingError err = Some e \<Longrightarrow> IsTampering e \<and> err = TamperingErr (GetTableName e) (GetOperation e)"
  by (cases err) (auto simp: IsTampering_def GetTableName_def GetOperation_def)

lemma IsTamperingError_iff: "IsTamperingError err \<longleftrightarrow> (\<exists>t op. err = TamperingErr t op)"
  by (cases err) (auto simp: IsTamperingError_def)

lemma IsTamperingError_simps [simp]:
  "IsTamperingError (TamperingErr t op)" "\<not> IsTamperingError (Errorf s)" "\<not> IsTamperingError (Wrapf s e)"
  by (simp_all add: IsTamperingError_def)

end
