(* ===== verification/Handler.thy ===== *)
theory Handler
  imports Events
begin

text \<open>
  Package internal/verify, file handler.go: HashChainHandler, which turns the change events
  of protected tables into stored hash entries and reports updates and deletions.

  The lemmas on the numbering of entries are proved once in the locale \<open>hash_store\<close>. They
  show what the numbering scheme does: numbers 1 to 10 are given out in order, and from
  then on every further entry is written over number 10, because the latest entry is found
  in the order of the decimal numerals as text, where 9 comes last.
\<close>

section \<open>State and operations\<close>

record TableConfig =
  tc_Name :: string
  tc_VerifyInterval :: string

text \<open>The alert manager is held by reference, here an address; no method of the handler uses it.\<close>

record HashChainHandler =
  tableConfigs :: "(string, TableConfig) gomap"
  h_alertManager :: "nat option"

definition NewHashChainHandler :: HashChainHandler where
  "NewHashChainHandler = \<lparr>tableConfigs = [], h_alertManager = None\<rparr>"

definition Handler_SetAlertManager :: "nat \<Rightarrow> HashChainHandler \<Rightarrow> HashChainHandler" where
  "Handler_SetAlertManager am h = h\<lparr>h_alertManager := Some am\<rparr>"

text \<open>The regular expression ^[a-zA-Z_][a-zA-Z0-9_]*$.\<close>

definition name_start :: "char \<Rightarrow> bool" where
  "name_start c \<longleftrightarrow> (97 \<le> byte c \<and> byte c \<le> 122) \<or> (65 \<le> byte c \<and> byte c \<le> 90) \<or> c = CHR ''_''"

definition name_char :: "char \<Rightarrow> bool" where
  "name_char c \<longleftrightarrow> name_start c \<or> (48 \<le> byte c \<and> byte c \<le> 57)"

fun validTableName :: "string \<Rightarrow> bool" where
  "validTableName [] = False"
| "validTableName (c # cs) = (name_start c \<and> list_all name_char cs)"

definition Handler_AddTable :: "TableConfig \<Rightarrow> HashChainHandler \<Rightarrow> HashChainHandler result" where
  "Handler_AddTable config h =
     (if \<not> validTableName (tc_Name config) then Inl (Errorf (''invalid table name: '' @ tc_Name config))
      else Inr (h\<lparr>tableConfigs := AList.update (tc_Name config) config (tableConfigs h)\<rparr>))"

text \<open>The sequence number of the next entry; an error of the lookup counts as no entry.\<close>

definition next_seq :: "HashEntry result \<Rightarrow> 64 word" where
  "next_seq latest = (case latest of Inl _ \<Rightarrow> 1 | Inr e \<Rightarrow> SequenceNum e + 1)"

definition make_entry ::
    "(string \<Rightarrow> string) \<Rightarrow> gotime \<Rightarrow> ChangeEvent \<Rightarrow> 64 word \<Rightarrow> HashEntry" where
  "make_entry H now event seqNum =
     \<lparr>TableName = ev_TableName event, SequenceNum = seqNum,
      DataHash = CalculateDataHash H (ev_NewData event), Timestamp = now,
      OperationType = ev_Operation event, RecordID = fmt_v_map (ev_PrimaryKey event)\<rparr>"

text \<open>HandleChange; \<open>now\<close> is what time.Now() returns. An error leaves the store as it was.\<close>

definition Handler_HandleChange ::
    "'db bolt \<Rightarrow> (string \<Rightarrow> string) \<Rightarrow> gotime \<Rightarrow> HashChainHandler \<Rightarrow> ChangeEvent \<Rightarrow> 'db \<Rightarrow> 'db result" where
  "Handler_HandleChange B H now h event db =
     (case map_of (tableConfigs h) (ev_TableName event) of
        None \<Rightarrow> Inr db
      | Some _ \<Rightarrow>
          if ev_Operation event = OperationUpdate \<or> ev_Operation event = OperationDelete
          then Inl (NewTamperingError (ev_TableName event) (ev_Operation event))
          else SaveHashEntry B
                 (make_entry H now event (next_seq (GetLatestHashEntry B (ev_TableName event) db))) db)"

definition Handler_VerifyHashChain :: "'db bolt \<Rightarrow> HashChainHandler \<Rightarrow> string \<Rightarrow> 'db \<Rightarrow> unit result" where
  "Handler_VerifyHashChain B h tableName db =
     (case map_of (tableConfigs h) tableName of
        None \<Rightarrow> Inl (Errorf (''table not configured: '' @ tableName))
      | Some _ \<Rightarrow>
          (case GetLatestHashEntry B tableName db of
             Inl _ \<Rightarrow> Inl (Errorf (''no hash entries found for table '' @ tableName))
           | Inr _ \<Rightarrow> Inr ()))"

text \<open>A stream of events, each with the time at which it is handled.\<close>

fun handle_all ::
    "'db bolt \<Rightarrow> (string \<Rightarrow> string) \<Rightarrow> HashChainHandler \<Rightarrow> (gotime \<times> ChangeEvent) list \<Rightarrow> 'db \<Rightarrow> 'db result" where
  "handle_all B H h [] db = Inr db"
| "handle_all B H h ((now, event) # events) db =
     bind_res (Handler_HandleChange B H now h event db) (handle_all B H h events)"

section \<open>Table names\<close>

text \<open>The invariant of a handler: its tables have valid names, which are keys of no other table.\<close>

definition handler_inv :: "HashChainHandler \<Rightarrow> bool" where
  "handler_inv h \<longleftrightarrow> gomap_ok (tableConfigs h)
     \<and> (\<forall>(t, c) \<in> set (tableConfigs h). tc_Name c = t \<and> validTableName t)"

lemma name_char_ascii: "name_char c \<Longrightarrow> byte c < 128 \<and> c \<noteq> CHR '':'' \<and> c \<noteq> CHR 0x22"
  by (auto simp: name_char_def name_start_def)

lemma validTableName_chars: "validTableName t \<Longrightarrow> c \<in> set t \<Longrightarrow> name_char c"
  by (cases t) (auto simp: list_all_iff name_char_def)

lemma validTableName_ok: "validTableName t \<Longrightarrow> table_ok t \<and> valid_utf8 t \<and> CHR 0x22 \<notin> set t"
  using validTableName_chars name_char_ascii by (fastforce simp: table_ok_def intro: valid_utf8_ascii)

lemma handler_inv_New: "handler_inv NewHashChainHandler"
  by (simp add: handler_inv_def NewHashChainHandler_def)

lemma set_update_subset: "set (AList.update k v m) \<subseteq> insert (k, v) (set m)"
  by (induction m) auto

lemma handler_inv_AddTable:
  assumes "handler_inv h" "Handler_AddTable c h = Inr h'"
  shows "handler_inv h'"
  using assms set_update_subset [of "tc_Name c" c "tableConfigs h"]
  by (auto simp: handler_inv_def Handler_AddTable_def distinct_update split: if_splits)

lemma handler_inv_lookup: "handler_inv h \<Longrightarrow> map_of (tableConfigs h) t = Some c \<Longrightarrow> validTableName t"
  by (auto simp: handler_inv_def dest: map_of_SomeD)

section \<open>The numbering of entries\<close>

lemma fmt_d_small: "n < 10 \<Longrightarrow> fmt_d n = [digit n]"
  by (subst fmt_d.simps) simp

lemma fmt_d_10: "fmt_d 10 = [digit 1, digit 0]"
  by (subst fmt_d.simps) (simp add: fmt_d_small)

lemma digit_less_iff: "m < 10 \<Longrightarrow> n < 10 \<Longrightarrow> digit m < digit n \<longleftrightarrow> m < n"
  by (simp add: less_char_def of_char_digit)

lemma digit_inject: "m < 10 \<Longrightarrow> n < 10 \<Longrightarrow> digit m = digit n \<longleftrightarrow> m = n"
  by (metis add_left_cancel of_char_digit)

lemma fmt_d_le_small: "m < 10 \<Longrightarrow> n < 10 \<Longrightarrow> fmt_d m \<le> fmt_d n \<longleftrightarrow> m \<le> n"
  by (auto simp: fmt_d_small digit_less_iff not_less [symmetric])

lemma fmt_d_9_not_le_10: "\<not> fmt_d 9 \<le> fmt_d 10"
  using digit_inject [of 9 1] digit_less_iff [of 9 1] by (simp add: fmt_d_small fmt_d_10)

text \<open>
  The last of the numerals 1 to \<open>n\<close> in text order is \<open>n\<close> up to nine, and 9 for ten.
\<close>

lemma text_maximum:
  assumes "1 \<le> n" "n \<le> 10" "m \<in> {1..n}" "\<And>i. i \<in> {1..n} \<Longrightarrow> fmt_d i \<le> fmt_d m"
  shows "m = min n 9"
proof (cases "n \<le> 9")
  case True
  with assms(1,3) assms(4) [of n] show ?thesis by (auto simp: fmt_d_le_small)
next
  case False
  with assms(2) have "n = 10" by simp
  moreover from this have "m \<noteq> 10" using assms(4) [of 9] fmt_d_9_not_le_10 by auto
  ultimately show ?thesis using assms(3) assms(4) [of 9] by (auto simp: fmt_d_le_small)
qed

context hash_store
begin

definition numbers :: "string \<Rightarrow> 'db \<Rightarrow> nat set" where
  "numbers t db = (\<lambda>e. unat (SequenceNum e)) ` set (entries t db)"

lemma card_numbers:
  assumes "inv db" "table_ok t"
  shows "card (numbers t db) = length (entries t db)"
proof -
  have "inj_on (\<lambda>e. unat (SequenceNum e)) (set (entries t db))"
    using entries_seq_unique [OF assms] by (auto simp: inj_on_def word_unat_eq_iff)
  then have "card (numbers t db) = card (set (entries t db))" by (simp add: numbers_def card_image)
  then show ?thesis using entries_distinct(2) [OF assms] by (simp add: distinct_card)
qed

lemma latest_number:
  assumes "inv db" "table_ok t" "numbers t db = {1..n}" "1 \<le> n" "n \<le> 10"
  shows "\<exists>e. latest t db = Inr e \<and> e \<in> set (entries t db) \<and> unat (SequenceNum e) = min n 9"
proof -
  have "entries t db \<noteq> []" using assms(3,4) by (auto simp: numbers_def)
  then have l: "latest t db = Inr (last (entries t db))" by (simp add: latest_entries)
  let ?e = "last (entries t db)"
  have e: "?e \<in> set (entries t db)" using \<open>entries t db \<noteq> []\<close> by simp
  have "unat (SequenceNum ?e) = min n 9"
  proof (rule text_maximum)
    show "unat (SequenceNum ?e) \<in> {1..n}" using e assms(3) by (auto simp: numbers_def)
    fix i assume "i \<in> {1..n}"
    then have "i \<in> numbers t db" using assms(3) by simp
    then obtain x where "x \<in> set (entries t db)" "unat (SequenceNum x) = i"
      by (auto simp: numbers_def)
    then show "fmt_d i \<le> fmt_d (unat (SequenceNum ?e))"
      using latest_maximal(2) [OF assms(1,2) l] by (auto simp: seq_text_def)
  qed (use assms in auto)
  with l e show ?thesis by blast
qed

lemma next_number:
  assumes "inv db" "table_ok t" "numbers t db = {1..n}" "n \<le> 10"
  shows "unat (next_seq (latest t db)) = min (Suc n) 10"
proof (cases "n = 0")
  case True
  with assms(3) have "entries t db = []" by (auto simp: numbers_def)
  with True show ?thesis by (simp add: latest_entries next_seq_def)
next
  case False
  then obtain e where "latest t db = Inr e" and n: "unat (SequenceNum e) = min n 9"
    using latest_number [OF assms(1-3)] assms(4) by auto
  moreover have "unat (SequenceNum e + 1) = Suc (unat (SequenceNum e))"
    using n by (simp add: unat_word_ariths)
  ultimately show ?thesis by (auto simp: next_seq_def min_def)
qed

text \<open>The numbers in use after one more entry, for a store that holds 1 to \<open>n\<close>.\<close>

lemma numbers_save:
  assumes "inv db" "entry_ok e" "save e db = Inr db'"
    and "numbers (TableName e) db = {1..n}" "n \<le> 10"
    and "SequenceNum e = next_seq (latest (TableName e) db)"
  shows "numbers (TableName e) db' = {1..min (Suc n) 10}"
proof -
  have t: "table_ok (TableName e)" using assms(2) by (simp add: entry_ok_def)
  have s: "unat (SequenceNum e) = min (Suc n) 10"
    unfolding assms(6) by (rule next_number [OF assms(1) t assms(4,5)])
  have "numbers (TableName e) db' =
      insert (unat (SequenceNum e)) (numbers (TableName e) db - {unat (SequenceNum e)})"
    by (auto simp: numbers_def entries_save [OF assms(1-3) t] word_unat_eq_iff)
  then show ?thesis using assms(4,5) s by auto
qed

end

section \<open>A stream of insertions\<close>

text \<open>
  An insertion into a protected table whose strings are UTF-8, so that its entry is stored
  without replacement characters.
\<close>

definition insertion :: "(string \<Rightarrow> string) \<Rightarrow> HashChainHandler \<Rightarrow> string \<Rightarrow> gotime \<times> ChangeEvent \<Rightarrow> bool" where
  "insertion H h t = (\<lambda>(now, event).
     ev_TableName event = t \<and> map_of (tableConfigs h) t \<noteq> None \<and> ev_Operation event = OperationInsert
     \<and> valid_utf8 now \<and> valid_utf8 (CalculateDataHash H (ev_NewData event))
     \<and> valid_utf8 (fmt_v_map (ev_PrimaryKey event)))"

text \<open>The number that the \<open>n\<close>-th insertion into a table gets.\<close>

definition chain_number :: "nat \<Rightarrow> nat" where
  "chain_number n = min n 10"

lemma unat_chain_number: "unat (of_nat (chain_number n) :: 64 word) = chain_number n"
  by (simp add: chain_number_def unat_of_nat)

text \<open>The entries of a stream: the one at position \<open>i\<close> gets number \<open>i + 1\<close>, but at most 10.\<close>

definition stream_entries :: "(string \<Rightarrow> string) \<Rightarrow> (gotime \<times> ChangeEvent) list \<Rightarrow> HashEntry list" where
  "stream_entries H events =
     map (\<lambda>i. make_entry H (fst (events ! i)) (snd (events ! i)) (of_nat (chain_number (Suc i)))) [0..<length events]"

text \<open>Those that survive: the first nine, and the last one written under number 10.\<close>

definition surviving :: "HashEntry list \<Rightarrow> HashEntry set" where
  "surviving es = set (take 9 es) \<union> (if 9 < length es then {last es} else {})"

lemma length_stream_entries [simp]: "length (stream_entries H events) = length events"
  by (simp add: stream_entries_def)

lemma stream_entries_snoc:
  "stream_entries H (events @ [e]) =
     stream_entries H events @ [make_entry H (fst e) (snd e) (of_nat (chain_number (Suc (length events))))]"
  by (simp add: stream_entries_def nth_append)

lemma stream_entries_number:
  "i < length events \<Longrightarrow> unat (SequenceNum (stream_entries H events ! i)) = chain_number (Suc i)"
  by (simp add: stream_entries_def make_entry_def unat_chain_number)

lemma take_stream_number:
  "x \<in> set (take 9 (stream_entries H events)) \<Longrightarrow> 1 \<le> unat (SequenceNum x) \<and> unat (SequenceNum x) \<le> min 9 (length events)"
  by (auto simp: in_set_conv_nth stream_entries_number chain_number_def)

lemma handle_all_snoc:
  "handle_all B H h (events @ [e]) db =
     bind_res (handle_all B H h events db) (Handler_HandleChange B H (fst e) h (snd e))"
proof (induction events arbitrary: db)
  case Nil
  show ?case by (cases e) (cases "Handler_HandleChange B H (fst e) h (snd e) db"; simp)
next
  case (Cons d events)
  show ?case by (cases d) (cases "Handler_HandleChange B H (fst d) h (snd d) db"; simp add: Cons.IH)
qed

lemma surviving_snoc:
  assumes "length es = length events" "es = stream_entries H events"
    and "unat (SequenceNum x) = chain_number (Suc (length events))"
  shows "surviving (es @ [x]) = insert x {y \<in> surviving es. SequenceNum y \<noteq> SequenceNum x}"
proof (cases "length es \<le> 9")
  case True
  have "SequenceNum y \<noteq> SequenceNum x" if "y \<in> set (take 9 es)" for y
    using take_stream_number [of y H events] that assms True by (auto simp: chain_number_def)
  with True show ?thesis by (cases "length es = 9") (auto simp: surviving_def)
next
  case False
  have "SequenceNum y \<noteq> SequenceNum x" if "y \<in> set (take 9 es)" for y
    using take_stream_number [of y H events] that assms False by (auto simp: chain_number_def)
  moreover have "SequenceNum (last es) = SequenceNum x"
  proof -
    have "events \<noteq> []" "es \<noteq> []" using False assms(1) by auto
    then show ?thesis
      using False assms stream_entries_number [of "length events - 1" events H]
      by (simp add: word_unat_eq_iff last_conv_nth chain_number_def)
  qed
  ultimately show ?thesis using False by (auto simp: surviving_def)
qed

lemma HandleChange_insertion:
  assumes "insertion H h t e"
  shows "Handler_HandleChange B H (fst e) h (snd e) db =
    SaveHashEntry B (make_entry H (fst e) (snd e) (next_seq (GetLatestHashEntry B t db))) db"
  using assms by (auto simp: insertion_def Handler_HandleChange_def)

lemma make_entry_ok:
  assumes "handler_inv h" "insertion H h t e"
  shows "entry_ok (make_entry H (fst e) (snd e) n)" "TableName (make_entry H (fst e) (snd e) n) = t"
proof -
  have "validTableName t" using assms handler_inv_lookup by (fastforce simp: insertion_def)
  then have t: "table_ok t" "valid_utf8 t" using validTableName_ok by auto
  have "valid_utf8 OperationInsert" by (simp add: OperationInsert_def valid_utf8_literal)
  with t assms(2) show "entry_ok (make_entry H (fst e) (snd e) n)"
    by (auto simp: make_entry_def entry_ok_def entry_utf8_def insertion_def)
  show "TableName (make_entry H (fst e) (snd e) n) = t"
    using assms(2) by (auto simp: make_entry_def insertion_def)
qed

context bolt_store
begin

text \<open>What a table's chain holds when a stream of insertions has been stored, kept by the next one.\<close>

definition chain_of :: "(string \<Rightarrow> string) \<Rightarrow> string \<Rightarrow> (gotime \<times> ChangeEvent) list \<Rightarrow> 'db \<Rightarrow> bool" where
  "chain_of H t events db \<longleftrightarrow> store_inv B db \<and> set (stored_entries B t db) = surviving (stream_entries H events)
     \<and> store.numbers t db = {1..min (length events) 10}"

lemma chain_of_empty: "store_inv B db \<Longrightarrow> stored_entries B t db = [] \<Longrightarrow> chain_of H t [] db"
  by (simp add: chain_of_def surviving_def stream_entries_def store.numbers_def)

lemma insertion_step:
  assumes "handler_inv h" "table_ok t" "chain_of H t events db"
    and ins: "insertion H h t e" and step: "Handler_HandleChange B H (fst e) h (snd e) db = Inr db'"
  shows "chain_of H t (events @ [e]) db'"
proof -
  let ?n = "length events"
  have IH: "store_inv B db" "set (stored_entries B t db) = surviving (stream_entries H events)"
    "store.numbers t db = {1..min ?n 10}"
    using assms(3) by (auto simp: chain_of_def)
  let ?x = "make_entry H (fst e) (snd e) (next_seq (GetLatestHashEntry B t db))"
  have seq: "unat (next_seq (GetLatestHashEntry B t db)) = chain_number (Suc ?n)"
    using store.next_number [OF IH(1) assms(2) IH(3)] by (auto simp: chain_number_def)
  then have x: "next_seq (GetLatestHashEntry B t db) = of_nat (chain_number (Suc ?n))"
    by (simp only: word_unat_eq_iff unat_chain_number)
  have ok: "entry_ok ?x" "TableName ?x = t" using make_entry_ok [OF assms(1) ins] by auto
  have save: "SaveHashEntry B ?x db = Inr db'" using step HandleChange_insertion [OF ins, of B db] by simp
  have num: "store.numbers t db' = {1..min (Suc (min ?n 10)) 10}"
    using store.numbers_save [OF IH(1) ok(1) save] IH(3) ok(2) by (simp add: make_entry_def)
  have "set (stored_entries B t db') = insert ?x {y \<in> surviving (stream_entries H events). SequenceNum y \<noteq> SequenceNum ?x}"
    using store.entries_save [OF IH(1) ok(1) save assms(2)] ok(2) IH(2) by simp
  also have "\<dots> = surviving (stream_entries H events @ [?x])"
    using seq by (intro surviving_snoc [symmetric]) (simp_all add: make_entry_def)
  finally show ?thesis
    using num SaveHashEntry_inv [OF IH(1) ok(1) save] by (simp add: stream_entries_snoc x chain_of_def)
qed

lemma insertions_run:
  assumes "handler_inv h" "store_inv B db" "stored_entries B t db = []"
    and "list_all (insertion H h t) events" "handle_all B H h events db = Inr db'" "table_ok t"
  shows "chain_of H t events db'"
  using assms(4,5)
proof (induction events arbitrary: db' rule: rev_induct)
  case Nil
  then show ?case using chain_of_empty [OF assms(2,3)] by simp
next
  case (snoc e events)
  then obtain db1 where run: "handle_all B H h events db = Inr db1"
    and step: "Handler_HandleChange B H (fst e) h (snd e) db1 = Inr db'" and ins: "insertion H h t e"
    by (auto simp: handle_all_snoc bind_res_eq_Inr_iff)
  have "chain_of H t events db1" using snoc.IH [OF _ run] snoc.prems(1) by simp
  from insertion_step [OF assms(1,6) this ins step] show ?case .
qed

lemma insertions_contents:
  assumes "handler_inv h" "store_inv B db" "stored_entries B t db = []"
    and "list_all (insertion H h t) events" "handle_all B H h events db = Inr db'" "table_ok t"
  shows "set (stored_entries B t db') = surviving (stream_entries H events)
    \<and> length (stored_entries B t db') = min (length events) 10"
  using insertions_run [OF assms] store.card_numbers [of db' t] assms(6) by (simp add: chain_of_def)

end

section \<open>Insertions are stored\<close>

text \<open>An event whose table name and entry are within the limits of bbolt.\<close>

definition event_small :: "(string \<Rightarrow> string) \<Rightarrow> gotime \<times> ChangeEvent \<Rightarrow> bool" where
  "event_small H e \<longleftrightarrow> length (ev_TableName (snd e)) \<le> 32000
     \<and> entry_size (make_entry H (fst e) (snd e) 0) \<le> 300000000"

context reliable_bolt
begin

lemma insertions_stored:
  assumes "list_all (insertion H h t) events" "list_all (event_small H) events"
  shows "\<exists>db'. handle_all B H h events db = Inr db'"
  using assms
proof (induction events arbitrary: db)
  case (Cons e events)
  let ?x = "make_entry H (fst e) (snd e) (next_seq (GetLatestHashEntry B t db))"
  have "length (TableName ?x) \<le> 32000" "entry_size ?x \<le> 300000000"
    using Cons.prems(2) by (simp_all add: event_small_def make_entry_def entry_size_def)
  then obtain db1 where "SaveHashEntry B ?x db = Inr db1" using SaveHashEntry_ok by blast
  moreover obtain now ev where "e = (now, ev)" by force
  ultimately show ?case
    using Cons HandleChange_insertion [of H h t e B db] by auto
qed simp

end

section \<open>Properties\<close>

text \<open>
  C1. Insertions into a protected table are all recorded without an
  error, but the table's chain never holds more than ten entries: it is the first nine of
  the stream and, under number 10, the last one; every entry between them has been
  overwritten.
\<close>

theorem insertions_chain:
  assumes "reliable_bolt B" "handler_inv h" "store_inv B db" "stored_entries B t db = []"
    and "map_of (tableConfigs h) t \<noteq> None"
    and "list_all (insertion H h t) events" "list_all (event_small H) events"
  shows "\<exists>db'. handle_all B H h events db = Inr db'
    \<and> set (stored_entries B t db') = surviving (stream_entries H events)
    \<and> length (stored_entries B t db') = min (length events) 10"
proof -
  have bolt: "bolt_store B" using assms(1) by (rule reliable_bolt.axioms)
  have t: "table_ok t" using assms(2,5) handler_inv_lookup validTableName_ok by blast
  obtain db' where run: "handle_all B H h events db = Inr db'"
    using reliable_bolt.insertions_stored [OF assms(1,6,7)] by blast
  then show ?thesis using bolt_store.insertions_contents [OF bolt assms(2-4,6) run t] by blast
qed

text \<open>Eleven insertions: the tenth one is gone.\<close>

definition sample_handler :: HashChainHandler where
  "sample_handler = \<lparr>tableConfigs = [(''logs'', \<lparr>tc_Name = ''logs'', tc_VerifyInterval = ''5m''\<rparr>)], h_alertManager = None\<rparr>"

definition sample_insert :: "nat \<Rightarrow> gotime \<times> ChangeEvent" where
  "sample_insert n =
     (''2024-01-01T00:00:00Z'',
      \<lparr>ev_TableName = ''logs'', ev_Operation = OperationInsert, ev_Timestamp = ''2024-01-01T00:00:00Z'',
       ev_NewData = [(''id'', GString (replicate n (CHR ''1'')))], ev_OldData = [],
       ev_PrimaryKey = [(''id'', GString (replicate n (CHR ''1'')))], ev_TransactionID = 7, ev_LSN = 0\<rparr>)"

definition sample_hash :: "string \<Rightarrow> string" where
  "sample_hash x = ''00''"

lemma sample_handler_inv: "handler_inv sample_handler" "map_of (tableConfigs sample_handler) ''logs'' \<noteq> None"
  by (simp_all add: handler_inv_def sample_handler_def name_start_def name_char_def)

lemma sample_stream:
  assumes "n \<le> 100"
  shows "list_all (insertion sample_hash sample_handler ''logs'') (map sample_insert [0..<n])"
    and "list_all (event_small sample_hash) (map sample_insert [0..<n])"
proof -
  show "list_all (insertion sample_hash sample_handler ''logs'') (map sample_insert [0..<n])"
    by (auto simp: list_all_iff insertion_def sample_insert_def sample_handler_def sample_hash_def
        CalculateDataHash_def fmt_v_map_def intro!: valid_utf8_ascii)
  show "list_all (event_small sample_hash) (map sample_insert [0..<n])"
    using assms by (auto simp: list_all_iff event_small_def sample_insert_def sample_hash_def entry_size_def
        make_entry_def CalculateDataHash_def fmt_v_map_def operation_defs)
qed

lemma stored_entries_empty: "stored_entries mem_bolt t [] = []"
  by (simp add: stored_entries_def mem_bolt_def mem_bucket_def scan_prefix_def)

theorem insertions_chain_witness:
  "\<exists>db'. handle_all mem_bolt sample_hash sample_handler (map sample_insert [0..<11]) [] = Inr db'
    \<and> set (stored_entries mem_bolt ''logs'' db') = surviving (stream_entries sample_hash (map sample_insert [0..<11]))
    \<and> length (stored_entries mem_bolt ''logs'' db') = 10"
  using insertions_chain [OF mem.reliable_bolt_axioms sample_handler_inv(1) store_inv_empty stored_entries_empty
      sample_handler_inv(2) sample_stream [of 11]]
  by simp

lemma handle_all_append:
  "handle_all B H h (xs @ ys) db = bind_res (handle_all B H h xs db) (handle_all B H h ys)"
proof (induction xs arbitrary: db)
  case (Cons x xs)
  show ?case by (cases x) (cases "Handler_HandleChange B H (fst x) h (snd x) db"; simp add: Cons.IH)
qed simp

text \<open>
  An UPDATE or DELETE of a protected table ends the stream of changes
  with a tampering error that names the table and the operation, after any events that were
  handled before it and whatever comes after it, and events of other tables change nothing.
\<close>

theorem tampering_reported:
  assumes "handle_all B H h before db = Inr db'" "map_of (tableConfigs h) (ev_TableName event) \<noteq> None"
    and "ev_Operation event = OperationUpdate \<or> ev_Operation event = OperationDelete"
    and "map_of (tableConfigs h) (ev_TableName other) = None"
  shows "handle_all B H h (before @ (now, event) # after) db = Inl (TamperingErr (ev_TableName event) (ev_Operation event))
    \<and> handle_all B H h (before @ [(now, other)]) db = Inr db'"
  using assms by (auto simp: handle_all_append Handler_HandleChange_def NewTamperingError_def)

theorem tampering_reported_witness:
  "handle_all mem_bolt sample_hash sample_handler
       ([] @ (''2024'', (snd (sample_insert 1))\<lparr>ev_Operation := OperationDelete\<rparr>) # [sample_insert 2]) [] =
     Inl (TamperingErr ''logs'' ''DELETE'')"
  using tampering_reported [of mem_bolt sample_hash sample_handler "[]" "[]" "[]"
      "(snd (sample_insert 1))\<lparr>ev_Operation := OperationDelete\<rparr>" "(snd (sample_insert 1))\<lparr>ev_TableName := ''other''\<rparr>"
      "''2024''" "[sample_insert 2]"]
  by (simp add: sample_handler_def sample_insert_def OperationDelete_def)

end
