(* ===== verification/BoltStore.thy ===== *)
theory BoltStore
  imports Bolt Hash
begin

text \<open>
  Package internal/consensus, file bbolt_store.go: BoltStore, the log store and stable store
  of the Raft library over bbolt.

  The abstract log is a map from indices to entries; the lemmas show that the operations
  implement it, that indices and keys have the same order, and that the entry encoding is
  read back.
\<close>

section \<open>Log entries\<close>

text \<open>
  The struct raft.Log. Of its fields Extensions and AppendedAt are neither written nor read
  by this store. \<open>zero_Log\<close> is its zero value, into which the Raft library reads an entry.
\<close>

record raft_Log =
  log_Index :: "64 word"
  log_Term :: "64 word"
  log_Type :: "8 word"
  log_Data :: bytes
  log_Extensions :: bytes
  log_AppendedAt :: gotime

definition zero_Log :: raft_Log where
  "zero_Log = \<lparr>log_Index = 0, log_Term = 0, log_Type = 0, log_Data = [], log_Extensions = [], log_AppendedAt = ''0001-01-01T00:00:00Z''\<rparr>"

definition encodeLog :: "raft_Log \<Rightarrow> bytes" where
  "encodeLog log =
     PutUint64 (log_Index log) @ PutUint64 (log_Term log) @ [char_of (unat (log_Type log))]
     @ be_bytes 4 (length (log_Data log) mod 2 ^ 32) @ log_Data log"

text \<open>
  decodeLog fills in the struct it is given: the result, and the struct afterwards. When the
  data is incomplete three of its fields have been set already.
\<close>

definition decodeLog :: "bytes \<Rightarrow> raft_Log \<Rightarrow> unit result \<times> raft_Log" where
  "decodeLog data log =
     (if length data < 21 then
        (Inl (Errorf (''log data too short: '' @ fmt_d (length data) @ '' bytes'')), log)
      else
        (let log1 = log\<lparr>log_Index := of_nat (be_value (take 8 data)), log_Term := of_nat (be_value (take 8 (drop 8 data))),
                        log_Type := of_nat (of_char (data ! 16))\<rparr>;
             dataLen = be_value (take 4 (drop 17 data)) in
         if length data < 21 + dataLen then
           (Inl (Errorf (''log data incomplete: expected '' @ fmt_d (21 + dataLen) @ '' bytes, got '' @ fmt_d (length data))), log1)
         else (Inr (), log1\<lparr>log_Data := take dataLen (drop 21 data)\<rparr>)))"

section \<open>Operations\<close>

definition logsBucket :: bytes where
  "logsBucket = ''logs''"

definition stableBucket :: bytes where
  "stableBucket = ''stable''"

definition BoltStore_initialize :: "'db bolt \<Rightarrow> 'db \<Rightarrow> 'db result" where
  "BoltStore_initialize B =
     db_Update B (\<lambda>tx.
       bind_res (wrap ''failed to create logs bucket'' (bolt_create B tx logsBucket)) (\<lambda>tx.
       wrap ''failed to create stable bucket'' (bolt_create B tx stableBucket)))"

definition NewBoltStore :: "'db bolt \<Rightarrow> 'db result \<Rightarrow> 'db result" where
  "NewBoltStore B opened =
     bind_res (wrap ''failed to open bolt database'' opened) (\<lambda>db.
       wrap ''failed to initialize buckets'' (BoltStore_initialize B db))"

text \<open>binary.BigEndian.Uint64: it panics on fewer than eight bytes, which is \<^const>\<open>None\<close>.\<close>

definition Uint64 :: "bytes \<Rightarrow> 64 word option" where
  "Uint64 bs = (if length bs < 8 then None else Some (of_nat (be_value (take 8 bs))))"

definition FirstIndex :: "'db bolt \<Rightarrow> 'db \<Rightarrow> 64 word option" where
  "FirstIndex B db =
     (case bolt_pairs B db logsBucket of [] \<Rightarrow> Some 0 | (k, v) # kvs \<Rightarrow> Uint64 k)"

definition LastIndex :: "'db bolt \<Rightarrow> 'db \<Rightarrow> 64 word option" where
  "LastIndex B db =
     (if bolt_pairs B db logsBucket = [] then Some 0 else Uint64 (fst (last (bolt_pairs B db logsBucket))))"

definition ErrLogNotFound :: goerror where
  "ErrLogNotFound = Errorf ''log not found''"

definition GetLog :: "'db bolt \<Rightarrow> 64 word \<Rightarrow> raft_Log \<Rightarrow> 'db \<Rightarrow> unit result \<times> raft_Log" where
  "GetLog B index log db =
     (case bolt_get B db logsBucket (PutUint64 index) of
        None \<Rightarrow> (Inl ErrLogNotFound, log)
      | Some val \<Rightarrow> decodeLog val log)"

fun store_loop :: "'db bolt \<Rightarrow> raft_Log list \<Rightarrow> 'db \<Rightarrow> 'db result" where
  "store_loop B [] tx = Inr tx"
| "store_loop B (log # logs) tx =
     bind_res (wrap ''failed to store log'' (bolt_put B tx logsBucket (PutUint64 (log_Index log)) (encodeLog log)))
       (store_loop B logs)"

definition StoreLogs :: "'db bolt \<Rightarrow> raft_Log list \<Rightarrow> 'db \<Rightarrow> 'db result" where
  "StoreLogs B logs = db_Update B (store_loop B logs)"

definition StoreLog :: "'db bolt \<Rightarrow> raft_Log \<Rightarrow> 'db \<Rightarrow> 'db result" where
  "StoreLog B log = StoreLogs B [log]"

text \<open>
  The cursor of DeleteRange: Seek in a bucket, and Next, which is called after the bucket has
  been changed. Its own state is of type \<open>'c\<close>. The keys are what the loop uses.
\<close>

record ('db, 'c) cursor =
  cursor_Seek :: "'db \<Rightarrow> bytes \<Rightarrow> bytes \<Rightarrow> bytes option \<times> 'c"
  cursor_Next :: "'db \<Rightarrow> 'c \<Rightarrow> bytes option \<times> 'c"

text \<open>
  The loop of DeleteRange: it ends without a key or at the first index above the range.
  \<^const>\<open>None\<close> is a loop that does not end or the panic of a key that is too short.
\<close>

partial_function (option) delete_loop ::
    "'db bolt \<Rightarrow> ('db, 'c) cursor \<Rightarrow> 64 word \<Rightarrow> bytes option \<times> 'c \<Rightarrow> 'db \<Rightarrow> 'db result option" where
  "delete_loop B C hi at tx =
     (case fst at of
        None \<Rightarrow> Some (Inr tx)
      | Some k \<Rightarrow>
          (case Uint64 k of
             None \<Rightarrow> None
           | Some i \<Rightarrow>
               if i \<le> hi then
                 (case wrap ''failed to delete log entry'' (bolt_delete B tx logsBucket k) of
                    Inl err \<Rightarrow> Some (Inl err)
                  | Inr tx' \<Rightarrow> delete_loop B C hi (cursor_Next C tx' (snd at)) tx')
               else Some (Inr tx)))"

definition DeleteRange :: "'db bolt \<Rightarrow> ('db, 'c) cursor \<Rightarrow> 64 word \<Rightarrow> 64 word \<Rightarrow> 'db \<Rightarrow> 'db result option" where
  "DeleteRange B C lo hi db =
     map_option (\<lambda>r. bind_res r (bolt_commit B))
       (delete_loop B C hi (cursor_Seek C db logsBucket (PutUint64 lo)) db)"

definition BoltStore_Set :: "'db bolt \<Rightarrow> bytes \<Rightarrow> bytes \<Rightarrow> 'db \<Rightarrow> 'db result" where
  "BoltStore_Set B key val = db_Update B (\<lambda>tx. bolt_put B tx stableBucket key val)"

text \<open>An absent key reads as the empty slice.\<close>

definition BoltStore_Get :: "'db bolt \<Rightarrow> bytes \<Rightarrow> 'db \<Rightarrow> bytes" where
  "BoltStore_Get B key db = (case bolt_get B db stableBucket key of None \<Rightarrow> [] | Some v \<Rightarrow> v)"

definition SetUint64 :: "'db bolt \<Rightarrow> bytes \<Rightarrow> 64 word \<Rightarrow> 'db \<Rightarrow> 'db result" where
  "SetUint64 B key val = BoltStore_Set B key (PutUint64 val)"

definition GetUint64 :: "'db bolt \<Rightarrow> bytes \<Rightarrow> 'db \<Rightarrow> 64 word result" where
  "GetUint64 B key db =
     (let val = BoltStore_Get B key db in
      if length val = 0 then Inr 0
      else if length val \<noteq> 8 then Inl (Errorf (''invalid uint64 value length: '' @ fmt_d (length val)))
      else Inr (of_nat (be_value val)))"

section \<open>Encoding\<close>

text \<open>What is read back: the data as far as its length fits the four-byte field, and no other field.\<close>

lemma decode_encode:
  "decodeLog (encodeLog log) log0 =
     (Inr (), log0\<lparr>log_Index := log_Index log, log_Term := log_Term log, log_Type := log_Type log,
                   log_Data := take (length (log_Data log) mod 2 ^ 32) (log_Data log)\<rparr>)"
proof -
  let ?a = "PutUint64 (log_Index log)" and ?b = "PutUint64 (log_Term log)" and ?d = "log_Data log"
  let ?n = "length ?d mod 2 ^ 32"
  have "be_value (take 4 (drop 17 (encodeLog log))) = ?n"
    by (simp add: encodeLog_def be_value_be_bytes)
  moreover have "?n \<le> length ?d" by simp
  moreover have "unat (log_Type log) < 256" using unsigned_less [of "log_Type log", where ?'a = nat] by simp
  ultimately show ?thesis
    by (simp add: decodeLog_def encodeLog_def nth_append Let_def not_less [symmetric])
qed

section \<open>The contract of a log store\<close>

text \<open>An entry whose data fits the four-byte length field.\<close>

definition log_ok :: "raft_Log \<Rightarrow> bool" where
  "log_ok l \<longleftrightarrow> length (log_Data l) < 2 ^ 32"

text \<open>What the store keeps of an entry.\<close>

definition stored_part :: "raft_Log \<Rightarrow> raft_Log" where
  "stored_part l = zero_Log\<lparr>log_Index := log_Index l, log_Term := log_Term l, log_Type := log_Type l, log_Data := log_Data l\<rparr>"

lemma stored_part_simps [simp]:
  "log_Index (stored_part l) = log_Index l" "log_Data (stored_part l) = log_Data l"
  "stored_part (stored_part l) = stored_part l" "encodeLog (stored_part l) = encodeLog l"
  by (simp_all add: stored_part_def encodeLog_def)

lemma decode_encode_Log: "log_ok l \<Longrightarrow> decodeLog (encodeLog l) zero_Log = (Inr (), stored_part l)"
  by (simp add: decode_encode stored_part_def log_ok_def)

definition by_index :: "raft_Log list \<Rightarrow> 64 word \<rightharpoonup> raft_Log" where
  "by_index logs = map_of (rev (map (\<lambda>l. (log_Index l, l)) logs))"

text \<open>
  What the Raft library expects of a LogStore, with the log as a map from indices to entries.
  FirstIndex and LastIndex are 0 for the empty log.
\<close>

locale log_store =
  fixes inv :: "'db \<Rightarrow> bool"
    and lookup :: "'db \<Rightarrow> 64 word \<rightharpoonup> raft_Log"
    and store :: "raft_Log list \<Rightarrow> 'db \<Rightarrow> 'db result"
    and first_index :: "'db \<Rightarrow> 64 word option"
    and last_index :: "'db \<Rightarrow> 64 word option"
  assumes lookup_index: "inv db \<Longrightarrow> lookup db i = Some l \<Longrightarrow> log_Index l = i"
    and store_inv: "inv db \<Longrightarrow> list_all log_ok ls \<Longrightarrow> store ls db = Inr db' \<Longrightarrow> inv db'"
    and lookup_store: "inv db \<Longrightarrow> list_all log_ok ls \<Longrightarrow> store ls db = Inr db' \<Longrightarrow> lookup db' = lookup db ++ (map_option stored_part \<circ> by_index ls)"
    and first_index: "inv db \<Longrightarrow> first_index db = Some (if dom (lookup db) = {} then 0 else Min (dom (lookup db)))"
    and last_index: "inv db \<Longrightarrow> last_index db = Some (if dom (lookup db) = {} then 0 else Max (dom (lookup db)))"
begin

lemma dom_by_index: "dom (by_index ls) = log_Index ` set ls"
  by (auto simp: by_index_def dom_map_of_conv_image_fst image_image)

lemma last_index_ge:
  assumes "inv db" "last_index db = Some n" "i \<in> dom (lookup db)"
  shows "i \<le> n"
proof -
  have "dom (lookup db) \<noteq> {}" using assms(3) by blast
  then have "n = Max (dom (lookup db))" using assms(2) unfolding last_index [OF assms(1)] by simp
  then show ?thesis using Max_ge [OF finite assms(3)] by simp
qed

text \<open>Writing entries above the last index moves it to the greatest of theirs.\<close>

lemma append_last_index:
  assumes "inv db" "list_all log_ok ls" "ls \<noteq> []" "store ls db = Inr db'"
    and "last_index db = Some n" "\<And>l. l \<in> set ls \<Longrightarrow> n < log_Index l"
  shows "last_index db' = Some (Max (log_Index ` set ls))"
proof -
  have dom: "dom (lookup db') = dom (lookup db) \<union> log_Index ` set ls"
    by (simp add: lookup_store [OF assms(1,2,4)] dom_by_index Un_commute)
  have n: "i \<le> n" if "i \<in> dom (lookup db)" for i
    using last_index_ge [OF assms(1,5) that] .
  have "Max (dom (lookup db')) = Max (log_Index ` set ls)"
  proof (rule Max_eqI)
    fix i assume "i \<in> dom (lookup db')"
    then consider "i \<le> n" | "i \<in> log_Index ` set ls" using dom n by blast
    then show "i \<le> Max (log_Index ` set ls)"
    proof cases
      case 1
      obtain l where l: "l \<in> set ls" using assms(3) by (cases ls) auto
      from assms(6) [OF this] 1 have "i \<le> log_Index l" by simp
      also have "\<dots> \<le> Max (log_Index ` set ls)" using l by simp
      finally show ?thesis .
    qed simp
  next
    show "Max (log_Index ` set ls) \<in> dom (lookup db')"
      unfolding dom using assms(3) Max_in [of "log_Index ` set ls"] by simp
  qed simp
  moreover have "dom (lookup db') \<noteq> {}" using dom assms(3) by simp
  ultimately show ?thesis by (simp add: last_index [OF store_inv [OF assms(1,2,4)]])
qed

end

section \<open>BoltStore is a log store\<close>

definition log_inv :: "'db bolt \<Rightarrow> 'db \<Rightarrow> bool" where
  "log_inv B db \<longleftrightarrow>
     (\<forall>k v. bolt_get B db logsBucket k = Some v \<longrightarrow> (\<exists>l. log_ok l \<and> k = PutUint64 (log_Index l) \<and> v = encodeLog l))"

definition log_abs :: "'db bolt \<Rightarrow> 'db \<Rightarrow> 64 word \<rightharpoonup> raft_Log" where
  "log_abs B db i = (case GetLog B i zero_Log db of (Inl _, _) \<Rightarrow> None | (Inr _, l) \<Rightarrow> Some l)"

lemma sorted_filters:
  assumes "sorted (map f xs)"
  shows "dropWhile (\<lambda>x. f x < a) xs = filter (\<lambda>x. a \<le> f x) xs"
    and "takeWhile (\<lambda>x. f x \<le> b) xs = filter (\<lambda>x. f x \<le> b) xs"
  using assms
proof (induction xs)
  case (Cons x xs)
  {
    case 1
    have "filter (\<lambda>y. a \<le> f y) xs = xs" if "a \<le> f x" using 1 that by (auto intro!: filter_True)
    with 1 Cons.IH(1) show ?case by (auto simp: not_le)
  next
    case 2
    have "filter (\<lambda>y. f y \<le> b) xs = []" if "b < f x" using 2 that by (auto simp: filter_empty_conv)
    with 2 Cons.IH(2) show ?case by (auto simp: not_le)
  }
qed simp_all

lemma Uint64_PutUint64 [simp]: "Uint64 (PutUint64 i) = Some i"
  by (simp add: Uint64_def)

context bolt_store
begin

lemma log_invD:
  assumes "log_inv B db" "bolt_get B db logsBucket k = Some v"
  shows "\<exists>l. log_ok l \<and> k = PutUint64 (log_Index l) \<and> v = encodeLog l"
  using assms by (auto simp: log_inv_def)

lemma log_abs_iff:
  assumes "log_inv B db"
  shows "log_abs B db i = Some l \<longleftrightarrow>
    (\<exists>l'. bolt_get B db logsBucket (PutUint64 i) = Some (encodeLog l') \<and> log_ok l' \<and> log_Index l' = i \<and> l = stored_part l')"
proof
  assume "log_abs B db i = Some l"
  then obtain v where v: "bolt_get B db logsBucket (PutUint64 i) = Some v" "decodeLog v zero_Log = (Inr (), l)"
    by (auto simp: log_abs_def GetLog_def split: option.splits sum.splits prod.splits)
  then obtain l' where l': "log_ok l'" "PutUint64 i = PutUint64 (log_Index l')" "v = encodeLog l'"
    using log_invD [OF assms] by blast
  then have "l = stored_part l'" using v(2) by (simp add: decode_encode_Log)
  with v l' show "\<exists>l'. bolt_get B db logsBucket (PutUint64 i) = Some (encodeLog l') \<and> log_ok l' \<and> log_Index l' = i \<and> l = stored_part l'"
    by auto
next
  assume "\<exists>l'. bolt_get B db logsBucket (PutUint64 i) = Some (encodeLog l') \<and> log_ok l' \<and> log_Index l' = i \<and> l = stored_part l'"
  then show "log_abs B db i = Some l" by (auto simp: log_abs_def GetLog_def decode_encode_Log)
qed

lemma log_abs_dom:
  assumes "log_inv B db"
  shows "i \<in> dom (log_abs B db) \<longleftrightarrow> bolt_get B db logsBucket (PutUint64 i) \<noteq> None"
proof
  assume "bolt_get B db logsBucket (PutUint64 i) \<noteq> None"
  then obtain v where v: "bolt_get B db logsBucket (PutUint64 i) = Some v" by blast
  from log_invD [OF assms v] obtain l where "log_ok l" "PutUint64 i = PutUint64 (log_Index l)" "v = encodeLog l" by blast
  with v have "log_abs B db i = Some (stored_part l)" by (auto simp: log_abs_iff [OF assms])
  then show "i \<in> dom (log_abs B db)" by blast
qed (auto simp: log_abs_iff [OF assms])

text \<open>The indices in the order of the keys.\<close>

definition indices :: "'db \<Rightarrow> 64 word list" where
  "indices db = map (\<lambda>(k, v). of_nat (be_value k)) (bolt_pairs B db logsBucket)"

lemma keys_indices:
  assumes "log_inv B db"
  shows "map fst (bolt_pairs B db logsBucket) = map PutUint64 (indices db)"
proof -
  have "k = PutUint64 (of_nat (be_value k))" if "(k, v) \<in> set (bolt_pairs B db logsBucket)" for k v
    using that log_invD [OF assms, of k v] by (auto simp: in_pairs_iff)
  then show ?thesis by (auto simp: indices_def)
qed

lemma indices_facts:
  assumes "log_inv B db"
  shows "sorted_wrt (<) (indices db)" "set (indices db) = dom (log_abs B db)"
proof -
  have "sorted_wrt (<) (map PutUint64 (indices db))"
    using pairs_sorted [of db logsBucket] pairs_distinct [of db logsBucket]
    by (simp add: strict_sorted_iff keys_indices [OF assms, symmetric])
  then show "sorted_wrt (<) (indices db)" by (simp add: sorted_wrt_map)
  have "i \<in> set (indices db) \<longleftrightarrow> PutUint64 i \<in> set (map PutUint64 (indices db))" for i by auto
  also have "\<dots> i \<longleftrightarrow> bolt_get B db logsBucket (PutUint64 i) \<noteq> None" for i
    unfolding keys_indices [OF assms, symmetric] pairs_get [symmetric] by (simp add: map_of_eq_None_iff)
  finally have "i \<in> set (indices db) \<longleftrightarrow> i \<in> dom (log_abs B db)" for i unfolding log_abs_dom [OF assms] .
  then show "set (indices db) = dom (log_abs B db)" by blast
qed

end

context bolt_store
begin

lemma strict_sorted_hd_last:
  assumes "sorted_wrt (<) (xs :: 64 word list)" "xs \<noteq> []"
  shows "hd xs = Min (set xs)" "last xs = Max (set xs)"
proof -
  have srt: "sorted xs" using assms(1) by (simp add: strict_sorted_iff)
  have "hd xs \<le> x \<and> x \<le> last xs" if "x \<in> set xs" for x
  proof -
    from that obtain i where i: "i < length xs" "x = xs ! i" by (auto simp: in_set_conv_nth)
    have "xs ! 0 \<le> xs ! i" "xs ! i \<le> xs ! (length xs - 1)" using srt i by (auto intro: sorted_nth_mono)
    then show ?thesis using assms(2) i by (simp add: hd_conv_nth last_conv_nth)
  qed
  then show "hd xs = Min (set xs)" "last xs = Max (set xs)"
    using assms(2) by (auto intro!: Min_eqI [symmetric] Max_eqI [symmetric])
qed

lemma FirstIndex_eq:
  assumes "log_inv B db"
  shows "FirstIndex B db = Some (if dom (log_abs B db) = {} then 0 else Min (dom (log_abs B db)))"
proof (cases "bolt_pairs B db logsBucket")
  case Nil
  then have "indices db = []" by (simp add: indices_def)
  then have "dom (log_abs B db) = {}" using indices_facts(2) [OF assms] by simp
  with Nil show ?thesis by (simp add: FirstIndex_def)
next
  case (Cons kv kvs)
  then obtain i rest where ids: "indices db = i # rest" by (auto simp: indices_def)
  obtain k v where kv: "kv = (k, v)" by force
  have "map fst (bolt_pairs B db logsBucket) = PutUint64 i # map PutUint64 rest"
    using keys_indices [OF assms] ids by simp
  then have "k = PutUint64 i" using Cons kv by simp
  then have "FirstIndex B db = Some (hd (indices db))" using Cons kv ids by (simp add: FirstIndex_def)
  also have "hd (indices db) = Min (dom (log_abs B db))"
    using strict_sorted_hd_last(1) [OF indices_facts(1) [OF assms]] indices_facts(2) [OF assms] ids by simp
  finally show ?thesis using indices_facts(2) [OF assms] ids by auto
qed

lemma LastIndex_eq:
  assumes "log_inv B db"
  shows "LastIndex B db = Some (if dom (log_abs B db) = {} then 0 else Max (dom (log_abs B db)))"
proof (cases "bolt_pairs B db logsBucket = []")
  case True
  then have "indices db = []" by (simp add: indices_def)
  then have "dom (log_abs B db) = {}" using indices_facts(2) [OF assms] by simp
  with True show ?thesis by (simp add: LastIndex_def)
next
  case False
  then have ne: "indices db \<noteq> []" by (simp add: indices_def)
  have "fst (last (bolt_pairs B db logsBucket)) = last (map fst (bolt_pairs B db logsBucket))"
    using False by (simp add: last_map)
  also have "\<dots> = PutUint64 (last (indices db))" using ne by (simp add: keys_indices [OF assms] last_map)
  finally have "LastIndex B db = Some (last (indices db))" using False by (simp add: LastIndex_def)
  also have "last (indices db) = Max (dom (log_abs B db))"
    using strict_sorted_hd_last(2) [OF indices_facts(1) [OF assms] ne] indices_facts(2) [OF assms] by simp
  finally have "LastIndex B db = Some (Max (dom (log_abs B db)))" .
  moreover have "set (indices db) \<noteq> {}" using ne by simp
  ultimately show ?thesis unfolding indices_facts(2) [OF assms] by (simp only: if_False)
qed

lemma store_loop_get:
  "store_loop B ls tx = Inr tx' \<Longrightarrow>
   bolt_get B tx' b k = (if b = logsBucket then
      (bolt_get B tx b ++ map_of (rev (map (\<lambda>l. (PutUint64 (log_Index l), encodeLog l)) ls))) k else bolt_get B tx b k)"
proof (induction ls arbitrary: tx)
  case (Cons l ls)
  then obtain tx1 where tx1: "bolt_put B tx logsBucket (PutUint64 (log_Index l)) (encodeLog l) = Inr tx1"
    "store_loop B ls tx1 = Inr tx'" by (auto simp: bind_res_eq_Inr_iff)
  have g: "bolt_get B tx1 logsBucket = (bolt_get B tx logsBucket)(PutUint64 (log_Index l) \<mapsto> encodeLog l)"
    by (rule ext) (simp add: get_put [OF tx1(1)])
  have o: "bolt_get B tx1 b = bolt_get B tx b" if "b \<noteq> logsBucket"
    using that by (intro ext) (simp add: get_put [OF tx1(1)])
  show ?case using Cons.IH [OF tx1(2)] by (cases "b = logsBucket") (simp_all add: g o)
qed simp

end

context bolt_store
begin

lemma StoreLogs_get:
  assumes "StoreLogs B ls db = Inr db'"
  shows "bolt_get B db' logsBucket =
    bolt_get B db logsBucket ++ map_of (rev (map (\<lambda>l. (PutUint64 (log_Index l), encodeLog l)) ls))"
proof -
  obtain tx where tx: "store_loop B ls db = Inr tx" "bolt_commit B tx = Inr db'"
    using assms by (auto simp: StoreLogs_def db_Update_def bind_res_eq_Inr_iff)
  show ?thesis
    by (rule ext) (simp add: get_commit [OF tx(2)] store_loop_get [OF tx(1)])
qed

lemma map_of_encoded:
  "map_of (rev (map (\<lambda>l. (PutUint64 (log_Index l), encodeLog l)) ls)) (PutUint64 i) = map_option encodeLog (by_index ls i)"
  unfolding by_index_def by (induction ls rule: rev_induct) (auto simp: map_add_def split: option.splits)

lemma by_index_Some: "by_index ls i = Some l \<Longrightarrow> l \<in> set ls \<and> log_Index l = i"
  by (auto simp: by_index_def dest!: map_of_SomeD)

lemma StoreLogs_inv:
  assumes "log_inv B db" "list_all log_ok ls" "StoreLogs B ls db = Inr db'"
  shows "log_inv B db'"
  unfolding log_inv_def StoreLogs_get [OF assms(3)]
proof (intro allI impI)
  fix k v
  assume "(bolt_get B db logsBucket ++ map_of (rev (map (\<lambda>l. (PutUint64 (log_Index l), encodeLog l)) ls))) k = Some v"
  then consider "bolt_get B db logsBucket k = Some v"
    | "map_of (rev (map (\<lambda>l. (PutUint64 (log_Index l), encodeLog l)) ls)) k = Some v" by (auto simp: map_add_Some_iff)
  then show "\<exists>l. log_ok l \<and> k = PutUint64 (log_Index l) \<and> v = encodeLog l"
  proof cases
    case 1
    then show ?thesis using log_invD [OF assms(1)] by blast
  next
    case 2
    then obtain l where "l \<in> set ls" "k = PutUint64 (log_Index l)" "v = encodeLog l" by (auto dest!: map_of_SomeD)
    then show ?thesis using assms(2) by (auto simp: list_all_iff)
  qed
qed

lemma StoreLogs_abs:
  assumes "log_inv B db" "list_all log_ok ls" "StoreLogs B ls db = Inr db'"
  shows "log_abs B db' = log_abs B db ++ (map_option stored_part \<circ> by_index ls)"
proof
  fix i
  have g: "bolt_get B db' logsBucket (PutUint64 i) =
      (case by_index ls i of None \<Rightarrow> bolt_get B db logsBucket (PutUint64 i) | Some l \<Rightarrow> Some (encodeLog l))"
    by (simp add: StoreLogs_get [OF assms(3)] map_add_def map_of_encoded split: option.splits)
  show "log_abs B db' i = (log_abs B db ++ (map_option stored_part \<circ> by_index ls)) i"
  proof (cases "by_index ls i")
    case None
    with g show ?thesis by (simp add: log_abs_def GetLog_def map_add_def)
  next
    case (Some l)
    then have "log_ok l" using by_index_Some assms(2) by (fastforce simp: list_all_iff)
    with g Some show ?thesis by (simp add: log_abs_def GetLog_def map_add_def decode_encode_Log)
  qed
qed

end

sublocale bolt_store \<subseteq> log: log_store "log_inv B" "log_abs B" "StoreLogs B" "FirstIndex B" "LastIndex B"
proof
  show "log_inv B db \<Longrightarrow> log_abs B db i = Some l \<Longrightarrow> log_Index l = i" for db i l by (auto simp: log_abs_iff)
qed (fact StoreLogs_inv StoreLogs_abs FirstIndex_eq LastIndex_eq)+

context bolt_store
begin

lemmas append_last = log.append_last_index

end

context reliable_bolt
begin

lemma StoreLogs_ok:
  assumes "list_all (\<lambda>l. length (log_Data l) \<le> 2000000000) ls"
  shows "\<exists>db'. StoreLogs B ls db = Inr db'"
proof -
  have "\<exists>tx'. store_loop B ls tx = Inr tx'" for tx
    using assms
  proof (induction ls arbitrary: tx)
    case (Cons l ls)
    have ne: "PutUint64 (log_Index l) \<noteq> []" using PutUint64_facts(1) [of "log_Index l"] by fastforce
    have "\<exists>tx1. bolt_put B tx logsBucket (PutUint64 (log_Index l)) (encodeLog l) = Inr tx1"
      using Cons.prems by (intro put_ok [OF ne]) (simp_all add: max_key_size_def max_value_size_def encodeLog_def)
    then show ?case using Cons by auto
  qed simp
  then obtain tx where tx: "store_loop B ls db = Inr tx" by blast
  obtain db' where "bolt_commit B tx = Inr db'" using commit_ok by blast
  with tx show ?thesis by (simp add: StoreLogs_def db_Update_def)
qed

end

section \<open>Deleting a range\<close>

text \<open>
  What bbolt documents of a cursor: Seek finds the first key that is not below the given one.
  Of Next it documents nothing once the bucket has been changed: the cursor may be
  invalidated and return unexpected keys.
\<close>

locale bolt_cursor = bolt_store B for B :: "'db bolt" +
  fixes C :: "('db, 'c) cursor"
  assumes seek_first: "fst (cursor_Seek C db b k) = map_option fst (find (\<lambda>(k', v). k \<le> k') (bolt_pairs B db b))"

text \<open>A cursor that visits the keys that were there at Seek, whatever becomes of the bucket.\<close>

locale steady_cursor = bolt_cursor B C for B :: "'db bolt" and C :: "('db, 'c) cursor" +
  fixes rest :: "'c \<Rightarrow> bytes list"
  assumes seek_rest: "rest (snd (cursor_Seek C db b k)) = tl (map fst (filter (\<lambda>(k', v). k \<le> k') (bolt_pairs B db b)))"
    and next_rest: "fst (cursor_Next C tx c) = (case rest c of [] \<Rightarrow> None | k # ks \<Rightarrow> Some k)"
      "rest (snd (cursor_Next C tx c)) = tl (rest c)"

text \<open>Cursors over a list of keys: one that keeps the keys, and one that ends after a change.\<close>

definition list_cursor :: "'db bolt \<Rightarrow> ('db, bytes list) cursor" where
  "list_cursor B =
     \<lparr>cursor_Seek = (\<lambda>db b k. case map fst (filter (\<lambda>(k', v). k \<le> k') (bolt_pairs B db b)) of
                        [] \<Rightarrow> (None, []) | k' # ks \<Rightarrow> (Some k', ks)),
      cursor_Next = (\<lambda>db c. case c of [] \<Rightarrow> (None, []) | k' # ks \<Rightarrow> (Some k', ks))\<rparr>"

definition short_cursor :: "'db bolt \<Rightarrow> ('db, unit) cursor" where
  "short_cursor B =
     \<lparr>cursor_Seek = (\<lambda>db b k. (map_option fst (find (\<lambda>(k', v). k \<le> k') (bolt_pairs B db b)), ())),
      cursor_Next = (\<lambda>db c. (None, ()))\<rparr>"

lemma find_hd_filter: "find P xs = (case filter P xs of [] \<Rightarrow> None | x # _ \<Rightarrow> Some x)"
  by (induction xs) auto

interpretation mem_cursor: steady_cursor mem_bolt "list_cursor mem_bolt" "\<lambda>ks. ks"
  by unfold_locales (auto simp: list_cursor_def find_hd_filter split: list.splits)

interpretation mem_short: bolt_cursor mem_bolt "short_cursor mem_bolt"
  by unfold_locales (simp add: short_cursor_def)

text \<open>The keys that the loop deletes are within the range upwards, whatever the cursor does.\<close>

definition deletes :: "'db bolt \<Rightarrow> 64 word \<Rightarrow> bytes option \<Rightarrow> 'db \<Rightarrow> 'db \<Rightarrow> bytes list \<Rightarrow> bool" where
  "deletes B hi k tx tx' ks \<longleftrightarrow> (\<forall>k \<in> set ks. \<exists>i \<le> hi. Uint64 k = Some i)
    \<and> (\<forall>b k. bolt_get B tx' b k = (if b = logsBucket \<and> k \<in> set ks then None else bolt_get B tx b k))
    \<and> (case k of None \<Rightarrow> ks = [] | Some k \<Rightarrow> (\<forall>i. Uint64 k = Some i \<longrightarrow> (if i \<le> hi then k \<in> set ks else ks = [])))"

lemma delete_loop_deletes:
  assumes "bolt_store B" "delete_loop B C hi at tx = Some (Inr tx')"
  shows "\<exists>ks. deletes B hi (fst at) tx tx' ks"
proof -
  have "bolt_store B \<longrightarrow> Inr tx' = r \<longrightarrow> (\<exists>ks. deletes B hi (fst at) tx tx' ks)" if "delete_loop B C hi at tx = Some r" for r
    using that
  proof (rule delete_loop.raw_induct [where P = "\<lambda>B C hi at tx r. bolt_store B \<longrightarrow> Inr tx' = r \<longrightarrow> (\<exists>ks. deletes B hi (fst at) tx tx' ks)", rotated], intro impI)
    fix loop B and C :: "('a, 'b) cursor" and hi at tx r
    assume IH: "\<And>B C hi at tx r. loop B C hi at tx = Some r \<Longrightarrow> bolt_store B \<longrightarrow> Inr tx' = r \<longrightarrow> (\<exists>ks. deletes B hi (fst at) tx tx' ks)"
      and body: "(case fst at of None \<Rightarrow> Some (Inr tx)
        | Some k \<Rightarrow> (case Uint64 k of None \<Rightarrow> None
           | Some i \<Rightarrow> if i \<le> hi then
                 (case wrap ''failed to delete log entry'' (bolt_delete B tx logsBucket k) of
                    Inl err \<Rightarrow> Some (Inl err) | Inr tx' \<Rightarrow> loop B C hi (cursor_Next C tx' (snd at)) tx')
               else Some (Inr tx))) = Some r"
      and B: "bolt_store B" and r: "Inr tx' = r"
    show "\<exists>ks. deletes B hi (fst at) tx tx' ks"
    proof (cases "\<exists>k i. fst at = Some k \<and> Uint64 k = Some i \<and> i \<le> hi")
      case False
      then have "tx' = tx" "case fst at of None \<Rightarrow> True | Some k \<Rightarrow> \<exists>i. Uint64 k = Some i \<and> \<not> i \<le> hi"
        using body r by (auto split: option.splits if_splits)
      then show ?thesis by (intro exI [of _ "[]"]) (auto simp: deletes_def split: option.splits)
    next
      case True
      then obtain k i where k: "fst at = Some k" "Uint64 k = Some i" "i \<le> hi" by blast
      then obtain tx1 where tx1: "bolt_delete B tx logsBucket k = Inr tx1" "loop B C hi (cursor_Next C tx1 (snd at)) tx1 = Some r"
        using body r by (cases "bolt_delete B tx logsBucket k") auto
      with IH B r obtain ks where "deletes B hi (fst (cursor_Next C tx1 (snd at))) tx1 tx' ks" by blast
      then have "deletes B hi (fst at) tx tx' (k # ks)"
        using k by (auto simp: deletes_def bolt_store.get_delete [OF B tx1(1)])
      then show ?thesis ..
    qed
  qed
  with assms show ?thesis by blast
qed

lemma DeleteRange_commit:
  assumes "DeleteRange B C lo hi db = Some (Inr db')"
  obtains tx where "delete_loop B C hi (cursor_Seek C db logsBucket (PutUint64 lo)) db = Some (Inr tx)" "bolt_commit B tx = Inr db'"
  using assms by (auto simp: DeleteRange_def bind_res_eq_Inr_iff)

context bolt_cursor
begin

text \<open>The first key of the log that is not below \<open>lo\<close>.\<close>

lemma seek_least:
  assumes "log_inv B db"
  shows "(\<exists>i. lo \<le> i \<and> log_abs B db i \<noteq> None \<and> (\<forall>j. lo \<le> j \<and> j < i \<longrightarrow> log_abs B db j = None)
      \<and> fst (cursor_Seek C db logsBucket (PutUint64 lo)) = Some (PutUint64 i))
    \<or> (\<forall>i. lo \<le> i \<longrightarrow> log_abs B db i = None) \<and> fst (cursor_Seek C db logsBucket (PutUint64 lo)) = None"
proof -
  let ?f = "find (\<lambda>(k, v). PutUint64 lo \<le> k) (bolt_pairs B db logsBucket)"
  have le: "PutUint64 a \<le> PutUint64 b \<longleftrightarrow> a \<le> b" for a b by (simp add: not_less [symmetric])
  have present: "log_abs B db j \<noteq> None \<longleftrightarrow> (\<exists>v. (PutUint64 j, v) \<in> set (bolt_pairs B db logsBucket))" for j
    using log_abs_dom [OF assms, of j] by (auto simp: in_pairs_iff)
  show ?thesis
  proof (cases ?f)
    case None
    then have "log_abs B db j = None" if "lo \<le> j" for j
      using that present [of j] le by (fastforce simp: find_None_iff)
    with None show ?thesis by (simp add: seek_first)
  next
    case (Some kv)
    then obtain n where n: "n < length (bolt_pairs B db logsBucket)" "kv = bolt_pairs B db logsBucket ! n" "PutUint64 lo \<le> fst kv"
      and before: "\<And>m. m < n \<Longrightarrow> \<not> PutUint64 lo \<le> fst (bolt_pairs B db logsBucket ! m)"
      by (auto simp: find_Some_iff case_prod_unfold)
    have "kv \<in> set (bolt_pairs B db logsBucket)" using n by simp
    then obtain i where i: "fst kv = PutUint64 i"
      using log_invD [OF assms, of "fst kv" "snd kv"] by (metis in_pairs_iff prod.collapse)
    have "log_abs B db j = None" if "lo \<le> j" "j < i" for j
    proof (rule ccontr)
      assume "log_abs B db j \<noteq> None"
      then obtain m where m: "m < length (bolt_pairs B db logsBucket)" "fst (bolt_pairs B db logsBucket ! m) = PutUint64 j"
        using present by (metis fst_conv in_set_conv_nth)
      have "\<not> m < n" using before [of m] m(2) that(1) le by auto
      then have "fst (bolt_pairs B db logsBucket ! n) \<le> fst (bolt_pairs B db logsBucket ! m)"
        using sorted_nth_mono [OF pairs_sorted [of db logsBucket], of n m] m(1) n(1) by simp
      then show False using m(2) n(2) i that(2) le [of i j] by (simp add: not_le)
    qed
    moreover have "log_abs B db i \<noteq> None" using present [of i] \<open>kv \<in> _\<close> i by (metis prod.collapse)
    moreover have "lo \<le> i" using n(3) i le by simp
    ultimately show ?thesis using Some i by (auto simp: seek_first)
  qed
qed

lemma seek_present:
  assumes "log_inv B db" "log_abs B db i \<noteq> None"
  shows "fst (cursor_Seek C db logsBucket (PutUint64 i)) = Some (PutUint64 i)"
  using seek_least [OF assms(1), of i] assms(2) by (metis le_less order_refl)

lemma DeleteRange_documented:
  assumes "log_inv B db"
  shows "\<forall>db'. DeleteRange B C lo hi db = Some (Inr db') \<longrightarrow> log_inv B db'
      \<and> (\<forall>i. log_abs B db' i = log_abs B db i \<or> log_abs B db' i = None \<and> i \<le> hi)
      \<and> (\<forall>i. log_abs B db i \<noteq> None \<and> lo \<le> i \<and> i \<le> hi \<and> (\<forall>j. lo \<le> j \<and> j < i \<longrightarrow> log_abs B db j = None)
            \<longrightarrow> log_abs B db' i = None)
      \<and> ((\<forall>i. lo \<le> i \<and> i \<le> hi \<longrightarrow> log_abs B db i = None) \<longrightarrow> log_abs B db' = log_abs B db)"
proof (intro allI impI)
  fix db' assume "DeleteRange B C lo hi db = Some (Inr db')"
  then obtain tx where tx: "delete_loop B C hi (cursor_Seek C db logsBucket (PutUint64 lo)) db = Some (Inr tx)" "bolt_commit B tx = Inr db'"
    by (rule DeleteRange_commit)
  obtain ks where ks: "\<forall>k \<in> set ks. \<exists>i \<le> hi. Uint64 k = Some i"
    "\<forall>b k. bolt_get B tx b k = (if b = logsBucket \<and> k \<in> set ks then None else bolt_get B db b k)"
    and at: "case fst (cursor_Seek C db logsBucket (PutUint64 lo)) of None \<Rightarrow> ks = []
      | Some k \<Rightarrow> (\<forall>i. Uint64 k = Some i \<longrightarrow> (if i \<le> hi then k \<in> set ks else ks = []))"
    using delete_loop_deletes [OF bolt_store_axioms tx(1)] unfolding deletes_def by blast
  have get: "bolt_get B db' logsBucket k = (if k \<in> set ks then None else bolt_get B db logsBucket k)" for k
    using ks(2) get_commit [OF tx(2)] by simp
  have abs: "log_abs B db' i = (if PutUint64 i \<in> set ks then None else log_abs B db i)" for i
    by (simp add: log_abs_def GetLog_def get)
  have "log_inv B db'" using assms by (simp add: log_inv_def get)
  moreover have "log_abs B db' i = log_abs B db i \<or> log_abs B db' i = None \<and> i \<le> hi" for i
    using bspec [OF ks(1), of "PutUint64 i"] abs [of i] by (cases "PutUint64 i \<in> set ks") auto
  moreover have "log_abs B db' i = None" if "log_abs B db i \<noteq> None" "lo \<le> i" "i \<le> hi" "\<forall>j. lo \<le> j \<and> j < i \<longrightarrow> log_abs B db j = None" for i
  proof -
    have "fst (cursor_Seek C db logsBucket (PutUint64 lo)) = Some (PutUint64 i)"
      using seek_least [OF assms, of lo] that(1,2,4) by (metis linorder_neqE)
    with at that(3) show ?thesis by (simp add: abs)
  qed
  moreover have "log_abs B db' = log_abs B db" if none: "\<forall>i. lo \<le> i \<and> i \<le> hi \<longrightarrow> log_abs B db i = None"
  proof -
    have "ks = []"
    proof (cases "fst (cursor_Seek C db logsBucket (PutUint64 lo))")
      case (Some k)
      then obtain i where i: "lo \<le> i" "log_abs B db i \<noteq> None" "k = PutUint64 i"
        using seek_least [OF assms, of lo] unfolding Some option.inject by blast
      then have "\<not> i \<le> hi" using spec [OF none, of i] by auto
      moreover have "if i \<le> hi then k \<in> set ks else ks = []" using at unfolding Some i(3) by simp
      ultimately show ?thesis by simp
    qed (use at in simp)
    then show ?thesis by (intro ext) (simp add: abs)
  qed
  ultimately show "log_inv B db'
      \<and> (\<forall>i. log_abs B db' i = log_abs B db i \<or> log_abs B db' i = None \<and> i \<le> hi)
      \<and> (\<forall>i. log_abs B db i \<noteq> None \<and> lo \<le> i \<and> i \<le> hi \<and> (\<forall>j. lo \<le> j \<and> j < i \<longrightarrow> log_abs B db j = None)
            \<longrightarrow> log_abs B db' i = None)
      \<and> ((\<forall>i. lo \<le> i \<and> i \<le> hi \<longrightarrow> log_abs B db i = None) \<longrightarrow> log_abs B db' = log_abs B db)" by blast
qed

end

context steady_cursor
begin

lemma delete_loop_steady:
  assumes "\<And>k. k \<in> set ks \<Longrightarrow> \<exists>i. k = PutUint64 i"
    and "fst at = (case ks of [] \<Rightarrow> None | k # _ \<Rightarrow> Some k)" "rest (snd at) = tl ks"
  shows "(\<exists>r. delete_loop B C hi at tx = Some r) \<and>
    (delete_loop B C hi at tx = Some (Inr tx') \<longrightarrow>
      bolt_get B tx' b k = (if b = logsBucket \<and> k \<in> set (takeWhile (\<lambda>k. k \<le> PutUint64 hi) ks) then None else bolt_get B tx b k))"
  using assms
proof (induction ks arbitrary: at tx)
  case Nil
  then show ?case by (subst (1 2) delete_loop.simps) simp
next
  case (Cons k0 ks)
  obtain i where i: "k0 = PutUint64 i" using Cons.prems(1) [of k0] by auto
  have le: "PutUint64 i \<le> PutUint64 hi \<longleftrightarrow> i \<le> hi" by (simp add: not_less [symmetric])
  have IH: "(\<exists>r. delete_loop B C hi (cursor_Next C tx1 (snd at)) tx1 = Some r) \<and>
    (delete_loop B C hi (cursor_Next C tx1 (snd at)) tx1 = Some (Inr tx') \<longrightarrow>
      bolt_get B tx' b k = (if b = logsBucket \<and> k \<in> set (takeWhile (\<lambda>k. k \<le> PutUint64 hi) ks) then None else bolt_get B tx1 b k))" for tx1
    using Cons.prems by (intro Cons.IH) (auto simp: next_rest split: list.split)
  show ?case
  proof (cases "i \<le> hi")
    case True
    show ?thesis
    proof (cases "bolt_delete B tx logsBucket (PutUint64 i)")
      case (Inl e)
      with True Cons.prems(2) show ?thesis by (subst (1 2) delete_loop.simps) (simp add: i)
    next
      case (Inr tx1)
      with True Cons.prems(2) IH [of tx1] show ?thesis by (subst (1 2) delete_loop.simps) (auto simp: i le get_delete [OF Inr])
    qed
  next
    case False
    with Cons.prems(2) show ?thesis by (subst (1 2) delete_loop.simps) (simp add: i le)
  qed
qed

lemma DeleteRange_steady:
  assumes "log_inv B db"
  shows "\<exists>r. DeleteRange B C lo hi db = Some r
      \<and> (\<forall>db'. r = Inr db' \<longrightarrow> (\<forall>i. log_abs B db' i = (if lo \<le> i \<and> i \<le> hi then None else log_abs B db i)))"
proof -
  let ?pairs = "bolt_pairs B db logsBucket" and ?at = "cursor_Seek C db logsBucket (PutUint64 lo)"
  let ?ks = "map fst (filter (\<lambda>(k, v). PutUint64 lo \<le> k) ?pairs)"
  have keys: "\<exists>i. k = PutUint64 i" if "k \<in> set ?ks" for k
    using that log_invD [OF assms, of k] by (auto simp: in_pairs_iff)
  have at: "fst ?at = (case ?ks of [] \<Rightarrow> None | k # _ \<Rightarrow> Some k)" "rest (snd ?at) = tl ?ks"
    by (auto simp: seek_first find_hd_filter seek_rest split: list.split)
  note loop = delete_loop_steady [OF keys at, of hi db]
  have srt: "sorted ?ks" using sorted_fst_filter [OF pairs_sorted] by blast
  have le: "PutUint64 a \<le> PutUint64 b \<longleftrightarrow> a \<le> b" for a b by (simp add: not_less [symmetric])
  have "takeWhile (\<lambda>k. k \<le> PutUint64 hi) ?ks = filter (\<lambda>k. k \<le> PutUint64 hi) ?ks"
    using sorted_filters(2) [of "\<lambda>k. k" ?ks "PutUint64 hi"] srt by (simp only: map_ident)
  then have range: "PutUint64 i \<in> set (takeWhile (\<lambda>k. k \<le> PutUint64 hi) ?ks) \<longleftrightarrow>
      bolt_get B db logsBucket (PutUint64 i) \<noteq> None \<and> lo \<le> i \<and> i \<le> hi" for i
    using le by (auto simp: in_pairs_iff image_iff)
  have "log_abs B db' i = (if lo \<le> i \<and> i \<le> hi then None else log_abs B db i)"
    if del: "DeleteRange B C lo hi db = Some (Inr db')" for db' i
  proof -
    obtain tx where tx: "delete_loop B C hi ?at db = Some (Inr tx)" "bolt_commit B tx = Inr db'" using del by (rule DeleteRange_commit)
    have "bolt_get B db' logsBucket (PutUint64 i) = (if lo \<le> i \<and> i \<le> hi then None else bolt_get B db logsBucket (PutUint64 i))"
      using loop tx range [of i] by (auto simp: get_commit [OF tx(2)])
    then show ?thesis by (simp add: log_abs_def GetLog_def)
  qed
  moreover have "\<exists>r. DeleteRange B C lo hi db = Some r" using loop by (auto simp: DeleteRange_def)
  ultimately show ?thesis by blast
qed

end

section \<open>Properties\<close>

definition sample_logs :: "raft_Log list" where
  "sample_logs =
     [zero_Log\<lparr>log_Index := 9, log_Term := 1, log_Data := ''a''\<rparr>,
      zero_Log\<lparr>log_Index := 10, log_Term := 1, log_Data := ''b'', log_Extensions := ''x''\<rparr>]"

lemma sample_logs_facts:
  "list_all log_ok sample_logs" "sample_logs \<noteq> []" "log_Index ` set sample_logs = {9, 10}"
  "log_inv mem_bolt []"
  "\<exists>db. StoreLogs mem_bolt sample_logs [] = Inr db"
proof -
  show "\<exists>db. StoreLogs mem_bolt sample_logs [] = Inr db"
    by (rule mem.StoreLogs_ok) (simp add: sample_logs_def)
qed (simp_all add: sample_logs_def log_ok_def log_inv_def mem_bolt_def mem_bucket_def)

lemma sample_logs_stored:
  "\<exists>db. StoreLogs mem_bolt sample_logs [] = Inr db \<and> log_inv mem_bolt db \<and> log_abs mem_bolt db 10 \<noteq> None \<and> log_abs mem_bolt db 9 \<noteq> None"
proof -
  obtain db where s: "StoreLogs mem_bolt sample_logs [] = Inr db" using sample_logs_facts(5) by blast
  have "log_abs mem_bolt db 10 \<noteq> None" "log_abs mem_bolt db 9 \<noteq> None"
    unfolding mem.StoreLogs_abs [OF sample_logs_facts(4,1) s] by (simp_all add: by_index_def sample_logs_def)
  with s mem.StoreLogs_inv [OF sample_logs_facts(4,1) s] show ?thesis by blast
qed

text \<open>Deletions in memory do not fail.\<close>

lemma mem_delete_loop_ok: "delete_loop mem_bolt C hi at tx \<noteq> Some (Inl err)"
proof -
  have "B = mem_bolt \<longrightarrow> r \<noteq> Inl err" if "delete_loop B C hi at tx = Some r" for B r
    using that
  proof (rule delete_loop.raw_induct [where P = "\<lambda>B C hi at tx r. B = mem_bolt \<longrightarrow> r \<noteq> Inl err", rotated], intro impI notI)
    fix loop B and C :: "(mem_db, 'c) cursor" and hi at tx r
    assume IH: "\<And>B C hi at tx r. loop B C hi at tx = Some r \<Longrightarrow> B = mem_bolt \<longrightarrow> r \<noteq> Inl err"
      and body: "(case fst at of None \<Rightarrow> Some (Inr tx)
        | Some k \<Rightarrow> (case Uint64 k of None \<Rightarrow> None
           | Some i \<Rightarrow> if i \<le> hi then
                 (case wrap ''failed to delete log entry'' (bolt_delete B tx logsBucket k) of
                    Inl err \<Rightarrow> Some (Inl err) | Inr tx' \<Rightarrow> loop B C hi (cursor_Next C tx' (snd at)) tx')
               else Some (Inr tx))) = Some r"
      and r: "B = mem_bolt" "r = Inl err"
    then obtain k i where k: "fst at = Some k" "Uint64 k = Some i" "i \<le> hi" by (auto split: option.splits if_splits)
    obtain tx1 where "bolt_delete mem_bolt tx logsBucket k = Inr tx1" using mem.delete_ok by blast
    then have "loop B C hi (cursor_Next C tx1 (snd at)) tx1 = Some r" using body r k by simp
    from IH [OF this] r show False by simp
  qed
  then show ?thesis by blast
qed

lemma mem_DeleteRange_ok: "DeleteRange mem_bolt C lo hi db = Some r \<Longrightarrow> \<exists>db'. r = Inr db'"
proof -
  assume "DeleteRange mem_bolt C lo hi db = Some r"
  then obtain r' where r': "delete_loop mem_bolt C hi (cursor_Seek C db logsBucket (PutUint64 lo)) db = Some r'"
    "r = bind_res r' (bolt_commit mem_bolt)" by (auto simp: DeleteRange_def)
  then obtain tx where "r' = Inr tx" using mem_delete_loop_ok by (metis sum.exhaust)
  with r'(2) mem.commit_ok [of tx] show ?thesis by auto
qed

text \<open>
  C13. Writing Raft log entries above the last index keeps every other entry,
  makes each of them readable at its index, but for its fields Extensions and AppendedAt, and
  moves LastIndex to the greatest index written; indices are ordered as numbers, not as text.
\<close>

theorem log_store_append:
  assumes "bolt_store B" "log_inv B db" "list_all log_ok ls" "ls \<noteq> []" "StoreLogs B ls db = Inr db'"
    and "LastIndex B db = Some n" "\<forall>l \<in> set ls. n < log_Index l"
  shows "log_inv B db' \<and> LastIndex B db' = Some (Max (log_Index ` set ls))
    \<and> (\<forall>i. log_abs B db' i = (case by_index ls i of Some l \<Rightarrow> Some (stored_part l) | None \<Rightarrow> log_abs B db i))"
proof -
  have "LastIndex B db' = Some (Max (log_Index ` set ls))"
    by (rule bolt_store.append_last [OF assms(1-6)]) (use assms(7) in blast)
  then show ?thesis
    using bolt_store.StoreLogs_inv [OF assms(1-3,5)] bolt_store.StoreLogs_abs [OF assms(1-3,5)]
    by (simp add: map_add_def split: option.split)
qed

theorem log_store_append_witness:
  "\<exists>db. StoreLogs mem_bolt sample_logs [] = Inr db \<and> LastIndex mem_bolt db = Some 10"
proof -
  obtain db where s: "StoreLogs mem_bolt sample_logs [] = Inr db" using sample_logs_facts(5) by blast
  have "LastIndex mem_bolt [] = Some 0" by (simp add: LastIndex_def mem_bolt_def mem_bucket_def)
  moreover have "\<forall>l \<in> set sample_logs. 0 < log_Index l" by (simp add: sample_logs_def)
  ultimately have "LastIndex mem_bolt db = Some (Max (log_Index ` set sample_logs))"
    using log_store_append [OF mem.bolt_store_axioms sample_logs_facts(4,1,2) s] by blast
  with s show ?thesis by (simp add: sample_logs_facts(3))
qed

text \<open>
  C14. Whatever its cursor returns once the bucket has been changed, which bbolt
  leaves open, DeleteRange when it succeeds has not touched an entry above the range nor
  changed any, has removed the first entry of the range, and has changed nothing if the range
  is empty. It returns, and has removed exactly the entries of the range, if the cursor goes
  on through the keys the bucket had at the beginning.
\<close>

theorem log_store_delete:
  assumes "bolt_cursor B C" "log_inv B db"
  shows "(\<forall>db'. DeleteRange B C lo hi db = Some (Inr db') \<longrightarrow> log_inv B db'
      \<and> (\<forall>i. log_abs B db' i = log_abs B db i \<or> log_abs B db' i = None \<and> i \<le> hi)
      \<and> (\<forall>i. log_abs B db i \<noteq> None \<and> lo \<le> i \<and> i \<le> hi \<and> (\<forall>j. lo \<le> j \<and> j < i \<longrightarrow> log_abs B db j = None)
            \<longrightarrow> log_abs B db' i = None)
      \<and> ((\<forall>i. lo \<le> i \<and> i \<le> hi \<longrightarrow> log_abs B db i = None) \<longrightarrow> log_abs B db' = log_abs B db))
    \<and> (steady_cursor B C rest \<longrightarrow> (\<exists>r. DeleteRange B C lo hi db = Some r
      \<and> (\<forall>db'. r = Inr db' \<longrightarrow> (\<forall>i. log_abs B db' i = (if lo \<le> i \<and> i \<le> hi then None else log_abs B db i)))))"
  using bolt_cursor.DeleteRange_documented [OF assms] steady_cursor.DeleteRange_steady [OF _ assms(2), where C = C] by blast

text \<open>Both entries of the sample are deleted by a cursor that keeps the keys.\<close>

theorem log_store_delete_witness:
  "\<exists>db db'. StoreLogs mem_bolt sample_logs [] = Inr db \<and> log_abs mem_bolt db 10 \<noteq> None
     \<and> DeleteRange mem_bolt (list_cursor mem_bolt) 9 10 db = Some (Inr db') \<and> log_abs mem_bolt db' 9 = None \<and> log_abs mem_bolt db' 10 = None"
proof -
  obtain db where s: "StoreLogs mem_bolt sample_logs [] = Inr db" "log_inv mem_bolt db" "log_abs mem_bolt db 10 \<noteq> None"
    using sample_logs_stored by blast
  have "steady_cursor mem_bolt (list_cursor mem_bolt) (\<lambda>ks. ks)" "bolt_cursor mem_bolt (list_cursor mem_bolt)"
    using mem_cursor.steady_cursor_axioms mem_cursor.bolt_cursor_axioms by blast+
  from log_store_delete [OF this(2) s(2), of 9 10 "\<lambda>ks. ks"] this(1)
  obtain r where r: "DeleteRange mem_bolt (list_cursor mem_bolt) 9 10 db = Some r"
    "\<forall>db'. r = Inr db' \<longrightarrow> (\<forall>i. log_abs mem_bolt db' i = (if 9 \<le> i \<and> i \<le> 10 then None else log_abs mem_bolt db i))" by blast
  obtain db' where "r = Inr db'" using mem_DeleteRange_ok [OF r(1)] by blast
  with r s show ?thesis by auto
qed

text \<open>
  A cursor that ends after the first change is within what bbolt documents, and then
  DeleteRange reports success with an entry of the range still there.
\<close>

theorem delete_range_skips:
  "bolt_cursor mem_bolt (short_cursor mem_bolt)
   \<and> (\<exists>db db'. StoreLogs mem_bolt sample_logs [] = Inr db
        \<and> DeleteRange mem_bolt (short_cursor mem_bolt) 9 10 db = Some (Inr db') \<and> log_abs mem_bolt db' 10 \<noteq> None)"
proof (intro conjI mem_short.bolt_cursor_axioms)
  obtain db where s: "StoreLogs mem_bolt sample_logs [] = Inr db" "log_inv mem_bolt db" "log_abs mem_bolt db 10 \<noteq> None"
    "log_abs mem_bolt db 9 \<noteq> None" using sample_logs_stored by blast
  have at: "cursor_Seek (short_cursor mem_bolt) db logsBucket (PutUint64 9) = (Some (PutUint64 9), ())"
    using mem_short.seek_present [OF s(2,4)] by (simp add: prod_eq_iff)
  have nx: "cursor_Next (short_cursor mem_bolt) tx () = (None, ())" for tx by (simp add: short_cursor_def)
  obtain tx where tx: "bolt_delete mem_bolt db logsBucket (PutUint64 9) = Inr tx" using mem.delete_ok by blast
  obtain db' where db': "bolt_commit mem_bolt tx = Inr db'" using mem.commit_ok by blast
  have d: "DeleteRange mem_bolt (short_cursor mem_bolt) 9 10 db = Some (Inr db')"
    using tx db' by (simp add: DeleteRange_def at nx delete_loop.simps [of mem_bolt "short_cursor mem_bolt" 10 "(Some (PutUint64 9), ())"]
        delete_loop.simps [of mem_bolt "short_cursor mem_bolt" 10 "(None, ())"])
  have "bolt_get mem_bolt db' logsBucket (PutUint64 10) = bolt_get mem_bolt db logsBucket (PutUint64 10)"
    using mem.get_commit [OF db'] mem.get_delete [OF tx] by simp
  then have "log_abs mem_bolt db' 10 = log_abs mem_bolt db 10" by (simp add: log_abs_def GetLog_def)
  with s d show "\<exists>db db'. StoreLogs mem_bolt sample_logs [] = Inr db
        \<and> DeleteRange mem_bolt (short_cursor mem_bolt) 9 10 db = Some (Inr db') \<and> log_abs mem_bolt db' 10 \<noteq> None" by auto
qed

text \<open>
  C19. Of an entry that is written and read into a struct, the index, the term, the
  type and the data are read back, the data only as far as its length modulo 4 GiB; the
  fields Extensions and AppendedAt are lost, and those of the struct are left as they were. A
  number stored in the stable store is read back.
\<close>

theorem log_roundtrip:
  assumes "bolt_store B" "StoreLogs B [log] db = Inr db1" "SetUint64 B key val db = Inr db2"
  shows "GetLog B (log_Index log) log0 db1 =
      (Inr (), log0\<lparr>log_Index := log_Index log, log_Term := log_Term log, log_Type := log_Type log,
                    log_Data := take (length (log_Data log) mod 2 ^ 32) (log_Data log)\<rparr>)
    \<and> GetUint64 B key db2 = Inr val"
proof -
  have "bolt_get B db2 stableBucket key = Some (PutUint64 val)"
    using bolt_store.Update_put_get [OF assms(1)] assms(3) by (simp add: SetUint64_def BoltStore_Set_def)
  moreover have "PutUint64 val \<noteq> []" using PutUint64_facts(1) [of val] by fastforce
  moreover have "bolt_get B db1 logsBucket (PutUint64 (log_Index log)) = Some (encodeLog log)"
    using bolt_store.StoreLogs_get [OF assms(1,2)] by simp
  ultimately show ?thesis by (simp add: GetLog_def decode_encode GetUint64_def BoltStore_Get_def)
qed

text \<open>The extension of an entry is lost.\<close>

theorem log_roundtrip_witness:
  "\<exists>db. StoreLogs mem_bolt [zero_Log\<lparr>log_Index := 7, log_Data := ''abc'', log_Extensions := ''x''\<rparr>] [] = Inr db
     \<and> GetLog mem_bolt 7 zero_Log db = (Inr (), zero_Log\<lparr>log_Index := 7, log_Data := ''abc''\<rparr>)"
proof -
  let ?l = "zero_Log\<lparr>log_Index := 7, log_Data := ''abc'', log_Extensions := ''x''\<rparr>"
  obtain db where s: "StoreLogs mem_bolt [?l] [] = Inr db" using mem.StoreLogs_ok [of "[?l]" "[]"] by auto
  have "SetUint64 mem_bolt ''term'' 5 [] = Inr (AList.update stableBucket (AList.update ''term'' (PutUint64 5) []) [])"
    by (simp add: SetUint64_def BoltStore_Set_def db_Update_def mem_bolt_def mem_put_def mem_bucket_def
        max_key_size_def max_value_size_def)
  from log_roundtrip [OF mem.bolt_store_axioms s this, of zero_Log] s show ?thesis by (auto simp: zero_Log_def)
qed

end
