(* ===== verification/Fsm.thy ===== *)
theory Fsm
  imports BoltStore Events
begin

text \<open>
  Package internal/consensus, files types.go and fsm.go: the entries of the replicated log and
  the state machine that applies them to the local store, with its snapshots.

  An interface value of the field Data is a JSON tree. A failed type assertion is the
  response \<open>Panicked\<close>.
\<close>

section \<open>Numbers as float64\<close>

text \<open>
  The conversion of an integer to float64 rounds to 53 significant bits, to the nearest value
  and to the even one of two. The text that encoding/json writes for such a value is read
  back as the same value, so a number in a tree stands for its value.
\<close>

fun bit_length :: "nat \<Rightarrow> nat" where
  "bit_length n = (if n = 0 then 0 else Suc (bit_length (n div 2)))"

declare bit_length.simps [simp del]

definition round53 :: "nat \<Rightarrow> nat" where
  "round53 n =
     (if n < 2 ^ 53 then n
      else (let e = bit_length n - 53; q = n div 2 ^ e; r = n mod 2 ^ e; half = 2 ^ (e - 1)
            in (if half < r \<or> r = half \<and> odd q then q + 1 else q) * 2 ^ e))"

definition float64 :: "int \<Rightarrow> int" where
  "float64 i = (if i < 0 then - int (round53 (nat (- i))) else int (round53 (nat i)))"

lemma float64_exact: "0 \<le> i \<Longrightarrow> i < 2 ^ 53 \<Longrightarrow> float64 i = i"
  by (simp add: float64_def round53_def nat_less_iff)

section \<open>Log entries\<close>

definition LogEntryHashChain :: string where
  "LogEntryHashChain = ''hash_chain''"

definition LogEntryCheckpoint :: string where
  "LogEntryCheckpoint = ''checkpoint''"

record LogEntry =
  le_Type :: string
  le_TableName :: string
  le_Data :: "(string, json) gomap"
  le_Timestamp :: gotime

definition logEntry_json :: "LogEntry \<Rightarrow> json" where
  "logEntry_json e =
     JObj [(''type'', JStr (le_Type e)), (''table_name'', JStr (le_TableName e)),
           (''data'', JObj (sort_key fst (le_Data e))), (''timestamp'', JStr (le_Timestamp e))]"

definition marshal_logEntry :: "LogEntry \<Rightarrow> bytes" where
  "marshal_logEntry e = json_print (logEntry_json e)"

definition dec_object :: "json \<Rightarrow> (string \<times> json) list option" where
  "dec_object j = (case j of JObj kvs \<Rightarrow> Some kvs | JNull \<Rightarrow> Some [] | _ \<Rightarrow> None)"

definition logEntry_of_members :: "(string \<times> json) list \<Rightarrow> LogEntry option" where
  "logEntry_of_members kvs =
     (case (dec_string (field kvs ''type''), dec_string (field kvs ''table_name''),
            dec_object (field kvs ''data''), dec_time (field kvs ''timestamp'')) of
        (Some ty, Some t, Some d, Some ts) \<Rightarrow>
          Some \<lparr>le_Type = ty, le_TableName = t, le_Data = assign_all d [], le_Timestamp = ts\<rparr>
      | _ \<Rightarrow> None)"

definition unmarshal_logEntry :: "bytes \<Rightarrow> LogEntry option" where
  "unmarshal_logEntry data =
     Option.bind (json_parse data) (\<lambda>j. Option.bind (dec_object j) logEntry_of_members)"

section \<open>Applying an entry\<close>

datatype apply_response =
    Applied
  | Failed goerror
  | Panicked

text \<open>The lookup Data[k], nil when it is absent, and the type assertions.\<close>

definition data_at :: "LogEntry \<Rightarrow> string \<Rightarrow> json" where
  "data_at entry k = (case map_of (le_Data entry) k of Some j \<Rightarrow> j | None \<Rightarrow> JNull)"

definition as_string :: "json \<Rightarrow> string option" where
  "as_string j = (case j of JStr s \<Rightarrow> Some s | _ \<Rightarrow> None)"

definition as_float64 :: "json \<Rightarrow> int option" where
  "as_float64 j = (case j of JNum i \<Rightarrow> Some (float64 i) | _ \<Rightarrow> None)"

text \<open>The conversion uint64(f). (Out of range its result is open in Go; no theorem uses it there.)\<close>

definition uint64_of_float :: "int \<Rightarrow> 64 word" where
  "uint64_of_float f = word_of_int f"

definition respond :: "'db result \<Rightarrow> 'db \<Rightarrow> apply_response \<times> 'db" where
  "respond r db = (case r of Inl err \<Rightarrow> (Failed err, db) | Inr db' \<Rightarrow> (Applied, db'))"

text \<open>The hash entry that applyHashChain saves; \<^const>\<open>None\<close> if an assertion fails.\<close>

definition log_hash_entry :: "LogEntry \<Rightarrow> HashEntry option" where
  "log_hash_entry entry =
     (let dataHash = (case as_string (data_at entry ''data_hash'') of Some dh \<Rightarrow> dh | None \<Rightarrow> []) in
      case (as_float64 (data_at entry ''sequence_num''), as_string (data_at entry ''operation_type''),
            as_string (data_at entry ''record_id'')) of
        (Some f, Some op, Some rid) \<Rightarrow>
          Some \<lparr>TableName = le_TableName entry, SequenceNum = uint64_of_float f, DataHash = dataHash,
                Timestamp = le_Timestamp entry, OperationType = op, RecordID = rid\<rparr>
      | _ \<Rightarrow> None)"

definition applyHashChain :: "'db bolt \<Rightarrow> LogEntry \<Rightarrow> 'db \<Rightarrow> apply_response \<times> 'db" where
  "applyHashChain B entry db =
     (case log_hash_entry entry of
        None \<Rightarrow> (Panicked, db)
      | Some hashEntry \<Rightarrow> respond (SaveHashEntry B hashEntry db) db)"

text \<open>The members of an object that are strings, as a map; nil for anything but an object.\<close>

definition string_members :: "json \<Rightarrow> (string, string) gomap" where
  "string_members j =
     (case j of
        JObj kvs \<Rightarrow> concat (map (\<lambda>(k, v). case as_string v of Some s \<Rightarrow> [(k, s)] | None \<Rightarrow> []) (assign_all kvs []))
      | _ \<Rightarrow> [])"

definition log_checkpoint :: "LogEntry \<Rightarrow> MerkleCheckpoint option" where
  "log_checkpoint entry =
     (case (as_float64 (data_at entry ''sequence_num''), as_string (data_at entry ''merkle_root''),
            as_float64 (data_at entry ''record_count''), as_string (data_at entry ''hash_algorithm'')) of
        (Some f, Some r, Some n, Some a) \<Rightarrow>
          Some \<lparr>cp_TableName = le_TableName entry, cp_SequenceNum = uint64_of_float f, cp_MerkleRoot = r,
                cp_Timestamp = le_Timestamp entry, cp_RecordCount = n, cp_HashAlgorithm = a,
                cp_LeafMap = string_members (data_at entry ''leaf_map''),
                cp_InternalNodes = string_members (data_at entry ''internal_nodes'')\<rparr>
      | _ \<Rightarrow> None)"

definition applyCheckpoint :: "'db bolt \<Rightarrow> LogEntry \<Rightarrow> 'db \<Rightarrow> apply_response \<times> 'db" where
  "applyCheckpoint B entry db =
     (case log_checkpoint entry of
        None \<Rightarrow> (Panicked, db)
      | Some checkpoint \<Rightarrow> respond (SaveMerkleCheckpoint B checkpoint db) db)"

definition FSM_Apply :: "'db bolt \<Rightarrow> raft_Log \<Rightarrow> 'db \<Rightarrow> apply_response \<times> 'db" where
  "FSM_Apply B log db =
     (case unmarshal_logEntry (log_Data log) of
        None \<Rightarrow> (Failed (Wrapf ''failed to unmarshal log entry'' json_error), db)
      | Some entry \<Rightarrow>
          if le_Type entry = LogEntryHashChain then applyHashChain B entry db
          else if le_Type entry = LogEntryCheckpoint then applyCheckpoint B entry db
          else (Failed (Errorf (''unknown log entry type: '' @ le_Type entry)), db))"

section \<open>Snapshots\<close>

text \<open>
  The state machine and its snapshot hold a reference to the store, here an address: a
  snapshot is not a copy, and Persist writes what the store holds when it runs.
\<close>

record FSM =
  fsm_storage :: nat

definition NewFSM :: "nat \<Rightarrow> FSM" where
  "NewFSM store = \<lparr>fsm_storage = store\<rparr>"

record fsmSnapshot =
  snap_storage :: nat

definition FSM_Snapshot :: "FSM \<Rightarrow> fsmSnapshot result" where
  "FSM_Snapshot f = Inr \<lparr>snap_storage = fsm_storage f\<rparr>"

definition snapshot_json :: "HashEntry list \<Rightarrow> json" where
  "snapshot_json entries = JObj [(''hash_entries'', JArr (map hashEntry_json entries))]"

text \<open>The sink: what writing to it and closing it return.\<close>

record snapshot_sink =
  sink_Write :: "bytes \<Rightarrow> unit result"
  sink_Close :: "unit result"

text \<open>Persist: what was written, or the error. The encoder ends its output with a newline.\<close>

definition Persist :: "'db bolt \<Rightarrow> snapshot_sink \<Rightarrow> 'db \<Rightarrow> bytes result" where
  "Persist B sink db =
     bind_res (wrap ''failed to get hash entries for snapshot'' (GetAllHashEntriesAllTables B db)) (\<lambda>entries.
       (let text = json_print (snapshot_json entries) @ [CHR 0x0A] in
        bind_res (wrap ''failed to encode snapshot'' (sink_Write sink text)) (\<lambda>_.
        bind_res (wrap ''failed to close snapshot sink'' (sink_Close sink)) (\<lambda>_. Inr text))))"

text \<open>A json.Decoder reads one value and leaves what follows it.\<close>

definition Decoder_Decode :: "bytes \<Rightarrow> json option" where
  "Decoder_Decode s = map_option fst (parse_value (length s) s)"

fun dec_entries :: "json list \<Rightarrow> HashEntry list option" where
  "dec_entries [] = Some []"
| "dec_entries (j # js) =
     (case (hashEntry_of_json j, dec_entries js) of (Some e, Some es) \<Rightarrow> Some (e # es) | _ \<Rightarrow> None)"

definition snapshot_of_json :: "json \<Rightarrow> HashEntry list option" where
  "snapshot_of_json j =
     Option.bind (dec_object j) (\<lambda>kvs.
       case field kvs ''hash_entries'' of JArr js \<Rightarrow> dec_entries js | JNull \<Rightarrow> Some [] | _ \<Rightarrow> None)"

fun restore_loop :: "'db bolt \<Rightarrow> HashEntry list \<Rightarrow> 'db \<Rightarrow> unit result \<times> 'db" where
  "restore_loop B [] db = (Inr (), db)"
| "restore_loop B (entry # entries) db =
     (case wrap ''failed to restore hash entry'' (SaveHashEntry B entry db) of
        Inl err \<Rightarrow> (Inl err, db)
      | Inr db' \<Rightarrow> restore_loop B entries db')"

definition Restore :: "'db bolt \<Rightarrow> bytes \<Rightarrow> 'db \<Rightarrow> unit result \<times> 'db" where
  "Restore B text db =
     (case Option.bind (Decoder_Decode text) snapshot_of_json of
        None \<Rightarrow> (Inl (Wrapf ''failed to decode snapshot'' json_error), db)
      | Some entries \<Rightarrow> restore_loop B entries db)"

section \<open>What an entry carries\<close>

lemma map_of_sorted_assign:
  assumes "gomap_ok m"
  shows "map_of (assign_all (sort_key fst m) []) = map_of m"
proof -
  have "map_of (rev (sort_key fst m)) = map_of m"
    by (rule gomap_perm_map_of [symmetric]) (simp_all add: assms)
  then show ?thesis by (simp add: map_of_assign_all)
qed

definition logEntry_ok :: "LogEntry \<Rightarrow> bool" where
  "logEntry_ok e \<longleftrightarrow> valid_utf8 (le_Type e) \<and> valid_utf8 (le_TableName e) \<and> valid_utf8 (le_Timestamp e)
     \<and> gomap_ok (le_Data e) \<and> members_ok (le_Data e)"

lemma members_ok_sort: "members_ok (sort_key fst m) \<longleftrightarrow> members_ok m"
  by (simp add: members_ok_iff)

lemma ascii_log_names [simp]:
  "valid_utf8 ''type''" "valid_utf8 ''data''" "valid_utf8 ''hash_chain''" "valid_utf8 ''checkpoint''" "valid_utf8 ''hash_entries''"
  by (rule valid_utf8_literal, simp)+

lemma unmarshal_marshal_logEntry:
  assumes "logEntry_ok e"
  shows "\<exists>d. unmarshal_logEntry (marshal_logEntry e) = Some (e\<lparr>le_Data := d\<rparr>) \<and> map_of d = map_of (le_Data e)"
proof -
  have "json_ok (logEntry_json e)"
    using assms by (simp add: logEntry_json_def logEntry_ok_def members_ok_sort)
  then have "json_parse (marshal_logEntry e) = Some (logEntry_json e)"
    by (simp add: marshal_logEntry_def json_parse_print)
  moreover have "logEntry_of_members [(''type'', JStr (le_Type e)), (''table_name'', JStr (le_TableName e)),
           (''data'', JObj (sort_key fst (le_Data e))), (''timestamp'', JStr (le_Timestamp e))] =
      Some (e\<lparr>le_Data := assign_all (sort_key fst (le_Data e)) []\<rparr>)"
    by (simp add: logEntry_of_members_def field_def dec_string_def dec_object_def dec_time_def)
  ultimately have "unmarshal_logEntry (marshal_logEntry e) = Some (e\<lparr>le_Data := assign_all (sort_key fst (le_Data e)) []\<rparr>)"
    by (simp add: unmarshal_logEntry_def logEntry_json_def dec_object_def)
  moreover have "map_of (assign_all (sort_key fst (le_Data e)) []) = map_of (le_Data e)"
    using assms by (simp add: map_of_sorted_assign logEntry_ok_def)
  ultimately show ?thesis by blast
qed

text \<open>Applying an entry depends on its data as a map only.\<close>

lemma apply_cong:
  assumes "map_of d = map_of (le_Data e)"
  shows "applyHashChain B (e\<lparr>le_Data := d\<rparr>) db = applyHashChain B e db"
    and "applyCheckpoint B (e\<lparr>le_Data := d\<rparr>) db = applyCheckpoint B e db"
proof -
  have at: "data_at (e\<lparr>le_Data := d\<rparr>) = data_at e" using assms by (intro ext) (simp add: data_at_def)
  have sel: "le_TableName (e\<lparr>le_Data := d\<rparr>) = le_TableName e" "le_Timestamp (e\<lparr>le_Data := d\<rparr>) = le_Timestamp e" by simp_all
  show "applyHashChain B (e\<lparr>le_Data := d\<rparr>) db = applyHashChain B e db"
    unfolding applyHashChain_def log_hash_entry_def at sel ..
  show "applyCheckpoint B (e\<lparr>le_Data := d\<rparr>) db = applyCheckpoint B e db"
    unfolding applyCheckpoint_def log_checkpoint_def at sel ..
qed

lemma FSM_Apply_marshalled:
  assumes "logEntry_ok e" "log_Data log = marshal_logEntry e"
  shows "le_Type e = LogEntryHashChain \<Longrightarrow> FSM_Apply B log db = applyHashChain B e db"
    and "le_Type e = LogEntryCheckpoint \<Longrightarrow> FSM_Apply B log db = applyCheckpoint B e db"
proof -
  obtain d where "unmarshal_logEntry (marshal_logEntry e) = Some (e\<lparr>le_Data := d\<rparr>)" "map_of d = map_of (le_Data e)"
    using unmarshal_marshal_logEntry [OF assms(1)] by blast
  then show "le_Type e = LogEntryHashChain \<Longrightarrow> FSM_Apply B log db = applyHashChain B e db"
    and "le_Type e = LogEntryCheckpoint \<Longrightarrow> FSM_Apply B log db = applyCheckpoint B e db"
    using assms(2) by (simp_all add: FSM_Apply_def apply_cong LogEntryHashChain_def LogEntryCheckpoint_def)
qed

section \<open>Snapshots carry the hash entries\<close>

lemma Decoder_Decode_print: "json_ok j \<Longrightarrow> Decoder_Decode (json_print j @ [CHR 0x0A]) = Some j"
  using parse_print(1) [of j "length (json_print j @ [CHR 0x0A])" "[CHR 0x0A]"]
  by (simp add: Decoder_Decode_def number_stop_def is_digit_def)

lemma entry_of_json: "entry_utf8 e \<Longrightarrow> hashEntry_of_json (hashEntry_json e) = Some e"
  using unmarshal_marshal_entry [of e] json_parse_print [of "hashEntry_json e"]
  by (simp add: unmarshal_entry_def marshal_entry_def hashEntry_json_def entry_utf8_def)

lemma snapshot_roundtrip_text:
  assumes "list_all entry_utf8 es"
  shows "Option.bind (Decoder_Decode (json_print (snapshot_json es) @ [CHR 0x0A])) snapshot_of_json = Some es"
proof -
  have ok: "json_ok (hashEntry_json e)" if "entry_utf8 e" for e
    using that by (simp add: hashEntry_json_def entry_utf8_def)
  have "elems_ok (map hashEntry_json es)" using assms by (induction es) (simp_all add: ok)
  then have "json_ok (snapshot_json es)" by (simp add: snapshot_json_def)
  moreover have "dec_entries (map hashEntry_json es) = Some es"
    using assms by (induction es) (simp_all add: entry_of_json)
  then have "snapshot_of_json (snapshot_json es) = Some es"
    by (simp add: snapshot_of_json_def snapshot_json_def dec_object_def field_def)
  ultimately show ?thesis by (simp add: Decoder_Decode_print)
qed

definition by_number :: "string \<Rightarrow> HashEntry list \<Rightarrow> 64 word \<rightharpoonup> HashEntry" where
  "by_number t es = map_of (rev (map (\<lambda>e. (SequenceNum e, e)) (filter (\<lambda>e. TableName e = t) es)))"

lemma by_number_Cons: "by_number t (e # es) = (if TableName e = t then [SequenceNum e \<mapsto> e] else Map.empty) ++ by_number t es"
  by (simp add: by_number_def)

context bolt_store
begin

lemma restore_loop_abs:
  assumes "store_inv B db" "list_all entry_ok es" "restore_loop B es db = (Inr (), db')" "table_ok t"
  shows "store_inv B db' \<and> store_abs B db' t = store_abs B db t ++ by_number t es"
  using assms
proof (induction es arbitrary: db)
  case Nil
  then show ?case by (simp add: by_number_def)
next
  case (Cons e es)
  then obtain db1 where db1: "SaveHashEntry B e db = Inr db1" "restore_loop B es db1 = (Inr (), db')"
    by (auto split: sum.splits)
  have e: "entry_ok e" using Cons.prems(2) by simp
  have inv: "store_inv B db1" by (rule SaveHashEntry_inv [OF Cons.prems(1) e db1(1)])
  have "store_abs B db1 t = store_abs B db t ++ (if TableName e = t then [SequenceNum e \<mapsto> e] else Map.empty)"
    using store_abs_save [OF Cons.prems(1) e db1(1) Cons.prems(4)] by auto
  then show ?case using Cons.IH [OF inv _ db1(2)] Cons.prems by (simp add: by_number_Cons)
qed

lemma all_entries:
  assumes "store_inv B db"
  shows "\<exists>es. GetAllHashEntriesAllTables B db = Inr es \<and>
    (\<forall>e. e \<in> set es \<longleftrightarrow> entry_ok e \<and> bolt_get B db HashChainBucket (entry_key e) = Some (marshal_entry e))"
proof -
  let ?es = "decode_loop unmarshal_entry (bolt_pairs B db HashChainBucket)"
  have "e \<in> set ?es \<longleftrightarrow> entry_ok e \<and> bolt_get B db HashChainBucket (entry_key e) = Some (marshal_entry e)" for e
  proof
    assume "e \<in> set ?es"
    then obtain k v where kv: "bolt_get B db HashChainBucket k = Some v" "unmarshal_entry v = Some e"
      by (auto simp: decode_loop_image in_pairs_iff)
    then obtain x where "entry_ok x" "k = entry_key x" "v = marshal_entry x" using store_invD [OF assms] by blast
    with kv show "entry_ok e \<and> bolt_get B db HashChainBucket (entry_key e) = Some (marshal_entry e)"
      by (simp add: unmarshal_marshal_entry entry_ok_def)
  next
    assume a: "entry_ok e \<and> bolt_get B db HashChainBucket (entry_key e) = Some (marshal_entry e)"
    then have "unmarshal_entry (marshal_entry e) = Some e" by (simp add: unmarshal_marshal_entry entry_ok_def)
    with a show "e \<in> set ?es" by (auto simp: decode_loop_image in_pairs_iff)
  qed
  then show ?thesis by (simp add: GetAllHashEntriesAllTables_def)
qed

lemma by_number_all_entries:
  assumes "store_inv B db" "table_ok t"
    and "\<forall>e. e \<in> set es \<longleftrightarrow> entry_ok e \<and> bolt_get B db HashChainBucket (entry_key e) = Some (marshal_entry e)"
  shows "by_number t es = store_abs B db t"
proof (intro ext option.expand)
  have mem: "store_abs B db t n = Some e \<longleftrightarrow> e \<in> set es \<and> TableName e = t \<and> SequenceNum e = n" for n e
    using store_abs_iff [OF assms(1,2)] stored_entries_iff [OF assms(1,2)] assms(3) by auto
  fix n
  have fwd: "by_number t es n = Some e \<Longrightarrow> store_abs B db t n = Some e" for e
    unfolding mem by_number_def by (auto dest!: map_of_SomeD)
  have bwd: "store_abs B db t n \<noteq> None \<Longrightarrow> by_number t es n \<noteq> None"
  proof -
    assume "store_abs B db t n \<noteq> None"
    then obtain e where "e \<in> set es" "TableName e = t" "SequenceNum e = n" using mem by blast
    then show "by_number t es n \<noteq> None" unfolding by_number_def map_of_eq_None_iff by force
  qed
  have "by_number t es n = store_abs B db t n"
    using fwd bwd by (cases "by_number t es n"; cases "store_abs B db t n") auto
  then show "(by_number t es n = None) = (store_abs B db t n = None)"
    and "the (by_number t es n) = the (store_abs B db t n)" by simp_all
qed

lemma restore_loop_checkpoint:
  "restore_loop B es db = (r, db') \<Longrightarrow> bolt_get B db' MerkleCheckpointBucket = bolt_get B db MerkleCheckpointBucket"
proof (induction es arbitrary: db)
  case (Cons e es)
  show ?case
  proof (cases "SaveHashEntry B e db")
    case (Inl err)
    with Cons.prems show ?thesis by simp
  next
    case (Inr db1)
    then have "bolt_get B db1 MerkleCheckpointBucket = bolt_get B db MerkleCheckpointBucket"
      using SaveHashEntry_get [OF Inr] by (intro ext) (simp add: HashChainBucket_def MerkleCheckpointBucket_def)
    with Cons.IH [of db1] Cons.prems Inr show ?thesis by simp
  qed
qed simp

end

section \<open>Applying a log\<close>

text \<open>The one pair that applying an entry writes, if it succeeds.\<close>

definition log_write :: "raft_Log \<Rightarrow> ((bytes \<times> bytes) \<times> bytes) option" where
  "log_write log =
     (case unmarshal_logEntry (log_Data log) of
        None \<Rightarrow> None
      | Some entry \<Rightarrow>
          if le_Type entry = LogEntryHashChain then
            map_option (\<lambda>e. ((HashChainBucket, entry_key e), marshal_entry e)) (log_hash_entry entry)
          else if le_Type entry = LogEntryCheckpoint then
            map_option (\<lambda>c. ((MerkleCheckpointBucket, checkpoint_key c), marshal_checkpoint c)) (log_checkpoint entry)
          else None)"

lemma log_hash_entry_cong: "map_of d = map_of (le_Data e) \<Longrightarrow> log_hash_entry (e\<lparr>le_Data := d\<rparr>) = log_hash_entry e"
proof -
  assume "map_of d = map_of (le_Data e)"
  then have at: "data_at (e\<lparr>le_Data := d\<rparr>) = data_at e" by (intro ext) (simp add: data_at_def)
  have sel: "le_TableName (e\<lparr>le_Data := d\<rparr>) = le_TableName e" "le_Timestamp (e\<lparr>le_Data := d\<rparr>) = le_Timestamp e" by simp_all
  show ?thesis unfolding log_hash_entry_def at sel ..
qed

lemma log_write_marshalled:
  assumes "logEntry_ok e" "log_Data log = marshal_logEntry e" "le_Type e = LogEntryHashChain"
  shows "log_write log = map_option (\<lambda>e. ((HashChainBucket, entry_key e), marshal_entry e)) (log_hash_entry e)"
proof -
  obtain d where "unmarshal_logEntry (marshal_logEntry e) = Some (e\<lparr>le_Data := d\<rparr>)" "map_of d = map_of (le_Data e)"
    using unmarshal_marshal_logEntry [OF assms(1)] by blast
  then show ?thesis using assms(2,3) log_hash_entry_cong [of d e] by (simp add: log_write_def)
qed

text \<open>It is within the limits of bbolt.\<close>

definition write_small :: "raft_Log \<Rightarrow> bool" where
  "write_small log \<longleftrightarrow> (case log_write log of
     None \<Rightarrow> True
   | Some ((b, k), x) \<Rightarrow> k \<noteq> [] \<and> length k \<le> max_key_size \<and> length x \<le> max_value_size)"

definition apply_all :: "'db bolt \<Rightarrow> raft_Log list \<Rightarrow> 'db \<Rightarrow> 'db" where
  "apply_all B logs db = foldl (\<lambda>db log. snd (FSM_Apply B log db)) db logs"

lemma apply_all_simps [simp]:
  "apply_all B [] db = db"
  "apply_all B (log # logs) db = apply_all B logs (snd (FSM_Apply B log db))"
  "apply_all B (logs @ [log]) db = snd (FSM_Apply B log (apply_all B logs db))"
  by (simp_all add: apply_all_def)

text \<open>The store that a log describes.\<close>

definition log_contents :: "raft_Log list \<Rightarrow> bytes \<times> bytes \<rightharpoonup> bytes" where
  "log_contents logs = map_of (rev (List.map_filter log_write logs))"

lemma log_contents_simps [simp]:
  "log_contents [] = Map.empty"
  "log_contents (logs @ [log]) =
     (case log_write log of None \<Rightarrow> log_contents logs | Some (bk, x) \<Rightarrow> (log_contents logs)(bk \<mapsto> x))"
  by (simp_all add: log_contents_def map_filter_def split: option.splits)

lemma snd_respond: "snd (respond r db) = (case r of Inl _ \<Rightarrow> db | Inr db' \<Rightarrow> db')"
  by (simp add: respond_def split: sum.splits)

lemma snd_FSM_Apply:
  "snd (FSM_Apply B log db) =
     (case log_write log of
        None \<Rightarrow> db
      | Some ((b, k), x) \<Rightarrow> (case db_Update B (\<lambda>tx. bolt_put B tx b k x) db of Inl _ \<Rightarrow> db | Inr db' \<Rightarrow> db'))"
  by (simp add: FSM_Apply_def log_write_def applyHashChain_def applyCheckpoint_def snd_respond
      SaveHashEntry_def SaveMerkleCheckpoint_def split: option.splits)

context reliable_bolt
begin

lemma FSM_Apply_get:
  assumes "write_small log"
  shows "bolt_get B (snd (FSM_Apply B log db)) b k =
    (case log_write log of
       None \<Rightarrow> bolt_get B db b k
     | Some (bk, x) \<Rightarrow> if bk = (b, k) then Some x else bolt_get B db b k)"
proof (cases "log_write log")
  case None
  then show ?thesis by (simp add: snd_FSM_Apply)
next
  case (Some w)
  obtain b' k' x where w: "w = ((b', k'), x)" by (metis prod.exhaust)
  then obtain db' where db': "db_Update B (\<lambda>tx. bolt_put B tx b' k' x) db = Inr db'"
    using assms Some Update_put_ok [of k' x b' db] by (auto simp: write_small_def)
  show ?thesis using Some w db' Update_put_get [OF db'] by (auto simp: snd_FSM_Apply)
qed

lemma apply_all_get:
  "list_all write_small logs \<Longrightarrow>
   bolt_get B (apply_all B logs db) b k = (case log_contents logs (b, k) of None \<Rightarrow> bolt_get B db b k | Some x \<Rightarrow> Some x)"
proof (induction logs rule: rev_induct)
  case (snoc log logs)
  then show ?case by (auto simp: FSM_Apply_get split: option.splits)
qed simp

end

lemma log_contents_append: "log_contents (xs @ ys) = log_contents xs ++ log_contents ys"
  by (simp add: log_contents_def map_filter_def)

lemma log_contents_Some: "log_contents xs \<kappa> = Some x \<Longrightarrow> \<exists>log \<in> set xs. log_write log = Some (\<kappa>, x)"
  by (auto simp: log_contents_def map_filter_def dest!: map_of_SomeD) (metis option.collapse)

context reliable_bolt
begin

lemma restore_loop_ok:
  assumes "list_all (\<lambda>e. length (TableName e) \<le> 32000 \<and> entry_size e \<le> 300000000) es"
  shows "\<exists>db'. restore_loop B es db = (Inr (), db')"
  using assms
proof (induction es arbitrary: db)
  case (Cons e es)
  then obtain db1 where "SaveHashEntry B e db = Inr db1" using SaveHashEntry_ok [of e db] by auto
  with Cons show ?case by simp
qed simp

end

section \<open>Properties\<close>

text \<open>
  C15. Applying the tail of the log a second time, as a node does after a
  restart, leaves the store as it was: every key reads the same.
\<close>

theorem replay_idempotent:
  assumes "reliable_bolt B" "list_all write_small (xs @ ys)"
  shows "bolt_get B (apply_all B ys (apply_all B (xs @ ys) db)) b k = bolt_get B (apply_all B (xs @ ys) db) b k"
proof -
  have "list_all write_small ys" using assms(2) by simp
  then show ?thesis
    unfolding reliable_bolt.apply_all_get [OF assms(1) \<open>list_all write_small ys\<close>]
      reliable_bolt.apply_all_get [OF assms(1,2)] log_contents_append
    by (simp add: map_add_def split: option.splits)
qed

definition sample_logEntry :: LogEntry where
  "sample_logEntry =
     \<lparr>le_Type = LogEntryHashChain, le_TableName = ''logs'',
      le_Data = [(''sequence_num'', JNum 1), (''data_hash'', JStr ''00''), (''operation_type'', JStr ''INSERT''),
                 (''record_id'', JStr ''map[id:1]'')],
      le_Timestamp = ''2024-01-01T00:00:00Z''\<rparr>"

definition sample_log :: raft_Log where
  "sample_log = zero_Log\<lparr>log_Index := 1, log_Term := 1, log_Data := marshal_logEntry sample_logEntry\<rparr>"

lemma sample_logEntry_ok: "logEntry_ok sample_logEntry"
  by (simp add: logEntry_ok_def sample_logEntry_def LogEntryHashChain_def valid_utf8_literal)

lemma sample_log_write:
  "log_write sample_log = Some ((HashChainBucket, ''logs:1''), marshal_entry (sample_entry\<lparr>SequenceNum := 1, RecordID := ''map[id:1]''\<rparr>))"
proof -
  have "entry_key (sample_entry\<lparr>SequenceNum := 1, RecordID := ''map[id:1]''\<rparr>) = ''logs:1''"
    by (simp add: entry_key_def sample_entry_def seq_key_def fmt_d.simps digit_def char_of_eq_iff)
  moreover have "log_hash_entry sample_logEntry = Some (sample_entry\<lparr>SequenceNum := 1, RecordID := ''map[id:1]''\<rparr>)"
    by (simp add: log_hash_entry_def sample_logEntry_def data_at_def as_string_def as_float64_def float64_exact
        uint64_of_float_def sample_entry_def)
  ultimately show ?thesis
    using log_write_marshalled [OF sample_logEntry_ok, of sample_log] by (simp add: sample_log_def sample_logEntry_def)
qed

lemma sample_log_small: "write_small sample_log"
  using length_marshal_entry [of "sample_entry\<lparr>SequenceNum := 1, RecordID := ''map[id:1]''\<rparr>"]
  by (simp add: write_small_def sample_log_write max_key_size_def max_value_size_def entry_size_def sample_entry_def)

theorem replay_idempotent_witness:
  "bolt_get mem_bolt (apply_all mem_bolt [sample_log] (apply_all mem_bolt ([] @ [sample_log]) [])) HashChainBucket ''logs:1'' =
     bolt_get mem_bolt (apply_all mem_bolt ([] @ [sample_log]) []) HashChainBucket ''logs:1''"
  by (rule replay_idempotent [OF mem.reliable_bolt_axioms]) (simp add: sample_log_small)

text \<open>
  C16. A node that restores a snapshot has, for every table, the entries of
  the node that wrote it and keeps those of its own numbers that the snapshot does not have.
  The checkpoints are not part of a snapshot: those of the restoring node stay as they were.
\<close>

theorem snapshot_restores:
  assumes "bolt_store B" "store_inv B db1" "Persist B sink db1 = Inr text"
    and "store_inv B db2" "Restore B text db2 = (Inr (), db')" "table_ok t"
  shows "store_inv B db' \<and> store_abs B db' t = store_abs B db2 t ++ store_abs B db1 t
    \<and> GetLatestMerkleCheckpoint B t db' = GetLatestMerkleCheckpoint B t db2"
proof -
  obtain es where es: "GetAllHashEntriesAllTables B db1 = Inr es"
    "\<forall>e. e \<in> set es \<longleftrightarrow> entry_ok e \<and> bolt_get B db1 HashChainBucket (entry_key e) = Some (marshal_entry e)"
    using bolt_store.all_entries [OF assms(1,2)] by blast
  have ok: "list_all entry_ok es" using es(2) by (simp add: list_all_iff)
  then have "list_all entry_utf8 es" by (auto simp: list_all_iff entry_ok_def)
  moreover have "text = json_print (snapshot_json es) @ [CHR 0x0A]"
    using assms(3) es(1) by (auto simp: Persist_def Let_def bind_res_eq_Inr_iff)
  ultimately have run: "restore_loop B es db2 = (Inr (), db')"
    using assms(5) snapshot_roundtrip_text [of es] by (simp add: Restore_def)
  have "bolt_pairs B db' MerkleCheckpointBucket = bolt_pairs B db2 MerkleCheckpointBucket"
    by (rule bolt_store.pairs_cong [OF assms(1) bolt_store.restore_loop_checkpoint [OF assms(1) run]])
  then have cp: "GetLatestMerkleCheckpoint B t db' = GetLatestMerkleCheckpoint B t db2"
    by (simp add: GetLatestMerkleCheckpoint_def)
  show ?thesis
    using bolt_store.restore_loop_abs [OF assms(1,4) ok run assms(6)]
      bolt_store.by_number_all_entries [OF assms(1,2,6) es(2)] cp by simp
qed

definition sample_sink :: snapshot_sink where
  "sample_sink = \<lparr>sink_Write = (\<lambda>_. Inr ()), sink_Close = Inr ()\<rparr>"

theorem snapshot_restores_witness:
  "\<exists>db1 text db'. SaveHashEntry mem_bolt sample_entry [] = Inr db1 \<and> Persist mem_bolt sample_sink db1 = Inr text
     \<and> Restore mem_bolt text [] = (Inr (), db') \<and> store_abs mem_bolt db' ''logs'' 3 = Some sample_entry"
proof -
  obtain db1 where s: "SaveHashEntry mem_bolt sample_entry [] = Inr db1" using sample_entry_saved by blast
  have inv: "store_inv mem_bolt db1" by (rule mem.SaveHashEntry_inv [OF store_inv_empty sample_entry_ok s])
  have t: "table_ok ''logs''" "TableName sample_entry = ''logs''" "SequenceNum sample_entry = 3"
    by (simp_all add: table_ok_def sample_entry_def)
  obtain out where p: "Persist mem_bolt sample_sink db1 = Inr out"
    by (simp add: Persist_def sample_sink_def GetAllHashEntriesAllTables_def Let_def)
  obtain es where es: "GetAllHashEntriesAllTables mem_bolt db1 = Inr es"
    "\<forall>e. e \<in> set es \<longleftrightarrow> entry_ok e \<and> bolt_get mem_bolt db1 HashChainBucket (entry_key e) = Some (marshal_entry e)"
    using mem.all_entries [OF inv] by blast
  have "e = sample_entry" if "e \<in> set es" for e
  proof -
    have e: "entry_ok e" "bolt_get mem_bolt db1 HashChainBucket (entry_key e) = Some (marshal_entry e)" using es(2) that by auto
    have "bolt_get mem_bolt [] HashChainBucket (entry_key e) = None" by (simp add: mem_bolt_def mem_bucket_def)
    then have "marshal_entry e = marshal_entry sample_entry"
      using e(2) mem.SaveHashEntry_get [OF s] by (simp split: if_splits)
    then show ?thesis
      using e(1) sample_entry_ok unmarshal_marshal_entry [of e] unmarshal_marshal_entry [of sample_entry] by (simp add: entry_ok_def)
  qed
  moreover have "length (TableName sample_entry) \<le> 32000" "entry_size sample_entry \<le> 300000000"
    by (simp_all add: sample_entry_def entry_size_def)
  ultimately have small: "list_all (\<lambda>e. length (TableName e) \<le> 32000 \<and> entry_size e \<le> 300000000) es"
    unfolding list_all_iff by blast
  have "list_all entry_utf8 es" using es(2) by (simp add: list_all_iff entry_ok_def)
  then have "Option.bind (Decoder_Decode out) snapshot_of_json = Some es"
    using p es(1) snapshot_roundtrip_text [of es] by (auto simp: Persist_def Let_def bind_res_eq_Inr_iff)
  then obtain db' where r: "Restore mem_bolt out [] = (Inr (), db')"
    using mem.restore_loop_ok [OF small, of "[]"] by (auto simp: Restore_def)
  have "store_abs mem_bolt db' ''logs'' = store_abs mem_bolt [] ''logs'' ++ store_abs mem_bolt db1 ''logs''"
    using snapshot_restores [OF mem.bolt_store_axioms inv p store_inv_empty r t(1)] by blast
  moreover have "store_abs mem_bolt db1 ''logs'' 3 = Some sample_entry"
    using mem.store_abs_save [OF store_inv_empty sample_entry_ok s t(1)] t(2,3) by simp
  ultimately show ?thesis using s p r by auto
qed

end
