(* ===== verification/Node.thy ===== *)
theory Node
  imports Fsm
begin

text \<open>
  Package internal/consensus, files node.go and leadership_transfer.go: the Raft node of the
  program and the rotation of leadership.

  The Raft library github.com/hashicorp/raft is not part of the repository. What the sources
  call of it is the parameter \<open>raft\<close>, over its own state \<open>'r\<close> and the store \<open>'db\<close> that the
  state machine writes; its documented behaviour is the locale \<open>raft_library\<close>. A Raft with
  a single voter that keeps its log in the log store of bbolt_store.go is the reference
  implementation.
\<close>

section \<open>The Raft library\<close>

record raft_Server =
  srv_ID :: string
  srv_Address :: string

text \<open>
  State() == Leader; Apply, whose future gives an error or none; Leader() and the address of
  LeaderWithID(); GetConfiguration; the operations on the cluster; Shutdown.
\<close>

record ('r, 'db) raft =
  raft_is_leader :: "'r \<Rightarrow> bool"
  raft_Apply :: "bytes \<Rightarrow> 'r \<times> 'db \<Rightarrow> unit result \<times> 'r \<times> 'db"
  raft_Leader :: "'r \<Rightarrow> string"
  raft_GetConfiguration :: "'r \<Rightarrow> raft_Server list result"
  raft_AddVoter :: "string \<Rightarrow> string \<Rightarrow> 'r \<Rightarrow> unit result \<times> 'r"
  raft_RemoveServer :: "string \<Rightarrow> 'r \<Rightarrow> unit result \<times> 'r"
  raft_LeadershipTransfer :: "'r \<Rightarrow> unit result \<times> 'r"
  raft_Shutdown :: "'r \<Rightarrow> unit result \<times> 'r"
  raft_Stats :: "'r \<Rightarrow> (string, string) gomap"

section \<open>The node\<close>

record NodeConfig =
  nc_NodeID :: string
  nc_BindAddr :: string
  nc_DataDir :: string
  nc_Bootstrap :: bool
  nc_PeerAddrs :: "(string, string) gomap"
  nc_JoinRetries :: int
  nc_JoinRetryWait :: int

record ('r, 'db) Node =
  nd_config :: NodeConfig
  nd_raft :: "('r, 'db) raft option"

definition NewNode :: "NodeConfig \<Rightarrow> ('r, 'db) Node" where
  "NewNode cfg = \<lparr>nd_config = cfg, nd_raft = None\<rparr>"

text \<open>A method call on the nil pointer panics: \<^const>\<open>None\<close>.\<close>

definition ApplyLog :: "('r, 'db) Node \<Rightarrow> LogEntry \<Rightarrow> 'r \<times> 'db \<Rightarrow> (unit result \<times> 'r \<times> 'db) option" where
  "ApplyLog n entry w =
     (case nd_raft n of
        None \<Rightarrow> None
      | Some R \<Rightarrow>
          if \<not> raft_is_leader R (fst w) then Some (Inl (Errorf ''not the leader''), w)
          else (case raft_Apply R (marshal_logEntry entry) w of
                  (r, w') \<Rightarrow> Some (wrap ''failed to apply log'' r, w')))"

text \<open>The data of a checkpoint entry. (encoding/json renders a map with its keys in order.)\<close>

definition checkpoint_data :: "MerkleCheckpoint \<Rightarrow> (string, json) gomap" where
  "checkpoint_data c =
     [(''sequence_num'', JNum (uint (cp_SequenceNum c))), (''merkle_root'', JStr (cp_MerkleRoot c)),
      (''record_count'', JNum (cp_RecordCount c)), (''hash_algorithm'', JStr (cp_HashAlgorithm c))]
     @ (if cp_LeafMap c = [] then [] else [(''leaf_map'', json_of_smap (cp_LeafMap c))])
     @ (if cp_InternalNodes c = [] then [] else [(''internal_nodes'', json_of_smap (cp_InternalNodes c))])"

definition checkpoint_log :: "MerkleCheckpoint \<Rightarrow> LogEntry" where
  "checkpoint_log c =
     \<lparr>le_Type = LogEntryCheckpoint, le_TableName = cp_TableName c, le_Data = checkpoint_data c,
      le_Timestamp = cp_Timestamp c\<rparr>"

definition ApplyCheckpoint :: "('r, 'db) Node \<Rightarrow> MerkleCheckpoint \<Rightarrow> 'r \<times> 'db \<Rightarrow> (unit result \<times> 'r \<times> 'db) option" where
  "ApplyCheckpoint n c w =
     (case nd_raft n of
        None \<Rightarrow> None
      | Some R \<Rightarrow>
          if \<not> raft_is_leader R (fst w) then Some (Inl (Errorf ''not the leader, cannot replicate checkpoint''), w)
          else ApplyLog n (checkpoint_log c) w)"

definition Node_IsLeader :: "('r, 'db) Node \<Rightarrow> 'r \<Rightarrow> bool" where
  "Node_IsLeader n r = (case nd_raft n of None \<Rightarrow> False | Some R \<Rightarrow> raft_is_leader R r)"

definition Node_Leader :: "('r, 'db) Node \<Rightarrow> 'r \<Rightarrow> string" where
  "Node_Leader n r = (case nd_raft n of None \<Rightarrow> [] | Some R \<Rightarrow> raft_Leader R r)"

definition not_initialized :: goerror where
  "not_initialized = Errorf ''raft not initialized''"

definition AddPeer :: "('r, 'db) Node \<Rightarrow> string \<Rightarrow> string \<Rightarrow> 'r \<Rightarrow> unit result \<times> 'r" where
  "AddPeer n peer addr r =
     (case nd_raft n of None \<Rightarrow> (Inl not_initialized, r) | Some R \<Rightarrow> raft_AddVoter R peer addr r)"

definition RemovePeer :: "('r, 'db) Node \<Rightarrow> string \<Rightarrow> 'r \<Rightarrow> unit result \<times> 'r" where
  "RemovePeer n peer r =
     (case nd_raft n of None \<Rightarrow> (Inl not_initialized, r) | Some R \<Rightarrow> raft_RemoveServer R peer r)"

definition Node_Stats :: "('r, 'db) Node \<Rightarrow> 'r \<Rightarrow> (string, string) gomap" where
  "Node_Stats n r =
     (case nd_raft n of None \<Rightarrow> [(''state'', ''not initialized'')] | Some R \<Rightarrow> raft_Stats R r)"

definition Node_Stop :: "('r, 'db) Node \<Rightarrow> 'r \<Rightarrow> unit result \<times> 'r" where
  "Node_Stop n r =
     (case nd_raft n of
        None \<Rightarrow> (Inr (), r)
      | Some R \<Rightarrow> (case raft_Shutdown R r of (res, r') \<Rightarrow> (wrap ''failed to shutdown raft'' res, r')))"

definition TransferLeadership :: "('r, 'db) Node \<Rightarrow> 'r \<Rightarrow> unit result \<times> 'r" where
  "TransferLeadership n r =
     (case nd_raft n of
        None \<Rightarrow> (Inl not_initialized, r)
      | Some R \<Rightarrow>
          if \<not> raft_is_leader R r then (Inl (Errorf ''not the leader, cannot transfer''), r)
          else (case raft_LeadershipTransfer R r of (res, r') \<Rightarrow> (wrap ''leadership transfer failed'' res, r')))"

text \<open>SyncHashChainFromLeader; \<open>r\<close> is the state of Raft after the first pause.\<close>

definition SyncHashChainFromLeader :: "('r, 'db) Node \<Rightarrow> 'r \<Rightarrow> unit result" where
  "SyncHashChainFromLeader n r =
     (if Node_IsLeader n r then Inr ()
      else if Node_Leader n r = [] then Inl (Errorf ''no leader elected yet, cannot sync hash chain'')
      else Inr ())"

section \<open>Starting the node\<close>

text \<open>
  waitForLeader polls the library: \<open>polls\<close> are the states of Raft at the successive turns of
  the loop. A poll succeeds if there is a leader and the configuration names this node.
\<close>

definition poll_ok :: "('r, 'db) raft \<Rightarrow> string \<Rightarrow> 'r \<Rightarrow> bool" where
  "poll_ok R nodeID r =
     (raft_Leader R r \<noteq> [] \<and>
      (case raft_GetConfiguration R r of
         Inl _ \<Rightarrow> False
       | Inr servers \<Rightarrow> list_ex (\<lambda>s. srv_ID s = nodeID) servers))"

function wait_loop :: "('r, 'db) raft \<Rightarrow> string \<Rightarrow> (int \<Rightarrow> 'r) \<Rightarrow> int \<Rightarrow> int \<Rightarrow> bool" where
  "wait_loop R nodeID polls i retries =
     (if i < retries then poll_ok R nodeID (polls i) \<or> wait_loop R nodeID polls (i + 1) retries else False)"
  by auto

termination wait_loop
  by (relation "measure (\<lambda>(R, nodeID, polls, i, retries). nat (retries - i))") auto

declare wait_loop.simps [simp del]

definition join_retries :: "NodeConfig \<Rightarrow> int" where
  "join_retries cfg = (if nc_JoinRetries cfg = 0 then 30 else nc_JoinRetries cfg)"

definition waitForLeader :: "('r, 'db) raft \<Rightarrow> NodeConfig \<Rightarrow> (int \<Rightarrow> 'r) \<Rightarrow> unit result" where
  "waitForLeader R cfg polls =
     (if wait_loop R (nc_NodeID cfg) polls 0 (join_retries cfg) then Inr ()
      else Inl (Errorf (''timeout waiting for leader after '' @ fmt_int (join_retries cfg) @ '' retries'')))"

text \<open>
  What the calls of Start return: MkdirAll, the opening of the two bolt files, the snapshot
  store, the address, the transport (its local address), NewRaft (from the two stores),
  HasExistingState and BootstrapCluster; and the states of Raft that waitForLeader meets.
\<close>

record ('r, 'db) start_env =
  se_MkdirAll :: "unit result"
  se_open_log :: "'db result"
  se_open_stable :: "'db result"
  se_NewFileSnapshotStore :: "unit result"
  se_ResolveTCPAddr :: "unit result"
  se_NewTCPTransport :: "string result"
  se_NewRaft :: "'db \<Rightarrow> 'db \<Rightarrow> ('r, 'db) raft result"
  se_HasExistingState :: "'db \<Rightarrow> 'db \<Rightarrow> bool result"
  se_BootstrapCluster :: "raft_Server list \<Rightarrow> unit result"
  se_polls :: "int \<Rightarrow> 'r"

definition bootstrap_servers :: "NodeConfig \<Rightarrow> string \<Rightarrow> raft_Server list" where
  "bootstrap_servers cfg localAddr =
     \<lparr>srv_ID = nc_NodeID cfg, srv_Address = localAddr\<rparr>
       # map (\<lambda>(peerID, peerAddr). \<lparr>srv_ID = peerID, srv_Address = peerAddr\<rparr>) (nc_PeerAddrs cfg)"

text \<open>What follows NewRaft: bootstrapping, or waiting for a leader.\<close>

definition start_cluster ::
    "('r, 'db) start_env \<Rightarrow> NodeConfig \<Rightarrow> ('r, 'db) raft \<Rightarrow> 'db \<Rightarrow> 'db \<Rightarrow> string \<Rightarrow> unit result" where
  "start_cluster env cfg R logStore stableStore localAddr =
     (if nc_Bootstrap cfg then
        bind_res (wrap ''failed to check existing state'' (se_HasExistingState env logStore stableStore)) (\<lambda>hasState.
          if hasState then Inr ()
          else wrap ''failed to bootstrap cluster'' (se_BootstrapCluster env (bootstrap_servers cfg localAddr)))
      else if nc_PeerAddrs cfg \<noteq> [] then wrap ''failed to wait for leader'' (waitForLeader R cfg (se_polls env))
      else Inr ())"

text \<open>The steps up to NewRaft: Raft, the two stores and the local address.\<close>

definition start_raft :: "'db bolt \<Rightarrow> ('r, 'db) start_env \<Rightarrow> (('r, 'db) raft \<times> 'db \<times> 'db \<times> string) result" where
  "start_raft B env =
     bind_res (wrap ''failed to create raft directory'' (se_MkdirAll env)) (\<lambda>_.
     bind_res (wrap ''failed to create log store'' (NewBoltStore B (se_open_log env))) (\<lambda>logStore.
     bind_res (wrap ''failed to create stable store'' (NewBoltStore B (se_open_stable env))) (\<lambda>stableStore.
     bind_res (wrap ''failed to create snapshot store'' (se_NewFileSnapshotStore env)) (\<lambda>_.
     bind_res (wrap ''failed to resolve address'' (se_ResolveTCPAddr env)) (\<lambda>_.
     bind_res (wrap ''failed to create transport'' (se_NewTCPTransport env)) (\<lambda>localAddr.
     bind_res (wrap ''failed to create raft'' (se_NewRaft env logStore stableStore)) (\<lambda>ra.
       Inr (ra, logStore, stableStore, localAddr))))))))"

text \<open>Start: its result, and the node, whose Raft is set as soon as it has been created.\<close>

definition Node_Start :: "'db bolt \<Rightarrow> ('r, 'db) start_env \<Rightarrow> ('r, 'db) Node \<Rightarrow> unit result \<times> ('r, 'db) Node" where
  "Node_Start B env n =
     (case start_raft B env of
        Inl err \<Rightarrow> (Inl err, n)
      | Inr (ra, logStore, stableStore, localAddr) \<Rightarrow>
          (start_cluster env (nd_config n) ra logStore stableStore localAddr, n\<lparr>nd_raft := Some ra\<rparr>))"

section \<open>Rotation of leadership\<close>

record ('r, 'db) LeadershipRotator =
  lr_node :: "('r, 'db) Node"
  lr_interval :: int
  lr_stopCh :: bool

definition NewLeadershipRotator :: "('r, 'db) Node \<Rightarrow> int \<Rightarrow> ('r, 'db) LeadershipRotator" where
  "NewLeadershipRotator n interval = \<lparr>lr_node = n, lr_interval = interval, lr_stopCh = False\<rparr>"

definition Rotator_transferLeadership :: "('r, 'db) LeadershipRotator \<Rightarrow> 'r \<Rightarrow> unit result \<times> 'r" where
  "Rotator_transferLeadership rot r =
     (case nd_raft (lr_node rot) of
        None \<Rightarrow> (Inr (), r)
      | Some R \<Rightarrow>
          if \<not> raft_is_leader R r then (Inr (), r)
          else (case raft_LeadershipTransfer R r of (res, r') \<Rightarrow> (wrap ''leadership transfer failed'' res, r')))"

text \<open>
  What the loop of Start receives, with the change of Raft that comes from elsewhere before a
  tick; the loop is still waiting when nothing is left to receive (\<^const>\<open>None\<close>).
\<close>

datatype 'r rotator_msg =
    RotTick "'r \<Rightarrow> 'r"
  | RotStop
  | RotDone goerror

fun rotator_loop :: "('r, 'db) LeadershipRotator \<Rightarrow> 'r rotator_msg list \<Rightarrow> 'r \<Rightarrow> unit result option \<times> 'r" where
  "rotator_loop rot [] r = (None, r)"
| "rotator_loop rot (RotTick f # msgs) r = rotator_loop rot msgs (snd (Rotator_transferLeadership rot (f r)))"
| "rotator_loop rot (RotStop # msgs) r = (Some (Inr ()), r)"
| "rotator_loop rot (RotDone err # msgs) r = (Some (Inl err), r)"

text \<open>Start; \<open>dur\<close> renders a time.Duration.\<close>

definition Rotator_Start ::
    "(int \<Rightarrow> string) \<Rightarrow> ('r, 'db) LeadershipRotator \<Rightarrow> 'r rotator_msg list \<Rightarrow> 'r \<Rightarrow> unit result option \<times> 'r" where
  "Rotator_Start dur rot msgs r =
     (if lr_interval rot \<le> 0 then (Some (Inl (Errorf (''invalid interval: '' @ dur (lr_interval rot)))), r)
      else rotator_loop rot msgs r)"

text \<open>Stop closes the channel; to close it a second time is a panic (\<^const>\<open>None\<close>).\<close>

definition Rotator_Stop :: "('r, 'db) LeadershipRotator \<Rightarrow> ('r, 'db) LeadershipRotator option" where
  "Rotator_Stop rot = (if lr_stopCh rot then None else Some (rot\<lparr>lr_stopCh := True\<rparr>))"

section \<open>Documented behaviour of the library\<close>

text \<open>
  Apply fails on a node that does not lead. When it reports no error, the entry has been
  committed and given to the state machine of this node, after whatever was committed
  before it; what the state machine returned is not part of the error.
\<close>

locale raft_library =
  fixes R :: "('r, 'db) raft" and B :: "'db bolt"
  assumes apply_follower: "\<not> raft_is_leader R r \<Longrightarrow> fst (raft_Apply R data (r, db)) \<noteq> Inr ()"
    and apply_committed: "raft_Apply R data (r, db) = (Inr (), r', db') \<Longrightarrow>
      \<exists>logs log. log_Data log = data \<and> db' = apply_all B (logs @ [log]) db"
begin

lemma ApplyLog_applied:
  assumes "nd_raft n = Some R" "ApplyLog n entry (r, db) = Some (Inr (), r', db')"
  shows "raft_is_leader R r"
    and "\<exists>logs log. log_Data log = marshal_logEntry entry \<and> db' = apply_all B (logs @ [log]) db"
proof -
  have *: "raft_is_leader R r \<and> raft_Apply R (marshal_logEntry entry) (r, db) = (Inr (), r', db')"
    using assms by (auto simp: ApplyLog_def split: if_splits prod.splits)
  then show "raft_is_leader R r" by simp
  from * show "\<exists>logs log. log_Data log = marshal_logEntry entry \<and> db' = apply_all B (logs @ [log]) db"
    using apply_committed by blast
qed

end

text \<open>
  A single voter: it leads or not, keeps its term and its log, and hands a new entry to the
  state machine as soon as the log store has it.
\<close>

record 'db single =
  sg_leading :: bool
  sg_term :: "64 word"
  sg_log :: 'db

definition single_apply :: "'db bolt \<Rightarrow> bytes \<Rightarrow> 'db single \<times> 'db \<Rightarrow> unit result \<times> 'db single \<times> 'db" where
  "single_apply B data w =
     (case w of (r, db) \<Rightarrow>
        if \<not> sg_leading r then (Inl (Errorf ''node is not the leader''), w)
        else (case LastIndex B (sg_log r) of
                None \<Rightarrow> (Inl (Errorf ''log corrupt''), w)
              | Some i \<Rightarrow>
                  (let log = zero_Log\<lparr>log_Index := i + 1, log_Term := sg_term r, log_Data := data\<rparr> in
                   case StoreLog B log (sg_log r) of
                     Inl err \<Rightarrow> (Inl err, r\<lparr>sg_leading := False\<rparr>, db)
                   | Inr logdb \<Rightarrow> (Inr (), r\<lparr>sg_log := logdb\<rparr>, snd (FSM_Apply B log db)))))"

definition single_raft :: "'db bolt \<Rightarrow> ('db single, 'db) raft" where
  "single_raft B =
     \<lparr>raft_is_leader = sg_leading, raft_Apply = single_apply B,
      raft_Leader = (\<lambda>r. if sg_leading r then ''127.0.0.1:7000'' else []),
      raft_GetConfiguration = (\<lambda>r. Inr [\<lparr>srv_ID = ''node1'', srv_Address = ''127.0.0.1:7000''\<rparr>]),
      raft_AddVoter = (\<lambda>peer addr r. (Inl (Errorf ''single voter''), r)),
      raft_RemoveServer = (\<lambda>peer r. (Inl (Errorf ''single voter''), r)),
      raft_LeadershipTransfer = (\<lambda>r. (Inl (Errorf ''no peer''), r)),
      raft_Shutdown = (\<lambda>r. (Inr (), r\<lparr>sg_leading := False\<rparr>)),
      raft_Stats = (\<lambda>r. [])\<rparr>"

interpretation single: raft_library "single_raft B" B for B
proof
  fix r data db r' db'
  show "fst (raft_Apply (single_raft B) data (r, db)) \<noteq> Inr ()" if "\<not> raft_is_leader (single_raft B) r"
    using that by (simp add: single_raft_def single_apply_def)
  assume "raft_Apply (single_raft B) data (r, db) = (Inr (), r', db')"
  then obtain log where "log_Data log = data" "db' = snd (FSM_Apply B log db)"
    by (force simp: single_raft_def single_apply_def Let_def split: if_splits option.splits sum.splits)
  then have "log_Data log = data \<and> db' = apply_all B ([] @ [log]) db" by (simp add: apply_all_def)
  then show "\<exists>logs log. log_Data log = data \<and> db' = apply_all B (logs @ [log]) db" by blast
qed

section \<open>Checkpoints through the log\<close>

lemma float64_exact_abs: "\<bar>i\<bar> < 2 ^ 53 \<Longrightarrow> float64 i = i"
  by (auto simp: float64_def round53_def nat_less_iff abs_less_iff)

lemma string_members_smap:
  assumes "gomap_ok m"
  shows "string_members (json_of_smap m) = sort_key fst m"
proof -
  let ?s = "sort_key fst m"
  have "gomap_ok ?s" using gomap_perm_ok [of ?s m] assms by simp
  then have "gomap_ok (map (\<lambda>(k, v). (k, JStr v)) ?s)" by (simp add: comp_def case_prod_beta)
  then have "assign_all (map (\<lambda>(k, v). (k, JStr v)) ?s) [] = map (\<lambda>(k, v). (k, JStr v)) ?s"
    using assign_all_fresh [of "[]" "map (\<lambda>(k, v). (k, JStr v)) ?s"] by (simp del: map_map)
  moreover have "concat (map (\<lambda>(k, v). case as_string v of Some s \<Rightarrow> [(k, s)] | None \<Rightarrow> []) (map (\<lambda>(k, v). (k, JStr v)) xs)) = xs"
    for xs by (induction xs) (auto simp: as_string_def)
  ultimately show ?thesis by (simp add: string_members_def json_of_smap_def del: map_map)
qed

text \<open>The numbers of a checkpoint that float64 keeps exactly.\<close>

definition checkpoint_exact :: "MerkleCheckpoint \<Rightarrow> bool" where
  "checkpoint_exact c \<longleftrightarrow> uint (cp_SequenceNum c) < 2 ^ 53 \<and> \<bar>cp_RecordCount c\<bar> < 2 ^ 53"

lemma checkpoint_data_at:
  "data_at (checkpoint_log c) ''sequence_num'' = JNum (uint (cp_SequenceNum c))"
  "data_at (checkpoint_log c) ''merkle_root'' = JStr (cp_MerkleRoot c)"
  "data_at (checkpoint_log c) ''record_count'' = JNum (cp_RecordCount c)"
  "data_at (checkpoint_log c) ''hash_algorithm'' = JStr (cp_HashAlgorithm c)"
  "data_at (checkpoint_log c) ''leaf_map'' = (if cp_LeafMap c = [] then JNull else json_of_smap (cp_LeafMap c))"
  "data_at (checkpoint_log c) ''internal_nodes'' =
     (if cp_InternalNodes c = [] then JNull else json_of_smap (cp_InternalNodes c))"
  by (simp_all add: data_at_def checkpoint_log_def checkpoint_data_def)

lemma log_checkpoint_log:
  assumes "checkpoint_exact c" "checkpoint_ok c"
  shows "log_checkpoint (checkpoint_log c) = Some (checkpoint_norm c)"
proof -
  have m: "string_members (if m = [] then JNull else json_of_smap m) = sort_key fst m" if "gomap_ok m" for m
    using string_members_smap [OF that] by (simp add: string_members_def)
  have n: "as_float64 (JNum (uint (cp_SequenceNum c))) = Some (uint (cp_SequenceNum c))"
    "as_float64 (JNum (cp_RecordCount c)) = Some (cp_RecordCount c)"
    using assms(1) by (simp_all add: as_float64_def float64_exact_abs checkpoint_exact_def)
  have sel: "le_TableName (checkpoint_log c) = cp_TableName c" "le_Timestamp (checkpoint_log c) = cp_Timestamp c"
    by (simp_all add: checkpoint_log_def)
  have "gomap_ok (cp_LeafMap c)" "gomap_ok (cp_InternalNodes c)" using assms(2) by (simp_all add: checkpoint_ok_def)
  then show ?thesis
    unfolding log_checkpoint_def checkpoint_data_at n sel
    by (simp add: as_string_def uint64_of_float_def m checkpoint_norm_def)
qed

lemma Save_checkpoint_norm: "SaveMerkleCheckpoint B (checkpoint_norm c) = SaveMerkleCheckpoint B c"
proof -
  have "json_of_smap (sort_key fst m) = json_of_smap m" for m :: "(string, string) gomap"
    by (simp add: json_of_smap_def sort_key_id_if_sorted)
  moreover have "sort_key fst m = [] \<longleftrightarrow> m = []" for m :: "(string, string) gomap"
    by (metis mset_sort mset_zero_iff)
  ultimately show ?thesis
    by (simp add: SaveMerkleCheckpoint_def marshal_checkpoint_def checkpoint_json_def checkpoint_norm_def checkpoint_key_def)
qed

lemma checkpoint_log_ok: "checkpoint_ok c \<Longrightarrow> logEntry_ok (checkpoint_log c)"
  by (auto simp: logEntry_ok_def checkpoint_log_def checkpoint_data_def checkpoint_ok_def members_ok_iff json_ok_smap
      LogEntryCheckpoint_def valid_utf8_literal)

text \<open>The store after an attempt to write; a failed transaction leaves it as it was.\<close>

definition store_after :: "'db \<Rightarrow> 'db result \<Rightarrow> 'db" where
  "store_after db r = (case r of Inl _ \<Rightarrow> db | Inr db' \<Rightarrow> db')"

lemma snd_respond_store_after [simp]: "snd (respond r db) = store_after db r"
  by (simp add: respond_def store_after_def split: sum.splits)

lemma FSM_Apply_checkpoint:
  assumes "checkpoint_ok c" "checkpoint_exact c" "log_Data log = marshal_logEntry (checkpoint_log c)"
  shows "snd (FSM_Apply B log db) = store_after db (SaveMerkleCheckpoint B c db)"
proof -
  have "FSM_Apply B log db = applyCheckpoint B (checkpoint_log c) db"
    by (rule FSM_Apply_marshalled(2) [OF checkpoint_log_ok [OF assms(1)] assms(3)]) (simp add: checkpoint_log_def)
  then show ?thesis using assms(1,2) by (simp add: applyCheckpoint_def log_checkpoint_log Save_checkpoint_norm)
qed

context raft_library
begin

lemma ApplyCheckpoint_applied:
  assumes "nd_raft n = Some R" "checkpoint_ok c" "checkpoint_exact c" "ApplyCheckpoint n c (r, db) = Some (Inr (), r', db')"
  shows "\<exists>logs. db' = store_after (apply_all B logs db) (SaveMerkleCheckpoint B c (apply_all B logs db))"
proof -
  have "ApplyLog n (checkpoint_log c) (r, db) = Some (Inr (), r', db')"
    using assms(1,4) by (simp add: ApplyCheckpoint_def split: if_splits)
  from ApplyLog_applied(2) [OF assms(1) this] obtain logs log
    where "log_Data log = marshal_logEntry (checkpoint_log c)" "db' = snd (FSM_Apply B log (apply_all B logs db))" by auto
  with FSM_Apply_checkpoint [OF assms(2,3), of log B "apply_all B logs db"] show ?thesis by auto
qed

end

section \<open>Waiting for a leader\<close>

lemma wait_loop_iff: "wait_loop R nodeID polls i retries \<longleftrightarrow> (\<exists>j. i \<le> j \<and> j < retries \<and> poll_ok R nodeID (polls j))"
proof (induction R nodeID polls i retries rule: wait_loop.induct)
  case (1 R nodeID polls i retries)
  have split: "i \<le> j \<longleftrightarrow> j = i \<or> i + 1 \<le> j" for j :: int by auto
  show ?case
  proof (cases "i < retries")
    case True
    with "1.IH" show ?thesis unfolding wait_loop.simps [of R nodeID polls i] split by auto
  next
    case False
    then show ?thesis by (subst wait_loop.simps) auto
  qed
qed

lemma waitForLeader_iff:
  "waitForLeader R cfg polls = Inr () \<longleftrightarrow> (\<exists>i. 0 \<le> i \<and> i < join_retries cfg \<and> poll_ok R (nc_NodeID cfg) (polls i))"
  by (simp add: waitForLeader_def wait_loop_iff)

lemma start_cluster_ok_iff:
  "start_cluster env cfg ra logStore stableStore localAddr = Inr () \<longleftrightarrow>
   (if nc_Bootstrap cfg then
      se_HasExistingState env logStore stableStore = Inr True
      \<or> se_HasExistingState env logStore stableStore = Inr False
         \<and> se_BootstrapCluster env (bootstrap_servers cfg localAddr) = Inr ()
    else nc_PeerAddrs cfg = []
      \<or> (\<exists>i. 0 \<le> i \<and> i < join_retries cfg \<and> poll_ok ra (nc_NodeID cfg) (se_polls env i)))"
  by (auto simp: start_cluster_def bind_res_eq_Inr_iff waitForLeader_iff)

text \<open>The rotator on a node that does not lead.\<close>

lemma rotator_follower:
  assumes "\<not> Node_IsLeader (lr_node rot) r"
  shows "Rotator_transferLeadership rot r = (Inr (), r)"
  using assms by (simp add: Rotator_transferLeadership_def Node_IsLeader_def split: option.splits)

lemma rotator_TransferLeadership:
  assumes "Node_IsLeader (lr_node rot) r"
  shows "Rotator_transferLeadership rot r = TransferLeadership (lr_node rot) r"
  using assms
  by (cases "nd_raft (lr_node rot)") (simp_all add: Rotator_transferLeadership_def Node_IsLeader_def TransferLeadership_def)

text \<open>What the loop does with the ticks up to the first other message.\<close>

fun ticks :: "'r rotator_msg list \<Rightarrow> ('r \<Rightarrow> 'r) list" where
  "ticks (RotTick f # msgs) = f # ticks msgs"
| "ticks _ = []"

fun rotator_end :: "'r rotator_msg list \<Rightarrow> unit result option" where
  "rotator_end [] = None"
| "rotator_end (RotTick f # msgs) = rotator_end msgs"
| "rotator_end (RotStop # msgs) = Some (Inr ())"
| "rotator_end (RotDone err # msgs) = Some (Inl err)"

definition rotate :: "('r, 'db) Node \<Rightarrow> 'r \<Rightarrow> 'r" where
  "rotate n r = (if Node_IsLeader n r then snd (TransferLeadership n r) else r)"

lemma snd_Rotator_transferLeadership: "snd (Rotator_transferLeadership rot r) = rotate (lr_node rot) r"
  by (simp add: rotate_def rotator_follower rotator_TransferLeadership)

lemma rotator_loop_eq:
  "rotator_loop rot msgs r = (rotator_end msgs, foldl (\<lambda>r f. rotate (lr_node rot) (f r)) r (ticks msgs))"
  by (induction rot msgs r rule: rotator_loop.induct) (simp_all add: snd_Rotator_transferLeadership)

section \<open>Properties\<close>

text \<open>
  C28. When ApplyCheckpoint of a started node reports success, the
  node leads and its store is what SaveMerkleCheckpoint of that checkpoint gives, after the
  entries committed before it; a failure of that write is not reported. On any other node
  ApplyCheckpoint returns an error and changes nothing.
\<close>

theorem checkpoint_replicated:
  assumes "raft_library R B" "nd_raft n = Some R" "checkpoint_ok c" "checkpoint_exact c"
  shows "if Node_IsLeader n r
    then \<exists>res r' db'. ApplyCheckpoint n c (r, db) = Some (res, r', db') \<and>
      (res = Inr () \<longrightarrow> (\<exists>logs. db' = store_after (apply_all B logs db) (SaveMerkleCheckpoint B c (apply_all B logs db))))
    else \<exists>err. ApplyCheckpoint n c (r, db) = Some (Inl err, r, db)"
proof (cases "raft_is_leader R r")
  case True
  obtain x where x: "raft_Apply R (marshal_logEntry (checkpoint_log c)) (r, db) = x" by blast
  then have "\<exists>res r' db'. ApplyCheckpoint n c (r, db) = Some (res, r', db')"
    using True assms(2) by (cases x) (auto simp: ApplyCheckpoint_def ApplyLog_def)
  with True assms(2) raft_library.ApplyCheckpoint_applied [OF assms] show ?thesis
    by (simp add: Node_IsLeader_def) blast
next
  case False
  with assms(2) show ?thesis by (simp add: Node_IsLeader_def ApplyCheckpoint_def)
qed

text \<open>A single voter that leads replicates a checkpoint to itself.\<close>

definition sample_config :: NodeConfig where
  "sample_config = \<lparr>nc_NodeID = ''node1'', nc_BindAddr = ''127.0.0.1:7000'', nc_DataDir = ''/data'',
     nc_Bootstrap = False, nc_PeerAddrs = [(''node2'', ''127.0.0.1:7001'')], nc_JoinRetries = 0, nc_JoinRetryWait = 0\<rparr>"

definition sample_node :: "(mem_db single, mem_db) Node" where
  "sample_node = \<lparr>nd_config = sample_config, nd_raft = Some (single_raft mem_bolt)\<rparr>"

definition sample_voter :: "mem_db single" where
  "sample_voter = \<lparr>sg_leading = True, sg_term = 1, sg_log = []\<rparr>"

lemma sample_checkpoint_exact: "checkpoint_exact sample_checkpoint"
  by (simp add: checkpoint_exact_def sample_checkpoint_def)

theorem checkpoint_replicated_witness:
  "(\<exists>res r' db'. ApplyCheckpoint sample_node sample_checkpoint (sample_voter, []) = Some (res, r', db'))
   \<and> (\<exists>err. ApplyCheckpoint sample_node sample_checkpoint (sample_voter\<lparr>sg_leading := False\<rparr>, []) =
         Some (Inl err, sample_voter\<lparr>sg_leading := False\<rparr>, []))"
proof -
  have lead: "Node_IsLeader sample_node sample_voter" "\<not> Node_IsLeader sample_node (sample_voter\<lparr>sg_leading := False\<rparr>)"
    by (simp_all add: Node_IsLeader_def sample_node_def single_raft_def sample_voter_def)
  have raft: "nd_raft sample_node = Some (single_raft mem_bolt)" by (simp add: sample_node_def)
  note main = checkpoint_replicated [OF single.raft_library_axioms raft sample_checkpoint_ok sample_checkpoint_exact]
  from main [of sample_voter "[]"] main [of "sample_voter\<lparr>sg_leading := False\<rparr>" "[]"] lead show ?thesis by auto
qed

text \<open>
  Once Raft has been created, Start succeeds in exactly these cases:
  bootstrapping a cluster that exists already, or a new one with all configured servers; and
  otherwise without peers, or if one of the polls within the retries (30 if not configured)
  finds a leader and this node in the configuration. Whatever the outcome, the node holds
  the Raft instance from then on.
\<close>

theorem Node_Start_outcome:
  assumes "start_raft B env = Inr (ra, logStore, stableStore, localAddr)" "nd_config n = cfg"
  shows "(fst (Node_Start B env n) = Inr () \<longleftrightarrow>
      (if nc_Bootstrap cfg then
         se_HasExistingState env logStore stableStore = Inr True
         \<or> se_HasExistingState env logStore stableStore = Inr False
            \<and> se_BootstrapCluster env (\<lparr>srv_ID = nc_NodeID cfg, srv_Address = localAddr\<rparr>
                # map (\<lambda>(i, a). \<lparr>srv_ID = i, srv_Address = a\<rparr>) (nc_PeerAddrs cfg)) = Inr ()
       else nc_PeerAddrs cfg = []
         \<or> (\<exists>i. 0 \<le> i \<and> i < (if nc_JoinRetries cfg = 0 then 30 else nc_JoinRetries cfg)
                 \<and> poll_ok ra (nc_NodeID cfg) (se_polls env i))))
    \<and> nd_raft (snd (Node_Start B env n)) = Some ra"
  using assms start_cluster_ok_iff [of env cfg ra logStore stableStore localAddr]
  by (simp add: Node_Start_def bootstrap_servers_def join_retries_def)

text \<open>A node that joins: the leader is there at the second poll.\<close>

definition sample_env :: "(mem_db single, mem_db) start_env" where
  "sample_env = \<lparr>se_MkdirAll = Inr (), se_open_log = Inr [], se_open_stable = Inr [], se_NewFileSnapshotStore = Inr (),
     se_ResolveTCPAddr = Inr (), se_NewTCPTransport = Inr ''127.0.0.1:7000'',
     se_NewRaft = (\<lambda>_ _. Inr (single_raft mem_bolt)), se_HasExistingState = (\<lambda>_ _. Inr False),
     se_BootstrapCluster = (\<lambda>_. Inr ()), se_polls = (\<lambda>i. sample_voter\<lparr>sg_leading := 1 \<le> i\<rparr>)\<rparr>"

theorem Node_Start_outcome_witness:
  "fst (Node_Start mem_bolt sample_env (NewNode sample_config)) = Inr ()"
proof -
  have "\<exists>l s. start_raft mem_bolt sample_env = Inr (single_raft mem_bolt, l, s, ''127.0.0.1:7000'')"
    by (simp add: start_raft_def sample_env_def NewBoltStore_def BoltStore_initialize_def db_Update_def mem_bolt_def)
  then obtain l s where start: "start_raft mem_bolt sample_env = Inr (single_raft mem_bolt, l, s, ''127.0.0.1:7000'')" by blast
  have cfg: "nd_config (NewNode sample_config) = sample_config" by (simp add: NewNode_def)
  have sel: "\<not> nc_Bootstrap sample_config" "nc_NodeID sample_config = ''node1''" "nc_JoinRetries sample_config = 0"
    by (simp_all add: sample_config_def)
  have "poll_ok (single_raft mem_bolt) ''node1'' (se_polls sample_env 1)"
    by (simp add: poll_ok_def single_raft_def sample_env_def)
  then have "\<exists>i. 0 \<le> i \<and> i < 30 \<and> poll_ok (single_raft mem_bolt) ''node1'' (se_polls sample_env i)"
    by (intro exI [of _ 1]) simp
  with Node_Start_outcome [OF start cfg] sel show ?thesis by simp
qed

text \<open>
  An interval that is not positive is an error. With a positive one the
  rotator returns exactly when it is stopped or its context is cancelled; until then every
  tick transfers leadership if the node leads and does nothing otherwise, and a failed
  transfer does not end the loop. To stop it twice is a panic.
\<close>

theorem rotator_behaviour:
  "Rotator_Start dur rot msgs r =
     (if lr_interval rot \<le> 0 then (Some (Inl (Errorf (''invalid interval: '' @ dur (lr_interval rot)))), r)
      else (rotator_end msgs,
        foldl (\<lambda>r f. if Node_IsLeader (lr_node rot) (f r) then snd (TransferLeadership (lr_node rot) (f r)) else f r) r (ticks msgs)))
   \<and> Option.bind (Rotator_Stop rot) Rotator_Stop = None"
  by (simp add: Rotator_Start_def rotator_loop_eq rotate_def Rotator_Stop_def)

end
