(* ===== verification/RaftHandler.thy ===== *)
theory RaftHandler
  imports Handler Node
begin

text \<open>
  Package internal/verify, file handler_raft.go: the event handler of a node that replicates
  hash entries through Raft instead of writing them itself.
\<close>

section \<open>State and operations\<close>

record ('r, 'db) RaftHashChainHandler =
  rh_handler :: HashChainHandler
  rh_raftNode :: "('r, 'db) Node option"

definition NewRaftHashChainHandler :: "HashChainHandler \<Rightarrow> ('r, 'db) Node option \<Rightarrow> ('r, 'db) RaftHashChainHandler" where
  "NewRaftHashChainHandler handler raftNode = \<lparr>rh_handler = handler, rh_raftNode = raftNode\<rparr>"

text \<open>The log entry of an insertion. Its number is converted to float64 before it is encoded.\<close>

definition hash_log :: "(string \<Rightarrow> string) \<Rightarrow> gotime \<Rightarrow> ChangeEvent \<Rightarrow> 64 word \<Rightarrow> LogEntry" where
  "hash_log H now event seqNum =
     \<lparr>le_Type = LogEntryHashChain, le_TableName = ev_TableName event,
      le_Data = [(''sequence_num'', JNum (float64 (uint seqNum))),
                 (''data_hash'', JStr (CalculateDataHash H (ev_NewData event))),
                 (''operation_type'', JStr (ev_Operation event)),
                 (''record_id'', JStr (fmt_v_map (ev_PrimaryKey event)))],
      le_Timestamp = now\<rparr>"

text \<open>
  HandleChange on the state of Raft and the store; \<^const>\<open>None\<close> is the panic of a node that has
  not been started. The second test for the table cannot fail and is kept as the code has it.
\<close>

definition RaftHandler_HandleChange ::
    "'db bolt \<Rightarrow> (string \<Rightarrow> string) \<Rightarrow> gotime \<Rightarrow> ('r, 'db) RaftHashChainHandler \<Rightarrow> ChangeEvent \<Rightarrow> 'r \<times> 'db
      \<Rightarrow> (unit result \<times> 'r \<times> 'db) option" where
  "RaftHandler_HandleChange B H now h event w =
     (case map_of (tableConfigs (rh_handler h)) (ev_TableName event) of
        None \<Rightarrow> Some (Inr (), w)
      | Some _ \<Rightarrow>
          if ev_Operation event = OperationUpdate \<or> ev_Operation event = OperationDelete
          then Some (Inl (NewTamperingError (ev_TableName event) (ev_Operation event)), w)
          else
            (case rh_raftNode h of
               None \<Rightarrow>
                 (case Handler_HandleChange B H now (rh_handler h) event (snd w) of
                    Inl err \<Rightarrow> Some (Inl err, w)
                  | Inr db' \<Rightarrow> Some (Inr (), fst w, db'))
             | Some n \<Rightarrow>
                 if map_of (tableConfigs (rh_handler h)) (ev_TableName event) = None
                 then Some (Inl (Errorf (''table not configured: '' @ ev_TableName event)), w)
                 else
                   (case ApplyLog n (hash_log H now event (next_seq (GetLatestHashEntry B (ev_TableName event) (snd w)))) w of
                      None \<Rightarrow> None
                    | Some (Inl err, w') \<Rightarrow>
                        Some (if \<not> Node_IsLeader n (fst w') then Inr ()
                              else Inl (Wrapf ''failed to replicate via raft'' err), w')
                    | Some (Inr _, w') \<Rightarrow> Some (Inr (), w'))))"

section \<open>What the log carries\<close>

lemma hash_data_at:
  "data_at (hash_log H now event n) ''sequence_num'' = JNum (float64 (uint n))"
  "data_at (hash_log H now event n) ''data_hash'' = JStr (CalculateDataHash H (ev_NewData event))"
  "data_at (hash_log H now event n) ''operation_type'' = JStr (ev_Operation event)"
  "data_at (hash_log H now event n) ''record_id'' = JStr (fmt_v_map (ev_PrimaryKey event))"
  by (simp_all add: data_at_def hash_log_def)

text \<open>The number as it is read from the log.\<close>

definition logged_seq :: "64 word \<Rightarrow> 64 word" where
  "logged_seq n = uint64_of_float (float64 (float64 (uint n)))"

lemma log_hash_entry_log: "log_hash_entry (hash_log H now event n) = Some (make_entry H now event (logged_seq n))"
  unfolding log_hash_entry_def hash_data_at
  by (simp add: as_string_def as_float64_def logged_seq_def make_entry_def hash_log_def)

lemma logged_seq_exact: "uint n < 2 ^ 53 \<Longrightarrow> logged_seq n = n"
  by (simp add: logged_seq_def float64_exact uint64_of_float_def)

text \<open>The texts of an event that JSON can carry.\<close>

definition event_utf8 :: "(string \<Rightarrow> string) \<Rightarrow> gotime \<Rightarrow> ChangeEvent \<Rightarrow> bool" where
  "event_utf8 H now event \<longleftrightarrow> entry_utf8 (make_entry H now event 0)"

lemma hash_log_ok: "event_utf8 H now event \<Longrightarrow> logEntry_ok (hash_log H now event n)"
  by (auto simp: logEntry_ok_def hash_log_def members_ok_iff event_utf8_def entry_utf8_def make_entry_def
      LogEntryHashChain_def valid_utf8_literal)

lemma FSM_Apply_hash_log:
  assumes "event_utf8 H now event" "log_Data log = marshal_logEntry (hash_log H now event n)"
  shows "snd (FSM_Apply B log db) = store_after db (SaveHashEntry B (make_entry H now event (logged_seq n)) db)"
proof -
  have "FSM_Apply B log db = applyHashChain B (hash_log H now event n) db"
    by (rule FSM_Apply_marshalled(1) [OF hash_log_ok [OF assms(1)] assms(2)]) (simp add: hash_log_def)
  then show ?thesis by (simp add: applyHashChain_def log_hash_entry_log)
qed

section \<open>Precision\<close>

lemma bit_length_bounds: "0 < n \<Longrightarrow> 2 ^ (bit_length n - 1) \<le> n \<and> n < 2 ^ bit_length n"
proof (induction n rule: bit_length.induct)
  case (1 n)
  show ?case
  proof (cases "n div 2 = 0")
    case True
    with "1.prems" have "n = 1" by simp
    then show ?thesis by (simp add: bit_length.simps [of "Suc 0"] bit_length.simps [of 0])
  next
    case False
    let ?b = "bit_length (n div 2)"
    have IH: "2 ^ (?b - 1) \<le> n div 2" "n div 2 < 2 ^ ?b" using "1.IH" "1.prems" False by auto
    have "?b \<noteq> 0" using False by (subst bit_length.simps) simp
    then have "(2::nat) ^ ?b = 2 * 2 ^ (?b - 1)" by (cases ?b) simp_all
    with IH have "2 ^ ?b \<le> n" by linarith
    moreover have "n < 2 ^ Suc ?b" using IH(2) by simp
    moreover have "bit_length n = Suc ?b" using "1.prems" by (subst bit_length.simps) simp
    ultimately show ?thesis by simp
  qed
qed

text \<open>Rounding to 53 bits errs by at most one part in \<open>2 ^ 53\<close>.\<close>

lemma round53_error: "2 ^ 53 * \<bar>int (round53 n) - int n\<bar> \<le> int n"
proof (cases "n < 2 ^ 53")
  case True
  then show ?thesis by (simp add: round53_def)
next
  case False
  define e where "e = bit_length n - 53"
  define q where "q = n div 2 ^ e"
  define r where "r = n mod 2 ^ e"
  have b: "2 ^ (bit_length n - 1) \<le> n" "n < 2 ^ bit_length n" using bit_length_bounds [of n] False by auto
  have "\<not> bit_length n \<le> 53"
    using b(2) False power_increasing [of "bit_length n" 53 "2::nat"] by linarith
  then have e: "e \<noteq> 0" "bit_length n - 1 = 52 + e" by (simp_all add: e_def)
  then obtain k where k: "e = Suc k" by (cases e) auto
  have n: "n = q * 2 ^ e + r" "r < 2 ^ e" unfolding q_def r_def by (simp_all only: div_mult_mod_eq) simp
  define half where "half = (2::nat) ^ k"
  have pe: "(2::nat) ^ e = 2 * half" by (simp add: k half_def)
  have "round53 n = (if half < r \<or> r = half \<and> odd q then q + 1 else q) * 2 ^ e"
    using False by (simp add: round53_def Let_def k half_def q_def r_def flip: e_def)
  then have "\<bar>int (round53 n) - int n\<bar> \<le> int half"
    using n by (auto simp: pe algebra_simps)
  then have "2 ^ 53 * \<bar>int (round53 n) - int n\<bar> \<le> 2 ^ 53 * int half" by (rule mult_left_mono) simp
  moreover have "2 ^ 53 * half \<le> n"
    using b(1) unfolding e(2) by (simp add: k half_def power_add)
  then have "int (2 ^ 53 * half) \<le> int n" by (rule of_nat_mono)
  ultimately show ?thesis by simp
qed

lemma bit_length_le: "n < 2 ^ k \<Longrightarrow> bit_length n \<le> k"
proof (induction n arbitrary: k rule: bit_length.induct)
  case (1 n)
  show ?case
  proof (cases "n = 0")
    case False
    with "1.prems" obtain j where "k = Suc j" by (cases k) auto
    with "1.IH" [of j] "1.prems" False show ?thesis by (subst bit_length.simps) auto
  qed (simp add: bit_length.simps [of 0])
qed

text \<open>Values with 53 significant bits are kept, so rounding twice is rounding once.\<close>

lemma round53_fixed: "q < 2 ^ 53 \<Longrightarrow> round53 (q * 2 ^ e) = q * 2 ^ e"
proof -
  assume q: "q < 2 ^ 53"
  define m where "m = q * 2 ^ e"
  have "m < 2 ^ (53 + e)" using q by (simp add: m_def power_add)
  then have "bit_length m - 53 \<le> e" using bit_length_le by fastforce
  then have "(2::nat) ^ (bit_length m - 53) dvd m" by (simp add: m_def dvd_mult le_imp_power_dvd)
  then have "m div 2 ^ (bit_length m - 53) * 2 ^ (bit_length m - 53) = m" "m mod 2 ^ (bit_length m - 53) = 0" by simp_all
  then have "round53 m = m" by (simp add: round53_def Let_def)
  then show ?thesis by (simp add: m_def)
qed

lemma round53_round53: "round53 (round53 n) = round53 n"
proof (cases "n < 2 ^ 53")
  case True
  then show ?thesis by (simp add: round53_def)
next
  case False
  define e where "e = bit_length n - 53"
  have "bit_length n \<le> 53 + e" by (simp add: e_def)
  then have "(2::nat) ^ bit_length n \<le> 2 ^ (53 + e)" by (rule power_increasing) simp
  moreover have "n < 2 ^ bit_length n" using bit_length_bounds [of n] False by simp
  ultimately have "n < 2 ^ (53 + e)" by linarith
  then have q: "n div 2 ^ e < 2 ^ 53" by (simp add: power_add less_mult_imp_div_less)
  obtain q' where q': "round53 n = q' * 2 ^ e" "q' = n div 2 ^ e \<or> q' = n div 2 ^ e + 1"
    using False unfolding round53_def Let_def e_def [symmetric] by (auto split: if_splits)
  show ?thesis
  proof (cases "q' < 2 ^ 53")
    case True
    then show ?thesis using q'(1) by (simp add: round53_fixed)
  next
    case False
    then have "q' = 2 ^ 53" using q q'(2) by linarith
    then have "round53 n = 2 ^ 52 * 2 ^ Suc e" using q'(1) by simp
    then show ?thesis using round53_fixed [of "2 ^ 52" "Suc e"] by simp
  qed
qed

lemma logged_seq_float: "logged_seq n = word_of_int (int (round53 (unat n)))"
proof -
  have "float64 (uint n) = int (round53 (unat n))" by (simp add: float64_def)
  then show ?thesis by (simp add: logged_seq_def uint64_of_float_def float64_def round53_round53)
qed


section \<open>The handler against the local one\<close>

text \<open>An event that passes the tests and goes to Raft.\<close>

definition to_raft :: "('r, 'db) RaftHashChainHandler \<Rightarrow> ('r, 'db) Node \<Rightarrow> ChangeEvent \<Rightarrow> bool" where
  "to_raft h n event \<longleftrightarrow> map_of (tableConfigs (rh_handler h)) (ev_TableName event) \<noteq> None
     \<and> ev_Operation event \<noteq> OperationUpdate \<and> ev_Operation event \<noteq> OperationDelete \<and> rh_raftNode h = Some n"

lemma HandleChange_to_raft:
  assumes "to_raft h n event" "nd_raft n = Some R"
  shows "\<exists>res w'. ApplyLog n (hash_log H now event (next_seq (GetLatestHashEntry B (ev_TableName event) (snd w)))) w = Some (res, w')
    \<and> RaftHandler_HandleChange B H now h event w =
        Some (case res of Inl err \<Rightarrow> if Node_IsLeader n (fst w') then Inl (Wrapf ''failed to replicate via raft'' err) else Inr ()
                        | Inr _ \<Rightarrow> Inr (), w')"
proof -
  have "\<exists>res w'. ApplyLog n (hash_log H now event (next_seq (GetLatestHashEntry B (ev_TableName event) (snd w)))) w = Some (res, w')"
    using assms(2) by (auto simp: ApplyLog_def split: prod.splits)
  then obtain res w' where
    a: "ApplyLog n (hash_log H now event (next_seq (GetLatestHashEntry B (ev_TableName event) (snd w)))) w = Some (res, w')" by blast
  show ?thesis
    using assms(1) a by (cases res) (auto simp: to_raft_def RaftHandler_HandleChange_def)
qed

lemma Handler_HandleChange_insertion:
  assumes "to_raft h n event"
  shows "Handler_HandleChange B H now (rh_handler h) event db =
    SaveHashEntry B (make_entry H now event (next_seq (GetLatestHashEntry B (ev_TableName event) db))) db"
  using assms by (auto simp: Handler_HandleChange_def to_raft_def)

section \<open>Properties\<close>

text \<open>
  When Raft accepts the entry of an insertion and nothing else is
  committed in between, the store is the one the local handler leaves, as long as the
  numbers stay below \<open>2 ^ 53\<close>; in general the entry is the one the local handler would
  write, on top of what was committed before it. The handler reports success in either
  case, also where the local one reports that the entry could not be stored.
\<close>

theorem raft_handler_equiv:
  assumes "raft_library R B" "to_raft h n event" "nd_raft n = Some R" "event_utf8 H now event"
    and "uint (next_seq (GetLatestHashEntry B (ev_TableName event) db)) < 2 ^ 53"
    and "raft_Apply R (marshal_logEntry (hash_log H now event (next_seq (GetLatestHashEntry B (ev_TableName event) db)))) (r, db) =
      (Inr (), r', db')"
  shows "RaftHandler_HandleChange B H now h event (r, db) = Some (Inr (), r', db')
    \<and> (\<exists>logs. db' = store_after (apply_all B logs db)
         (SaveHashEntry B (make_entry H now event (next_seq (GetLatestHashEntry B (ev_TableName event) db))) (apply_all B logs db))
       \<and> (logs = [] \<longrightarrow> db' = store_after db (Handler_HandleChange B H now (rh_handler h) event db)))"
proof -
  let ?n = "next_seq (GetLatestHashEntry B (ev_TableName event) db)"
  have lead: "raft_is_leader R r"
    using raft_library.apply_follower [OF assms(1)] assms(6) by (metis fst_conv)
  then have al: "ApplyLog n (hash_log H now event ?n) (r, db) = Some (Inr (), r', db')"
    using assms(3,6) by (simp add: ApplyLog_def)
  then have "RaftHandler_HandleChange B H now h event (r, db) = Some (Inr (), r', db')"
    using HandleChange_to_raft [OF assms(2,3), of H now B "(r, db)"] by auto
  moreover obtain logs log where "log_Data log = marshal_logEntry (hash_log H now event ?n)"
    "db' = snd (FSM_Apply B log (apply_all B logs db))"
    using raft_library.ApplyLog_applied(2) [OF assms(1,3) al] by auto
  then have "db' = store_after (apply_all B logs db) (SaveHashEntry B (make_entry H now event ?n) (apply_all B logs db))"
    using FSM_Apply_hash_log [OF assms(4), of log ?n B "apply_all B logs db"] logged_seq_exact [OF assms(5)] by simp
  moreover from this have "logs = [] \<longrightarrow> db' = store_after db (Handler_HandleChange B H now (rh_handler h) event db)"
    by (simp add: Handler_HandleChange_insertion [OF assms(2)])
  ultimately show ?thesis by blast
qed

text \<open>
  A stream of events, each with the time at which it is handled, up to the first error; and a
  run in which the node leads throughout, every entry is accepted and nothing else is committed.
\<close>

fun raft_handle_all ::
    "'db bolt \<Rightarrow> (string \<Rightarrow> string) \<Rightarrow> ('r, 'db) RaftHashChainHandler \<Rightarrow> (gotime \<times> ChangeEvent) list \<Rightarrow> 'r \<times> 'db
      \<Rightarrow> (unit result \<times> 'r \<times> 'db) option" where
  "raft_handle_all B H h [] w = Some (Inr (), w)"
| "raft_handle_all B H h ((now, event) # events) w =
     (case RaftHandler_HandleChange B H now h event w of
        None \<Rightarrow> None
      | Some (Inl err, w') \<Rightarrow> Some (Inl err, w')
      | Some (Inr _, w') \<Rightarrow> raft_handle_all B H h events w')"

inductive quiet_run ::
    "'db bolt \<Rightarrow> (string \<Rightarrow> string) \<Rightarrow> ('r, 'db) raft \<Rightarrow> ('r, 'db) Node \<Rightarrow> ('r, 'db) RaftHashChainHandler
      \<Rightarrow> (gotime \<times> ChangeEvent) list \<Rightarrow> 'r \<times> 'db \<Rightarrow> 'r \<times> 'db \<Rightarrow> bool" for B H R n h where
  finished: "quiet_run B H R n h [] w w"
| accepted: "to_raft h n event \<Longrightarrow> event_utf8 H now event \<Longrightarrow>
    seqNum = next_seq (GetLatestHashEntry B (ev_TableName event) db) \<Longrightarrow> uint seqNum < 2 ^ 53 \<Longrightarrow>
    log_Data log = marshal_logEntry (hash_log H now event seqNum) \<Longrightarrow>
    raft_is_leader R r \<Longrightarrow>
    raft_Apply R (log_Data log) (r, db) = (Inr (), r1, snd (FSM_Apply B log db)) \<Longrightarrow>
    quiet_run B H R n h events (r1, snd (FSM_Apply B log db)) w \<Longrightarrow>
    quiet_run B H R n h ((now, event) # events) (r, db) w"

lemma accepted_step:
  assumes "to_raft h n event" "event_utf8 H now event" "seqNum = next_seq (GetLatestHashEntry B (ev_TableName event) db)"
    and "uint seqNum < 2 ^ 53" "log_Data log = marshal_logEntry (hash_log H now event seqNum)" "nd_raft n = Some R"
    and "raft_is_leader R r" "raft_Apply R (log_Data log) (r, db) = (Inr (), r1, db1)" "db1 = snd (FSM_Apply B log db)"
  shows "RaftHandler_HandleChange B H now h event (r, db) = Some (Inr (), r1, db1)"
    and "db1 = store_after db (Handler_HandleChange B H now (rh_handler h) event db)"
proof -
  have "ApplyLog n (hash_log H now event seqNum) (r, db) = Some (Inr (), r1, db1)"
    using assms(5-8) by (simp add: ApplyLog_def)
  then show "RaftHandler_HandleChange B H now h event (r, db) = Some (Inr (), r1, db1)"
    using HandleChange_to_raft [OF assms(1,6), of H now B "(r, db)"] assms(3) by auto
  show "db1 = store_after db (Handler_HandleChange B H now (rh_handler h) event db)"
    using FSM_Apply_hash_log [OF assms(2,5), of B db] logged_seq_exact [OF assms(4)] assms(9)
    by (simp add: Handler_HandleChange_insertion [OF assms(1)] flip: assms(3))
qed

text \<open>
  Over such a run the replicating handler reports no error, and if the
  local handler records the same events without one, both leave the same store: what is shown
  of the local handler's chain holds of the replicated one.
\<close>

theorem replicated_stream:
  assumes "quiet_run B H R n h events (r, db) (r', db')" "nd_raft n = Some R"
    and "handle_all B H (rh_handler h) events db = Inr db''"
  shows "raft_handle_all B H h events (r, db) = Some (Inr (), r', db') \<and> db' = db''"
proof -
  have "raft_handle_all B H h events w = Some (Inr (), w') \<and> snd w' = db''"
    if "quiet_run B H R n h events w w'" "handle_all B H (rh_handler h) events (snd w) = Inr db''" for w w'
    using that
  proof (induction rule: quiet_run.induct)
    case (accepted event now seqNum db log r r1 events w)
    note step = accepted_step [OF accepted.hyps(1-5) assms(2) accepted.hyps(6,7) refl]
    obtain db1 where "Handler_HandleChange B H now (rh_handler h) event db = Inr db1" "handle_all B H (rh_handler h) events db1 = Inr db''"
      using accepted.prems by (auto simp: bind_res_eq_Inr_iff)
    with step accepted.IH show ?case by (simp add: store_after_def)
  qed simp
  from this [OF assms(1)] assms(3) show ?thesis by simp
qed

text \<open>
  A node that does not lead reports success for every insertion and
  records nothing: an insertion whose event no leader handles is on record nowhere.
\<close>

theorem follower_drops:
  assumes "to_raft h n event" "nd_raft n = Some R" "\<not> raft_is_leader R r"
  shows "RaftHandler_HandleChange B H now h event (r, db) = Some (Inr (), r, db)"
  using HandleChange_to_raft [OF assms(1,2), of H now B "(r, db)"] assms(2,3)
  by (auto simp: ApplyLog_def Node_IsLeader_def)

text \<open>
  C26. Updates and deletions of a protected table are reported by every
  node, leader or not, and changes of other tables are ignored; a failure of Raft is
  reported if the node still leads afterwards, and passed over in silence if it does not.
\<close>

theorem raft_handler_reports:
  assumes "nd_raft n = Some R" "rh_raftNode h = Some n"
  shows "(map_of (tableConfigs (rh_handler h)) (ev_TableName event) = None \<longrightarrow>
      RaftHandler_HandleChange B H now h event w = Some (Inr (), w))
    \<and> (map_of (tableConfigs (rh_handler h)) (ev_TableName event) \<noteq> None \<and> ev_Operation event \<in> {OperationUpdate, OperationDelete} \<longrightarrow>
      RaftHandler_HandleChange B H now h event w = Some (Inl (TamperingErr (ev_TableName event) (ev_Operation event)), w))
    \<and> (to_raft h n event \<and> raft_is_leader R (fst w)
        \<and> raft_Apply R (marshal_logEntry (hash_log H now event (next_seq (GetLatestHashEntry B (ev_TableName event) (snd w))))) w = (Inl err, w') \<longrightarrow>
      RaftHandler_HandleChange B H now h event w =
        Some (if raft_is_leader R (fst w') then Inl (Wrapf ''failed to replicate via raft'' (Wrapf ''failed to apply log'' err)) else Inr (), w'))"
proof (intro conjI impI)
  show "RaftHandler_HandleChange B H now h event w = Some (Inr (), w)"
    if "map_of (tableConfigs (rh_handler h)) (ev_TableName event) = None"
    using that by (simp add: RaftHandler_HandleChange_def)
  show "RaftHandler_HandleChange B H now h event w = Some (Inl (TamperingErr (ev_TableName event) (ev_Operation event)), w)"
    if "map_of (tableConfigs (rh_handler h)) (ev_TableName event) \<noteq> None \<and> ev_Operation event \<in> {OperationUpdate, OperationDelete}"
    using that by (auto simp: RaftHandler_HandleChange_def NewTamperingError_def)
  assume a: "to_raft h n event \<and> raft_is_leader R (fst w)
        \<and> raft_Apply R (marshal_logEntry (hash_log H now event (next_seq (GetLatestHashEntry B (ev_TableName event) (snd w))))) w = (Inl err, w')"
  then show "RaftHandler_HandleChange B H now h event w =
        Some (if raft_is_leader R (fst w') then Inl (Wrapf ''failed to replicate via raft'' (Wrapf ''failed to apply log'' err)) else Inr (), w')"
    using HandleChange_to_raft [of h n event R H now B w] assms(1) by (auto simp: ApplyLog_def Node_IsLeader_def)
qed

text \<open>
  C27. The number of an entry survives the log exactly below
  \<open>2 ^ 53\<close>; above, what is stored differs from it by at most one part in \<open>2 ^ 53\<close>, as long
  as it is at most \<open>2 ^ 64 - 2 ^ 12\<close>.
\<close>

theorem sequence_number_precision:
  assumes "uint n \<le> 2 ^ 64 - 2 ^ 12"
  shows "\<exists>e. log_hash_entry (hash_log H now event n) = Some e
    \<and> (uint n < 2 ^ 53 \<longrightarrow> SequenceNum e = n) \<and> 2 ^ 53 * \<bar>uint (SequenceNum e) - uint n\<bar> \<le> uint n"
proof -
  let ?m = "round53 (unat n)"
  have err: "2 ^ 53 * \<bar>int ?m - uint n\<bar> \<le> uint n"
    using round53_error [of "unat n"] by simp
  have less: "x < 2 ^ 64" if "2 ^ 53 * \<bar>x - u\<bar> \<le> u" "u \<le> 2 ^ 64 - 2 ^ 12" for x u :: int
    using that by (cases "u \<le> x") simp_all
  from less [OF err assms] have "int ?m < 2 ^ 64" .
  then have "uint (logged_seq n) = int ?m"
    by (simp add: logged_seq_float uint_word_of_int del: of_int_of_nat_eq)
  with err log_hash_entry_log [of H now event n] logged_seq_exact [of n] show ?thesis
    by (simp add: make_entry_def)
qed

text \<open>A single voter with the handler of the table logs.\<close>

definition sample_event :: ChangeEvent where
  "sample_event = snd (sample_insert 1)"

definition sample_raft_handler :: "(mem_db single, mem_db) RaftHashChainHandler" where
  "sample_raft_handler = NewRaftHashChainHandler sample_handler (Some sample_node)"

theorem sequence_number_precision_witness:
  "\<exists>e. log_hash_entry (hash_log sample_hash ''2024'' sample_event 9007199254740993) = Some e
    \<and> 2 ^ 53 * \<bar>uint (SequenceNum e) - 9007199254740993\<bar> \<le> 9007199254740993"
  using sequence_number_precision [of 9007199254740993 sample_hash "''2024''" sample_event] by auto

lemma sample_to_raft: "to_raft sample_raft_handler sample_node sample_event"
  by (simp add: to_raft_def sample_raft_handler_def NewRaftHashChainHandler_def sample_handler_def sample_event_def sample_insert_def)

lemma sample_raft: "nd_raft sample_node = Some (single_raft mem_bolt)"
  by (simp add: sample_node_def)

lemma sample_hash_log: "hash_log sample_hash ''2024-01-01T00:00:00Z'' sample_event 1 = sample_logEntry"
  by (simp add: hash_log_def sample_event_def sample_insert_def sample_logEntry_def sample_hash_def float64_exact fmt_v_map_def
      CalculateDataHash_def OperationInsert_def)

lemma sample_log_length: "length (marshal_logEntry sample_logEntry) \<le> 2000"
  by code_simp

lemma sample_next: "next_seq (GetLatestHashEntry mem_bolt ''logs'' []) = 1"
  by (simp add: next_seq_def GetLatestHashEntry_def mem_bolt_def mem_bucket_def scan_prefix_def)

lemma sample_applied:
  "\<exists>r' log. log_Data log = marshal_logEntry sample_logEntry
     \<and> raft_Apply (single_raft mem_bolt) (log_Data log) (sample_voter, []) = (Inr (), r', snd (FSM_Apply mem_bolt log []))"
proof -
  have last: "LastIndex mem_bolt [] = Some 0" by (simp add: LastIndex_def mem_bolt_def mem_bucket_def)
  define log where "log = zero_Log\<lparr>log_Index := 1, log_Term := 1, log_Data := marshal_logEntry sample_logEntry\<rparr>"
  have "\<exists>logdb. StoreLogs mem_bolt [log] [] = Inr logdb"
    by (rule mem.StoreLogs_ok) (use sample_log_length in \<open>simp add: log_def\<close>)
  then obtain logdb where "StoreLog mem_bolt log [] = Inr logdb" by (auto simp: StoreLog_def)
  then have "raft_Apply (single_raft mem_bolt) (log_Data log) (sample_voter, []) =
      (Inr (), sample_voter\<lparr>sg_log := logdb\<rparr>, snd (FSM_Apply mem_bolt log []))"
    by (simp add: single_raft_def single_apply_def sample_voter_def last Let_def log_def)
  moreover have "log_Data log = marshal_logEntry sample_logEntry" by (simp add: log_def)
  ultimately show ?thesis by blast
qed

lemma sample_event_utf8: "event_utf8 sample_hash ''2024-01-01T00:00:00Z'' sample_event"
  by (simp add: event_utf8_def entry_utf8_def make_entry_def sample_event_def sample_insert_def CalculateDataHash_def sample_hash_def fmt_v_map_def
      operation_defs valid_utf8_literal)

theorem raft_handler_equiv_witness:
  "\<exists>r' db' logs. RaftHandler_HandleChange mem_bolt sample_hash ''2024-01-01T00:00:00Z'' sample_raft_handler sample_event (sample_voter, []) =
     Some (Inr (), r', db')
     \<and> db' = store_after (apply_all mem_bolt logs [])
        (SaveHashEntry mem_bolt (make_entry sample_hash ''2024-01-01T00:00:00Z'' sample_event 1) (apply_all mem_bolt logs []))"
proof -
  have t: "ev_TableName sample_event = ''logs''" by (simp add: sample_event_def sample_insert_def)
  obtain r' db' where "raft_Apply (single_raft mem_bolt) (marshal_logEntry sample_logEntry) (sample_voter, []) = (Inr (), r', db')"
    using sample_applied by metis
  then show ?thesis
    using raft_handler_equiv [OF single.raft_library_axioms sample_to_raft sample_raft sample_event_utf8, of "[]" sample_voter r' db']
    by (auto simp: t sample_next sample_hash_log)
qed

theorem replicated_stream_witness:
  "\<exists>r' db'. raft_handle_all mem_bolt sample_hash sample_raft_handler [(''2024-01-01T00:00:00Z'', sample_event)] (sample_voter, []) =
       Some (Inr (), r', db')
     \<and> handle_all mem_bolt sample_hash sample_handler [(''2024-01-01T00:00:00Z'', sample_event)] [] = Inr db'"
proof -
  have t: "ev_TableName sample_event = ''logs''" by (simp add: sample_event_def sample_insert_def)
  obtain r' log where log: "log_Data log = marshal_logEntry sample_logEntry"
    "raft_Apply (single_raft mem_bolt) (log_Data log) (sample_voter, []) = (Inr (), r', snd (FSM_Apply mem_bolt log []))"
    using sample_applied by blast
  have lead: "raft_is_leader (single_raft mem_bolt) sample_voter" by (simp add: single_raft_def sample_voter_def)
  have run: "quiet_run mem_bolt sample_hash (single_raft mem_bolt) sample_node sample_raft_handler
      [(''2024-01-01T00:00:00Z'', sample_event)] (sample_voter, []) (r', snd (FSM_Apply mem_bolt log []))"
    by (rule quiet_run.accepted [OF sample_to_raft sample_event_utf8 refl _ _ lead log(2) quiet_run.finished])
      (simp_all add: t sample_next sample_hash_log log(1))
  have h: "rh_handler sample_raft_handler = sample_handler" by (simp add: sample_raft_handler_def NewRaftHashChainHandler_def)
  have ev: "sample_insert (Suc 0) = (''2024-01-01T00:00:00Z'', sample_event)" by (simp add: sample_event_def sample_insert_def)
  obtain db' where "handle_all mem_bolt sample_hash sample_handler [(''2024-01-01T00:00:00Z'', sample_event)] [] = Inr db'"
    using mem.insertions_stored [of sample_hash sample_handler "''logs''" "[sample_insert (Suc 0)]" "[]"] sample_stream [of 2]
    by (auto simp: ev numeral_2_eq_2)
  with replicated_stream [OF run sample_raft, unfolded h] show ?thesis by blast
qed

theorem follower_drops_witness:
  "RaftHandler_HandleChange mem_bolt sample_hash ''2024'' sample_raft_handler sample_event (sample_voter\<lparr>sg_leading := False\<rparr>, []) =
     Some (Inr (), sample_voter\<lparr>sg_leading := False\<rparr>, [])"
  by (rule follower_drops [OF sample_to_raft sample_raft]) (simp add: single_raft_def)

theorem raft_handler_reports_witness:
  "RaftHandler_HandleChange mem_bolt sample_hash ''2024'' sample_raft_handler
     (sample_event\<lparr>ev_Operation := OperationDelete\<rparr>) (sample_voter, []) =
     Some (Inl (TamperingErr ''logs'' ''DELETE''), sample_voter, [])"
  using raft_handler_reports [OF sample_raft, of sample_raft_handler "sample_event\<lparr>ev_Operation := OperationDelete\<rparr>"
      mem_bolt sample_hash "''2024''" "(sample_voter, [])"]
  by (simp add: sample_raft_handler_def NewRaftHashChainHandler_def sample_handler_def sample_event_def sample_insert_def OperationDelete_def)

end
