(* ===== verification/Cluster.thy ===== *)
theory Cluster
  imports Fsm
begin

text \<open>
  The nodes of a cluster as replicas of one log. The Raft library commits entries to a log
  that all nodes agree on and hands them to each node's state machine in order. It asks the
  state machine for a snapshot at some index and lets it write the snapshot later, while
  entries go on being applied. After a restart it restores a snapshot, if there is one, and
  hands out again what follows it, while the store of the node has kept everything; a node
  that has fallen behind is sent a snapshot. A node may also save a checkpoint of its own,
  outside the log.

  The step relation has one rule for each of these; the invariant is that a node's hash
  entries are those of the log up to the greatest index they stem from, except for keys
  that the entries it is about to apply again write.
\<close>

section \<open>Steps\<close>

text \<open>
  A node has its store, the index it has applied, the greatest index its store has entries
  of, and the snapshot that has been taken and not yet written, with its index. The address
  of the store is the number of the node. The snapshots that have been written have their
  index, the greatest index their entries stem from, and the text.
\<close>

record 'db replica =
  rp_db :: 'db
  rp_applied :: nat
  rp_high :: nat
  rp_snap :: "(nat \<times> fsmSnapshot) option"

record 'db cluster =
  cl_log :: "raft_Log list"
  cl_node :: "nat \<Rightarrow> 'db replica"
  cl_snapshots :: "(nat \<times> nat \<times> bytes) list"

text \<open>A log entry that the state machine can store, and whose hash entry it can read again.\<close>

definition storable_log :: "raft_Log \<Rightarrow> bool" where
  "storable_log log \<longleftrightarrow> write_small log \<and>
     (\<forall>k x. log_write log = Some ((HashChainBucket, k), x) \<longrightarrow> (\<exists>e. entry_ok e \<and> k = entry_key e \<and> x = marshal_entry e))"

text \<open>
  A snapshot is restored when the process starts, or on a running node that is behind it; there
  a restoration may fail half-way.
\<close>

inductive cluster_step :: "'db bolt \<Rightarrow> 'db cluster \<Rightarrow> 'db cluster \<Rightarrow> bool" for B where
  commit: "storable_log log \<Longrightarrow> cluster_step B c (c\<lparr>cl_log := cl_log c @ [log]\<rparr>)"
| apply_next: "rp_applied (cl_node c n) < length (cl_log c) \<Longrightarrow>
    r = (cl_node c n)
         \<lparr>rp_db := snd (FSM_Apply B (cl_log c ! rp_applied (cl_node c n)) (rp_db (cl_node c n))),
          rp_applied := Suc (rp_applied (cl_node c n)),
          rp_high := max (rp_high (cl_node c n)) (Suc (rp_applied (cl_node c n)))\<rparr> \<Longrightarrow>
    cluster_step B c (c\<lparr>cl_node := (cl_node c)(n := r)\<rparr>)"
| restart: "j \<le> rp_applied (cl_node c n) \<Longrightarrow>
    cluster_step B c (c\<lparr>cl_node := (cl_node c)(n := (cl_node c n)\<lparr>rp_applied := j, rp_snap := None\<rparr>)\<rparr>)"
| own_checkpoint: "SaveMerkleCheckpoint B cp (rp_db (cl_node c n)) = Inr db' \<Longrightarrow>
    cluster_step B c (c\<lparr>cl_node := (cl_node c)(n := (cl_node c n)\<lparr>rp_db := db'\<rparr>)\<rparr>)"
| snapshot: "FSM_Snapshot (NewFSM n) = Inr s \<Longrightarrow>
    cluster_step B c (c\<lparr>cl_node := (cl_node c)(n := (cl_node c n)\<lparr>rp_snap := Some (rp_applied (cl_node c n), s)\<rparr>)\<rparr>)"
| persist: "rp_snap (cl_node c n) = Some (i, s) \<Longrightarrow>
    Persist B sink (rp_db (cl_node c (snap_storage s))) = Inr out \<Longrightarrow>
    cluster_step B c (c\<lparr>cl_node := (cl_node c)(n := (cl_node c n)\<lparr>rp_snap := None\<rparr>), 
      cl_snapshots := (i, rp_high (cl_node c (snap_storage s)), out) # cl_snapshots c\<rparr>)"
| restore_start: "(i, h, out) \<in> set (cl_snapshots c) \<Longrightarrow> Restore B out (rp_db (cl_node c n)) = (Inr (), db') \<Longrightarrow>
    cluster_step B c (c\<lparr>cl_node := (cl_node c)(n :=
      \<lparr>rp_db = db', rp_applied = i, rp_high = max (rp_high (cl_node c n)) h, rp_snap = None\<rparr>)\<rparr>)"
| install: "(i, h, out) \<in> set (cl_snapshots c) \<Longrightarrow> rp_applied (cl_node c n) \<le> i \<Longrightarrow>
    Restore B out (rp_db (cl_node c n)) = (Inr (), db') \<Longrightarrow>
    cluster_step B c (c\<lparr>cl_node := (cl_node c)(n :=
      (cl_node c n)\<lparr>rp_db := db', rp_applied := i, rp_high := max (rp_high (cl_node c n)) h\<rparr>)\<rparr>)"
| install_failed: "(i, h, out) \<in> set (cl_snapshots c) \<Longrightarrow> rp_applied (cl_node c n) \<le> i \<Longrightarrow>
    Restore B out (rp_db (cl_node c n)) = (Inl err, db') \<Longrightarrow>
    cluster_step B c (c\<lparr>cl_node := (cl_node c)(n :=
      (cl_node c n)\<lparr>rp_db := db', rp_high := max (rp_high (cl_node c n)) h\<rparr>)\<rparr>)"

definition cluster_init :: "'db bolt \<Rightarrow> 'db cluster \<Rightarrow> bool" where
  "cluster_init B c \<longleftrightarrow> cl_log c = [] \<and> cl_snapshots c = [] \<and>
     (\<forall>n. rp_applied (cl_node c n) = 0 \<and> rp_high (cl_node c n) = 0 \<and> rp_snap (cl_node c n) = None
        \<and> bolt_get B (rp_db (cl_node c n)) HashChainBucket = Map.empty)"

inductive cluster_reachable :: "'db bolt \<Rightarrow> 'db cluster \<Rightarrow> bool" for B where
  init: "cluster_init B c \<Longrightarrow> cluster_reachable B c"
| step: "cluster_reachable B c \<Longrightarrow> cluster_step B c c' \<Longrightarrow> cluster_reachable B c'"

section \<open>What a store knows of the log\<close>

text \<open>
  The contents \<open>f\<close> of a bucket stem from the log up to index \<open>h\<close>, and where they differ from what
  the log prescribes, the entries from \<open>i\<close> to \<open>h\<close> will mend them.
\<close>

definition covers :: "raft_Log list \<Rightarrow> nat \<Rightarrow> nat \<Rightarrow> (bytes \<rightharpoonup> bytes) \<Rightarrow> bool" where
  "covers logs i h f \<longleftrightarrow> i \<le> h \<and> h \<le> length logs \<and>
     (\<forall>k. log_contents (drop i (take h logs)) (HashChainBucket, k) = None \<longrightarrow>
        f k = log_contents (take h logs) (HashChainBucket, k))"

lemma log_contents_Cons:
  "log_contents (log # logs) =
     (case log_write log of None \<Rightarrow> log_contents logs | Some (\<kappa>, x) \<Rightarrow> [\<kappa> \<mapsto> x] ++ log_contents logs)"
  by (simp add: log_contents_def map_filter_def split: option.splits)

lemma log_contents_None_iff: "log_contents xs \<kappa> = None \<longleftrightarrow> (\<forall>log \<in> set xs. \<forall>x. log_write log \<noteq> Some (\<kappa>, x))"
proof (induction xs)
  case (Cons log xs)
  then show ?case by (cases "log_write log") (auto simp: log_contents_Cons map_add_None)
qed simp

lemma log_contents_none_mono: "set ys \<subseteq> set xs \<Longrightarrow> log_contents xs \<kappa> = None \<Longrightarrow> log_contents ys \<kappa> = None"
  unfolding log_contents_None_iff by blast

lemma set_segment_mono: "i \<le> i' \<Longrightarrow> h' \<le> h \<Longrightarrow> set (drop i' (take h' logs)) \<subseteq> set (drop i (take h logs))"
proof -
  assume "i \<le> i'" "h' \<le> h"
  then have "set (drop i' (take h' logs)) \<subseteq> set (drop i (take h' logs))" by (simp add: set_drop_subset_set_drop)
  also have "\<dots> \<subseteq> set (drop i (take h logs))"
    unfolding drop_take using \<open>h' \<le> h\<close> by (simp add: set_take_subset_set_take)
  finally show ?thesis .
qed

lemma log_contents_unwritten:
  assumes "i \<le> j" "log_contents (drop i (take j logs)) \<kappa> = None"
  shows "log_contents (take j logs) \<kappa> = log_contents (take i logs) \<kappa>"
proof -
  have "take j logs = take i logs @ drop i (take j logs)"
    using assms(1) by (metis append_take_drop_id min.absorb1 take_take)
  then have "log_contents (take j logs) \<kappa> = (log_contents (take i logs) ++ log_contents (drop i (take j logs))) \<kappa>"
    by (metis log_contents_append)
  then show ?thesis using assms(2) by (simp add: map_add_def)
qed

lemma covers_unwritten:
  assumes "covers logs i h f" "j \<le> i" "h \<le> m" "log_contents (drop j (take m logs)) (HashChainBucket, k) = None"
  shows "f k = log_contents (take j logs) (HashChainBucket, k)"
proof -
  have "log_contents (drop i (take h logs)) (HashChainBucket, k) = None"
    and j: "log_contents (drop j (take h logs)) (HashChainBucket, k) = None"
    by (rule log_contents_none_mono [OF set_segment_mono assms(4)]; use assms(2,3) in simp)+
  moreover have "j \<le> h" using assms(1,2) by (simp add: covers_def)
  ultimately show ?thesis using assms(1) log_contents_unwritten [OF _ j] by (simp add: covers_def)
qed

text \<open>More entries to apply again, and a longer log, do no harm.\<close>

lemma covers_earlier: "covers logs i h f \<Longrightarrow> j \<le> i \<Longrightarrow> covers logs j h f"
  using covers_unwritten [of logs i h f j h] log_contents_unwritten [of j h logs] by (auto simp: covers_def)

lemma covers_commit: "covers logs i h f \<Longrightarrow> covers (logs @ [log]) i h f"
  by (simp add: covers_def)

text \<open>A snapshot restored over a store: all of it, or a part of it on a node that is behind it.\<close>

lemma covers_restore:
  assumes f: "covers logs a h f" and g: "covers logs i h' g"
  shows "covers logs i (max h h') (f ++ g)"
proof -
  let ?m = "max h h'"
  have "(f ++ g) k = log_contents (take ?m logs) (HashChainBucket, k)"
    if none: "log_contents (drop i (take ?m logs)) (HashChainBucket, k) = None" for k
  proof -
    have i: "i \<le> ?m" using g by (auto simp: covers_def)
    have gk: "g k = log_contents (take i logs) (HashChainBucket, k)" by (rule covers_unwritten [OF g _ _ none]) simp_all
    have m: "log_contents (take ?m logs) (HashChainBucket, k) = log_contents (take i logs) (HashChainBucket, k)"
      by (rule log_contents_unwritten [OF i none])
    show ?thesis
    proof (cases "g k")
      case None
      then have "log_contents (drop 0 (take ?m logs)) (HashChainBucket, k) = None" using gk m by simp
      then have "f k = log_contents (take 0 logs) (HashChainBucket, k)" by (intro covers_unwritten [OF f]) simp_all
      with None gk m show ?thesis by (simp add: map_add_def)
    qed (simp add: map_add_def gk m)
  qed
  with f g show ?thesis by (auto simp: covers_def)
qed

lemma covers_partial:
  assumes f: "covers logs a h f" and g: "covers logs i h' g" and "a \<le> i" "g' \<subseteq>\<^sub>m g"
  shows "covers logs a (max h h') (f ++ g')"
proof -
  let ?m = "max h h'"
  have "(f ++ g') k = log_contents (take ?m logs) (HashChainBucket, k)"
    if none: "log_contents (drop a (take ?m logs)) (HashChainBucket, k) = None" for k
  proof -
    have "a \<le> ?m" using f by (auto simp: covers_def)
    then have "log_contents (take ?m logs) (HashChainBucket, k) = log_contents (take a logs) (HashChainBucket, k)"
      by (rule log_contents_unwritten [OF _ none])
    moreover have "f k = log_contents (take a logs) (HashChainBucket, k)" by (rule covers_unwritten [OF f _ _ none]) simp_all
    moreover have "g k = log_contents (take a logs) (HashChainBucket, k)"
      by (rule covers_unwritten [OF g assms(3) _ none]) simp
    ultimately show ?thesis using assms(4) by (cases "g' k") (auto simp: map_add_def map_le_def dest: bspec [OF _ domI])
  qed
  with f g show ?thesis by (auto simp: covers_def)
qed

text \<open>Applying the next entry.\<close>

lemma covers_apply:
  assumes f: "covers logs i h f" and i: "i < length logs"
    and g: "\<And>k. g k = (case log_write (logs ! i) of
              Some (\<kappa>, x) \<Rightarrow> if \<kappa> = (HashChainBucket, k) then Some x else f k | None \<Rightarrow> f k)"
  shows "covers logs (Suc i) (max h (Suc i)) g"
proof -
  let ?m = "max h (Suc i)" and ?log = "logs ! i"
  have le: "i \<le> h" "h \<le> length logs" using f by (simp_all add: covers_def)
  have seg: "drop i (take ?m logs) = ?log # drop (Suc i) (take ?m logs)"
    using i le by (simp add: Cons_nth_drop_Suc [symmetric])
  have "g k = log_contents (take ?m logs) (HashChainBucket, k)"
    if none: "log_contents (drop (Suc i) (take ?m logs)) (HashChainBucket, k) = None" for k
  proof -
    have m: "log_contents (take ?m logs) (HashChainBucket, k) = log_contents (take (Suc i) logs) (HashChainBucket, k)"
      by (rule log_contents_unwritten [OF _ none]) simp
    show ?thesis
    proof (cases "\<exists>x. log_write ?log = Some ((HashChainBucket, k), x)")
      case True
      then show ?thesis using i by (auto simp: m g take_Suc_conv_app_nth)
    next
      case False
      then have "log_contents (drop i (take ?m logs)) (HashChainBucket, k) = None"
        using none by (auto simp: seg log_contents_None_iff)
      from log_contents_unwritten [OF _ this] covers_unwritten [OF f _ _ this]
      have "f k = log_contents (take ?m logs) (HashChainBucket, k)" using le by simp
      moreover have "g k = f k" using False by (auto simp: g split: option.splits)
      ultimately show ?thesis by simp
    qed
  qed
  then show ?thesis using i le by (simp add: covers_def)
qed

section \<open>Invariant\<close>

text \<open>What writing a list of entries stores.\<close>

definition entries_contents :: "HashEntry list \<Rightarrow> bytes \<rightharpoonup> bytes" where
  "entries_contents es = map_of (rev (map (\<lambda>e. (entry_key e, marshal_entry e)) es))"

lemma entries_contents_simps [simp]:
  "entries_contents [] = Map.empty"
  "entries_contents (e # es) = [entry_key e \<mapsto> marshal_entry e] ++ entries_contents es"
  by (simp_all add: entries_contents_def)

lemma entries_contents_Some: "entries_contents es k = Some x \<Longrightarrow> \<exists>e \<in> set es. k = entry_key e \<and> x = marshal_entry e"
  by (auto simp: entries_contents_def dest!: map_of_SomeD)

text \<open>The entries of a snapshot hold the contents \<open>g\<close> of a bucket.\<close>

definition entries_of :: "(bytes \<rightharpoonup> bytes) \<Rightarrow> HashEntry list \<Rightarrow> bool" where
  "entries_of g es \<longleftrightarrow> (\<forall>e \<in> set es. entry_ok e \<and> g (entry_key e) = Some (marshal_entry e))
     \<and> (\<forall>k x. g k = Some x \<longrightarrow> (\<exists>e \<in> set es. k = entry_key e))"

lemma entries_contents_le: "\<forall>e \<in> set es. g (entry_key e) = Some (marshal_entry e) \<Longrightarrow> entries_contents es \<subseteq>\<^sub>m g"
  using entries_contents_Some by (fastforce simp: map_le_def)

lemma entries_contents_eq: "entries_of g es \<Longrightarrow> entries_contents es = g"
proof
  assume es: "entries_of g es"
  then have le: "entries_contents es \<subseteq>\<^sub>m g" by (intro entries_contents_le) (simp add: entries_of_def)
  fix k
  show "entries_contents es k = g k"
  proof (cases "g k")
    case None
    then show ?thesis using map_le_implies_dom_le [OF le] by (auto simp: dom_def)
  next
    case (Some x)
    then obtain e where "e \<in> set es" "k = entry_key e" using es by (auto simp: entries_of_def)
    then have "k \<in> dom (entries_contents es)" by (auto simp: entries_contents_def dom_map_of_conv_image_fst image_image)
    then show ?thesis using le by (simp add: map_le_def)
  qed
qed

definition snapshot_inv :: "raft_Log list \<Rightarrow> nat \<times> nat \<times> bytes \<Rightarrow> bool" where
  "snapshot_inv logs = (\<lambda>(i, h, out). \<exists>g es. covers logs i h g \<and> entries_of g es \<and> out = json_print (snapshot_json es) @ [CHR 0x0A])"

definition replica_inv :: "'db bolt \<Rightarrow> raft_Log list \<Rightarrow> nat \<Rightarrow> 'db replica \<Rightarrow> bool" where
  "replica_inv B logs n r \<longleftrightarrow> covers logs (rp_applied r) (rp_high r) (bolt_get B (rp_db r) HashChainBucket)
     \<and> store_inv B (rp_db r)
     \<and> (\<forall>i s. rp_snap r = Some (i, s) \<longrightarrow> i \<le> rp_applied r \<and> snap_storage s = n)"

definition cluster_inv :: "'db bolt \<Rightarrow> 'db cluster \<Rightarrow> bool" where
  "cluster_inv B c \<longleftrightarrow> list_all storable_log (cl_log c) \<and> (\<forall>n. replica_inv B (cl_log c) n (cl_node c n))
     \<and> list_all (snapshot_inv (cl_log c)) (cl_snapshots c)"

lemma cluster_invD:
  assumes "cluster_inv B c"
  shows "list_all storable_log (cl_log c)" "replica_inv B (cl_log c) n (cl_node c n)" "s \<in> set (cl_snapshots c) \<Longrightarrow> snapshot_inv (cl_log c) s"
  using assms by (auto simp: cluster_inv_def list_all_iff)

lemma replica_inv_commit: "replica_inv B logs n r \<Longrightarrow> replica_inv B (logs @ [log]) n r"
  by (simp add: replica_inv_def covers_commit)

lemma snapshot_inv_commit: "snapshot_inv logs s \<Longrightarrow> snapshot_inv (logs @ [log]) s"
  by (auto simp: snapshot_inv_def dest: covers_commit [of _ _ _ _ log])

text \<open>A step of one node keeps the invariant of the cluster if it keeps that of the node.\<close>

lemma cluster_inv_node:
  assumes "cluster_inv B c" "replica_inv B (cl_log c) n r"
  shows "cluster_inv B (c\<lparr>cl_node := (cl_node c)(n := r)\<rparr>)"
  using assms by (simp add: cluster_inv_def)

context reliable_bolt
begin

lemma store_inv_iff:
  "store_inv B db \<longleftrightarrow> (\<forall>k x. bolt_get B db HashChainBucket k = Some x \<longrightarrow> (\<exists>e. entry_ok e \<and> k = entry_key e \<and> x = marshal_entry e))"
  using store_invD by (auto simp: store_inv_def in_pairs_iff)

lemma replica_inv_apply:
  assumes inv: "replica_inv B logs n r" and ok: "list_all storable_log logs" and a: "rp_applied r < length logs"
  shows "replica_inv B logs n (r
    \<lparr>rp_db := snd (FSM_Apply B (logs ! rp_applied r) (rp_db r)), rp_applied := Suc (rp_applied r),
     rp_high := max (rp_high r) (Suc (rp_applied r))\<rparr>)"
proof -
  let ?log = "logs ! rp_applied r"
  have ok': "write_small ?log" "storable_log ?log" using ok a by (auto simp: list_all_length storable_log_def)
  have get: "bolt_get B (snd (FSM_Apply B ?log (rp_db r))) HashChainBucket k =
      (case log_write ?log of Some (\<kappa>, x) \<Rightarrow> if \<kappa> = (HashChainBucket, k) then Some x else bolt_get B (rp_db r) HashChainBucket k
       | None \<Rightarrow> bolt_get B (rp_db r) HashChainBucket k)" for k
    using FSM_Apply_get [OF ok'(1)] by (simp split: option.split)
  have "covers logs (Suc (rp_applied r)) (max (rp_high r) (Suc (rp_applied r))) (bolt_get B (snd (FSM_Apply B ?log (rp_db r))) HashChainBucket)"
    by (rule covers_apply [OF _ a get]) (use inv in \<open>simp add: replica_inv_def\<close>)
  moreover have "store_inv B (snd (FSM_Apply B ?log (rp_db r)))"
    using inv ok'(2) unfolding store_inv_iff get replica_inv_def storable_log_def by (auto split: option.splits if_splits)
  ultimately show ?thesis using inv by (auto simp: replica_inv_def)
qed

lemma replica_inv_checkpoint:
  assumes "replica_inv B logs n r" "SaveMerkleCheckpoint B cp (rp_db r) = Inr db'"
  shows "replica_inv B logs n (r\<lparr>rp_db := db'\<rparr>)"
proof -
  have "bolt_get B db' HashChainBucket = bolt_get B (rp_db r) HashChainBucket"
    using Update_put_get assms(2) unfolding SaveMerkleCheckpoint_def
    by (intro ext) (fastforce simp: HashChainBucket_def MerkleCheckpointBucket_def)
  with assms(1) show ?thesis by (simp add: replica_inv_def store_inv_iff)
qed

text \<open>Persist writes the contents that the store has.\<close>

lemma Persist_snapshot:
  assumes "replica_inv B logs n r" "i \<le> rp_applied r" "Persist B sink (rp_db r) = Inr out"
  shows "snapshot_inv logs (i, rp_high r, out)"
proof -
  have inv: "store_inv B (rp_db r)" using assms(1) by (simp add: replica_inv_def)
  obtain es where es: "GetAllHashEntriesAllTables B (rp_db r) = Inr es"
    "\<forall>e. e \<in> set es \<longleftrightarrow> entry_ok e \<and> bolt_get B (rp_db r) HashChainBucket (entry_key e) = Some (marshal_entry e)"
    using all_entries [OF inv] by blast
  have "out = json_print (snapshot_json es) @ [CHR 0x0A]"
    using assms(3) es(1) by (auto simp: Persist_def Let_def bind_res_eq_Inr_iff)
  moreover have "entries_of (bolt_get B (rp_db r) HashChainBucket) es"
    using es(2) inv unfolding entries_of_def store_inv_iff by metis
  moreover have "covers logs i (rp_high r) (bolt_get B (rp_db r) HashChainBucket)"
    using assms(1,2) covers_earlier by (auto simp: replica_inv_def)
  ultimately show ?thesis by (auto simp: snapshot_inv_def)
qed

text \<open>Restore writes all entries of the snapshot, or some of them when it fails.\<close>

lemma restore_loop_get:
  assumes "restore_loop B es db = (res, db')"
  shows "\<exists>m. bolt_get B db' HashChainBucket = bolt_get B db HashChainBucket ++ entries_contents (take m es)
    \<and> (res = Inr () \<longrightarrow> m = length es)"
  using assms
proof (induction es arbitrary: db)
  case (Cons e es)
  show ?case
  proof (cases "SaveHashEntry B e db")
    case (Inl err)
    with Cons.prems show ?thesis by (intro exI [of _ 0]) auto
  next
    case (Inr db1)
    with Cons.prems obtain m where
      m: "bolt_get B db' HashChainBucket = bolt_get B db1 HashChainBucket ++ entries_contents (take m es)" "res = Inr () \<longrightarrow> m = length es"
      using Cons.IH [of db1] by auto
    have "bolt_get B db1 HashChainBucket = bolt_get B db HashChainBucket ++ [entry_key e \<mapsto> marshal_entry e]"
      by (rule ext) (simp add: SaveHashEntry_get [OF Inr])
    with m show ?thesis by (intro exI [of _ "Suc m"]) simp
  qed
qed simp

lemma Restore_snapshot:
  assumes "snapshot_inv logs (i, h, out)" "Restore B out db = (res, db')"
  obtains g g' where "covers logs i h g" "g' \<subseteq>\<^sub>m g" "res = Inr () \<Longrightarrow> g' = g"
    "bolt_get B db' HashChainBucket = bolt_get B db HashChainBucket ++ g'" "store_inv B db \<Longrightarrow> store_inv B db'"
proof -
  obtain g es where g: "covers logs i h g" "entries_of g es" "out = json_print (snapshot_json es) @ [CHR 0x0A]"
    using assms(1) by (auto simp: snapshot_inv_def)
  have "list_all entry_utf8 es" using g(2) by (auto simp: entries_of_def entry_ok_def list_all_iff)
  then have "restore_loop B es db = (res, db')" using assms(2) snapshot_roundtrip_text [of es] by (simp add: Restore_def g(3))
  then obtain m where m: "bolt_get B db' HashChainBucket = bolt_get B db HashChainBucket ++ entries_contents (take m es)"
    "res = Inr () \<longrightarrow> m = length es" using restore_loop_get by blast
  have le: "entries_contents (take m es) \<subseteq>\<^sub>m g"
    by (rule entries_contents_le) (use g(2) in \<open>auto simp: entries_of_def dest: in_set_takeD\<close>)
  have eq: "res = Inr () \<Longrightarrow> entries_contents (take m es) = g" using m(2) entries_contents_eq [OF g(2)] by simp
  have "\<exists>e. entry_ok e \<and> k = entry_key e \<and> x = marshal_entry e" if "entries_contents (take m es) k = Some x" for k x
    using entries_contents_Some [OF that] g(2) by (auto simp: entries_of_def dest!: in_set_takeD)
  then have "store_inv B db \<Longrightarrow> store_inv B db'" unfolding store_inv_iff m(1) by (auto simp: map_add_Some_iff)
  then show ?thesis using that [OF g(1) le eq m(1)] by blast
qed

lemma cluster_inv_step:
  assumes inv: "cluster_inv B c" and "cluster_step B c c'"
  shows "cluster_inv B c'"
  using assms(2)
proof cases
  case (commit log)
  with inv show ?thesis by (auto simp: cluster_inv_def replica_inv_commit list_all_iff snapshot_inv_commit)
next
  case (apply_next n r)
  then show ?thesis
    using cluster_inv_node [OF inv] replica_inv_apply [OF cluster_invD(2) [OF inv] cluster_invD(1) [OF inv]] by simp
next
  case (restart j n)
  show ?thesis
    unfolding restart(1) by (rule cluster_inv_node [OF inv])
      (use cluster_invD(2) [OF inv, of n] restart(2) covers_earlier in \<open>auto simp: replica_inv_def\<close>)
next
  case (own_checkpoint cp n db')
  then show ?thesis using cluster_inv_node [OF inv] replica_inv_checkpoint [OF cluster_invD(2) [OF inv]] by simp
next
  case (snapshot n s)
  then show ?thesis
    using cluster_inv_node [OF inv, of n] cluster_invD(2) [OF inv, of n]
    by (auto simp: replica_inv_def FSM_Snapshot_def NewFSM_def)
next
  case (persist n i s sink out)
  have n: "replica_inv B (cl_log c) n (cl_node c n)" by (rule cluster_invD(2) [OF inv])
  then have s: "i \<le> rp_applied (cl_node c n)" "snap_storage s = n" using persist(2) by (auto simp: replica_inv_def)
  have "snapshot_inv (cl_log c) (i, rp_high (cl_node c n), out)"
    using Persist_snapshot [OF n s(1)] persist(3) s(2) by simp
  moreover have "replica_inv B (cl_log c) n ((cl_node c n)\<lparr>rp_snap := None\<rparr>)" using n by (simp add: replica_inv_def)
  ultimately show ?thesis using inv persist(1) s(2) by (simp add: cluster_inv_def)
next
  case (restore_start i h out n db')
  have n: "replica_inv B (cl_log c) n (cl_node c n)" by (rule cluster_invD(2) [OF inv])
  from Restore_snapshot [OF cluster_invD(3) [OF inv restore_start(2)] restore_start(3)]
  have "covers (cl_log c) i (max (rp_high (cl_node c n)) h) (bolt_get B db' HashChainBucket)" "store_inv B db'"
    using n by (metis covers_restore replica_inv_def)+
  then show ?thesis using cluster_inv_node [OF inv, of n] restore_start(1) by (simp add: replica_inv_def)
next
  case (install i h out n db')
  have n: "replica_inv B (cl_log c) n (cl_node c n)" by (rule cluster_invD(2) [OF inv])
  from Restore_snapshot [OF cluster_invD(3) [OF inv install(2)] install(4)]
  have "covers (cl_log c) i (max (rp_high (cl_node c n)) h) (bolt_get B db' HashChainBucket)" "store_inv B db'"
    using n by (metis covers_restore replica_inv_def)+
  then have "replica_inv B (cl_log c) n ((cl_node c n)\<lparr>rp_db := db', rp_applied := i, rp_high := max (rp_high (cl_node c n)) h\<rparr>)"
    using n install(3) by (auto simp: replica_inv_def)
  then show ?thesis unfolding install(1) by (rule cluster_inv_node [OF inv])
next
  case (install_failed i h out n err db')
  have n: "replica_inv B (cl_log c) n (cl_node c n)" by (rule cluster_invD(2) [OF inv])
  from Restore_snapshot [OF cluster_invD(3) [OF inv install_failed(2)] install_failed(4)]
  have "covers (cl_log c) (rp_applied (cl_node c n)) (max (rp_high (cl_node c n)) h) (bolt_get B db' HashChainBucket)" "store_inv B db'"
    using n install_failed(3) by (metis covers_partial replica_inv_def)+
  then show ?thesis using cluster_inv_node [OF inv, of n] install_failed(1) n by (simp add: replica_inv_def)
qed

lemma cluster_inv_reachable: "cluster_reachable B c \<Longrightarrow> cluster_inv B c"
proof (induction rule: cluster_reachable.induct)
  case (init c)
  then show ?case by (simp add: cluster_init_def cluster_inv_def replica_inv_def covers_def store_inv_iff)
qed (rule cluster_inv_step)

end

lemma covers_caught_up: "covers logs h h f \<Longrightarrow> f k = log_contents (take h logs) (HashChainBucket, k)"
  by (simp add: covers_def)

section \<open>Properties\<close>

text \<open>
  C10. In every reachable state of a cluster, two nodes that have applied the log
  up to the same index, and have caught up with what their stores stem from, hold the same
  hash entries: those the log prescribes up to that index. It does not matter that a
  snapshot is written while entries are applied after its index, that it is restored over
  what a store holds, that restoring it fails half-way, or that nodes restart and save
  checkpoints of their own.
\<close>

theorem replicas_agree:
  assumes "reliable_bolt B" "cluster_reachable B c"
    and "rp_applied (cl_node c m) = rp_high (cl_node c m)" "rp_applied (cl_node c n) = rp_high (cl_node c n)"
    and "rp_applied (cl_node c m) = rp_applied (cl_node c n)"
  shows "GetAllHashEntries B t (rp_db (cl_node c m)) = GetAllHashEntries B t (rp_db (cl_node c n))
    \<and> GetLatestHashEntry B t (rp_db (cl_node c m)) = GetLatestHashEntry B t (rp_db (cl_node c n))
    \<and> bolt_get B (rp_db (cl_node c m)) HashChainBucket =
        (\<lambda>k. log_contents (take (rp_applied (cl_node c m)) (cl_log c)) (HashChainBucket, k))"
proof -
  have get: "bolt_get B (rp_db (cl_node c i)) HashChainBucket =
      (\<lambda>k. log_contents (take (rp_applied (cl_node c i)) (cl_log c)) (HashChainBucket, k))"
    if "rp_applied (cl_node c i) = rp_high (cl_node c i)" for i
    using cluster_invD(2) [OF reliable_bolt.cluster_inv_reachable [OF assms(1,2)], of i] that
    by (intro ext) (simp add: replica_inv_def covers_caught_up)
  have "bolt_store B" using assms(1) by (rule reliable_bolt.axioms)
  then have "bolt_pairs B (rp_db (cl_node c m)) HashChainBucket = bolt_pairs B (rp_db (cl_node c n)) HashChainBucket"
    by (rule bolt_store.pairs_cong) (simp only: get [OF assms(3)] get [OF assms(4)] assms(5))
  then show ?thesis
    unfolding get [OF assms(3)] by (simp add: GetAllHashEntries_def stored_entries_def GetLatestHashEntry_def)
qed

text \<open>
  Two nodes: node 0 takes a snapshot at index 0, applies an entry and only then writes the
  snapshot; node 1 starts with that snapshot, which holds the entry already, and applies it
  again.
\<close>

definition sample_replica :: "mem_db replica" where
  "sample_replica = \<lparr>rp_db = [], rp_applied = 0, rp_high = 0, rp_snap = None\<rparr>"

definition sample_cluster :: "mem_db cluster" where
  "sample_cluster = \<lparr>cl_log = [], cl_node = (\<lambda>_. sample_replica), cl_snapshots = []\<rparr>"

definition sample_applied :: "mem_db replica" where
  "sample_applied = \<lparr>rp_db = snd (FSM_Apply mem_bolt sample_log []), rp_applied = 1, rp_high = 1, rp_snap = None\<rparr>"

definition sample_restored :: mem_db where
  "sample_restored = snd (Restore mem_bolt (case Persist mem_bolt sample_sink (rp_db sample_applied) of Inr out \<Rightarrow> out | Inl _ \<Rightarrow> []) [])"

definition sample_replayed :: "mem_db replica" where
  "sample_replayed = \<lparr>rp_db = snd (FSM_Apply mem_bolt sample_log sample_restored), rp_applied = 1, rp_high = 1, rp_snap = None\<rparr>"

lemma marshal_entry_inject: "entry_ok e \<Longrightarrow> entry_ok x \<Longrightarrow> marshal_entry e = marshal_entry x \<Longrightarrow> e = x"
  by (metis entry_ok_def option.inject unmarshal_marshal_entry)

lemma sample_log_entry:
  "entry_ok (sample_entry\<lparr>SequenceNum := 1, RecordID := ''map[id:1]''\<rparr>)"
  "entry_key (sample_entry\<lparr>SequenceNum := 1, RecordID := ''map[id:1]''\<rparr>) = ''logs:1''"
  using sample_entry_ok
  by (simp_all add: entry_ok_def entry_utf8_def valid_utf8_literal entry_key_def sample_entry_def seq_key_def fmt_d.simps
      digit_def char_of_eq_iff)

lemma sample_log_storable: "storable_log sample_log"
  using sample_log_small sample_log_entry by (auto simp: storable_log_def sample_log_write)

lemma sample_snapshot:
  "\<exists>out. Persist mem_bolt sample_sink (rp_db sample_applied) = Inr out \<and> Restore mem_bolt out [] = (Inr (), sample_restored)"
proof -
  let ?x = "sample_entry\<lparr>SequenceNum := 1, RecordID := ''map[id:1]''\<rparr>"
  have get: "bolt_get mem_bolt (rp_db sample_applied) HashChainBucket k = Some y \<longleftrightarrow> k = entry_key ?x \<and> y = marshal_entry ?x" for k y
    using mem.FSM_Apply_get [OF sample_log_small, of "[]" HashChainBucket k] sample_log_entry(2)
    by (auto simp: sample_applied_def sample_log_write mem_bolt_def mem_bucket_def)
  have "store_inv mem_bolt (rp_db sample_applied)"
    using sample_log_entry(1) by (auto simp: mem.store_inv_iff get)
  then obtain es where es: "GetAllHashEntriesAllTables mem_bolt (rp_db sample_applied) = Inr es"
    "\<forall>e. e \<in> set es \<longleftrightarrow> entry_ok e \<and> bolt_get mem_bolt (rp_db sample_applied) HashChainBucket (entry_key e) = Some (marshal_entry e)"
    using mem.all_entries by blast
  have "e = ?x" if "e \<in> set es" for e
    by (rule marshal_entry_inject) (use es(2) that get sample_log_entry(1) in auto)
  moreover have "length (TableName ?x) \<le> 32000 \<and> entry_size ?x \<le> 300000000" by (simp add: sample_entry_def entry_size_def)
  ultimately have small: "list_all (\<lambda>e. length (TableName e) \<le> 32000 \<and> entry_size e \<le> 300000000) es"
    unfolding list_all_iff by blast
  have "list_all entry_utf8 es" using es(2) by (auto simp: list_all_iff entry_ok_def)
  then have "Restore mem_bolt (json_print (snapshot_json es) @ [CHR 0x0A]) [] = restore_loop mem_bolt es []"
    by (simp add: Restore_def snapshot_roundtrip_text)
  moreover have "Persist mem_bolt sample_sink (rp_db sample_applied) = Inr (json_print (snapshot_json es) @ [CHR 0x0A])"
    by (simp add: Persist_def es(1) sample_sink_def)
  ultimately show ?thesis
    using mem.restore_loop_ok [OF small, of "[]"] by (auto simp: sample_restored_def)
qed

lemma sample_reachable:
  "cluster_reachable mem_bolt \<lparr>cl_log = [sample_log], cl_node = ((\<lambda>_. sample_replica)(0 := sample_applied))(1 := sample_replayed),
     cl_snapshots = [(0, 1, case Persist mem_bolt sample_sink (rp_db sample_applied) of Inr out \<Rightarrow> out | Inl _ \<Rightarrow> [])]\<rparr>"
proof -
  let ?c = "\<lambda>f snaps. \<lparr>cl_log = [sample_log], cl_node = f, cl_snapshots = snaps\<rparr> :: mem_db cluster"
  let ?n0 = "\<lambda>_. sample_replica" and ?s = "Some (0, \<lparr>snap_storage = 0\<rparr>)"
  obtain out where out: "Persist mem_bolt sample_sink (rp_db sample_applied) = Inr out" "Restore mem_bolt out [] = (Inr (), sample_restored)"
    using sample_snapshot by blast
  have 0: "cluster_reachable mem_bolt sample_cluster"
    by (rule cluster_reachable.init)
      (simp add: cluster_init_def sample_cluster_def sample_replica_def mem_bolt_def mem_bucket_def fun_eq_iff)
  have 1: "cluster_reachable mem_bolt (?c ?n0 [])"
    using cluster_reachable.step [OF 0 cluster_step.commit [OF sample_log_storable]] by (simp add: sample_cluster_def)
  have 2: "cluster_reachable mem_bolt (?c (?n0(0 := sample_replica\<lparr>rp_snap := ?s\<rparr>)) [])"
    using cluster_reachable.step [OF 1 cluster_step.snapshot [of 0 "\<lparr>snap_storage = 0\<rparr>"]]
    by (simp add: FSM_Snapshot_def NewFSM_def sample_replica_def)
  have 3: "cluster_reachable mem_bolt (?c (?n0(0 := sample_applied\<lparr>rp_snap := ?s\<rparr>)) [])"
    using cluster_reachable.step [OF 2 cluster_step.apply_next [of _ 0 "sample_applied\<lparr>rp_snap := ?s\<rparr>"]]
    by (simp add: sample_applied_def sample_replica_def)
  have 4: "cluster_reachable mem_bolt (?c (?n0(0 := sample_applied)) [(0, 1, out)])"
    using cluster_reachable.step [OF 3 cluster_step.persist [of _ 0 0 "\<lparr>snap_storage = 0\<rparr>" _ sample_sink out]] out(1)
    by (simp add: sample_applied_def)
  have 5: "cluster_reachable mem_bolt (?c ((?n0(0 := sample_applied))(1 := \<lparr>rp_db = sample_restored, rp_applied = 0, rp_high = 1, rp_snap = None\<rparr>)) [(0, 1, out)])"
    using cluster_reachable.step [OF 4 cluster_step.restore_start [of 0 1 out _ _ 1 sample_restored]] out(2)
    by (simp add: sample_replica_def)
  show ?thesis
    using cluster_reachable.step [OF 5 cluster_step.apply_next [of _ 1 sample_replayed]] out(1)
    by (simp add: sample_replayed_def)
qed

theorem replicas_agree_witness:
  "GetAllHashEntries mem_bolt ''logs'' (rp_db sample_applied) = GetAllHashEntries mem_bolt ''logs'' (rp_db sample_replayed)"
  using replicas_agree [OF mem.reliable_bolt_axioms sample_reachable, of 0 1 "''logs''"]
  by (simp add: sample_applied_def sample_replayed_def)

end
