(* ===== verification/System.thy ===== *)
theory System
  imports RaftHandler Cluster
begin

text \<open>
  The nodes of a cluster together: every node follows the stream of database changes at its own
  pace and hands each event to its replicating handler; its verifier hands checkpoints to Raft;
  Raft, which has at most one leader at a time, commits what it accepts to the log that all state
  machines apply, with the snapshots and restarts of the theory \<open>Cluster\<close>.

  The Raft library is any that behaves as documented (\<open>documented_raft\<close>): Apply may be refused,
  and a leader that is deposed during the call does not know whether its entry has been committed.
\<close>

section \<open>Raft as one node sees it\<close>

text \<open>Whether the node leads, the term, the committed log, and how much of it the node has applied.\<close>

record view =
  vw_leads :: bool
  vw_term :: "64 word"
  vw_log :: "raft_Log list"
  vw_applied :: nat

text \<open>
  The documented outcomes of Apply: an error with no effect, on a node that does not lead or
  cannot enqueue the entry in time; success, when the entry has been committed after all others
  and given to the state machine of this node; and the loss of leadership, when an error is
  returned whether or not the entry has been committed. (The node may have been elected anew
  when the caller looks, but then in another term.)
\<close>

inductive apply_outcome :: "'db bolt \<Rightarrow> bytes \<Rightarrow> view \<times> 'db \<Rightarrow> unit result \<times> view \<times> 'db \<Rightarrow> bool" for B data where
  refused: "apply_outcome B data (v, db) (Inl err, v, db)"
| accepted: "vw_leads v \<Longrightarrow> log_Data log = data \<Longrightarrow>
    apply_outcome B data (v, db)
      (Inr (), v\<lparr>vw_log := vw_log v @ [log], vw_applied := Suc (length (vw_log v))\<rparr>,
       apply_all B (drop (vw_applied v) (vw_log v) @ [log]) db)"
| deposed: "vw_leads v \<Longrightarrow> (leads \<longrightarrow> t \<noteq> vw_term v) \<Longrightarrow>
    apply_outcome B data (v, db) (Inl err, v\<lparr>vw_leads := leads, vw_term := t\<rparr>, db)"
| deposed_committed: "vw_leads v \<Longrightarrow> (leads \<longrightarrow> t \<noteq> vw_term v) \<Longrightarrow> log_Data log = data \<Longrightarrow>
    apply_outcome B data (v, db) (Inl err, v\<lparr>vw_leads := leads, vw_term := t, vw_log := vw_log v @ [log]\<rparr>, db)"

inductive_cases apply_outcomeE: "apply_outcome B data (v, db) (out, v', db')"

locale documented_raft =
  fixes R :: "(view, 'db) raft" and B :: "'db bolt"
  assumes is_leader: "raft_is_leader R = vw_leads"
    and apply_documented: "apply_outcome B data w (raft_Apply R data w)"

sublocale documented_raft \<subseteq> raft_library
proof unfold_locales
  fix r data db r' db'
  show "\<not> raft_is_leader R r \<Longrightarrow> fst (raft_Apply R data (r, db)) \<noteq> Inr ()"
    using apply_documented [of data "(r, db)"] by (auto simp: is_leader elim: apply_outcome.cases)
  assume "raft_Apply R data (r, db) = (Inr (), r', db')"
  then have "apply_outcome B data (r, db) (Inr (), r', db')" using apply_documented [of data "(r, db)"] by simp
  then show "\<exists>logs log. log_Data log = data \<and> db' = apply_all B (logs @ [log]) db"
    by (auto elim!: apply_outcomeE)
qed

text \<open>The node of a cluster, and its handler; all nodes protect the same tables.\<close>

definition raft_node :: "(view, 'db) raft \<Rightarrow> NodeConfig \<Rightarrow> (view, 'db) Node" where
  "raft_node R cfg = \<lparr>nd_config = cfg, nd_raft = Some R\<rparr>"

definition node_handler :: "(view, 'db) raft \<Rightarrow> HashChainHandler \<Rightarrow> NodeConfig \<Rightarrow> (view, 'db) RaftHashChainHandler" where
  "node_handler R base cfg = NewRaftHashChainHandler base (Some (raft_node R cfg))"

text \<open>The events that are recorded: those of a protected table that are no update or deletion.\<close>

definition recorded :: "HashChainHandler \<Rightarrow> ChangeEvent \<Rightarrow> bool" where
  "recorded base event \<longleftrightarrow> map_of (tableConfigs base) (ev_TableName event) \<noteq> None
     \<and> ev_Operation event \<noteq> OperationUpdate \<and> ev_Operation event \<noteq> OperationDelete"

definition event_log :: "'db bolt \<Rightarrow> (string \<Rightarrow> string) \<Rightarrow> gotime \<Rightarrow> ChangeEvent \<Rightarrow> 'db \<Rightarrow> bytes" where
  "event_log B H now event db = marshal_logEntry (hash_log H now event (next_seq (GetLatestHashEntry B (ev_TableName event) db)))"

context documented_raft
begin

text \<open>What a call of the handler does to Raft, and what it returns.\<close>

lemma handler_outcome:
  assumes "RaftHandler_HandleChange B H now (node_handler R base cfg) event (v, db) = Some (res, v', db')"
  shows "(\<exists>out. recorded base event \<and> vw_leads v \<and> apply_outcome B (event_log B H now event db) (v, db) (out, v', db')
      \<and> (res = Inr () \<longleftrightarrow> out = Inr () \<or> \<not> vw_leads v'))
    \<or> \<not> (recorded base event \<and> vw_leads v) \<and> v' = v \<and> db' = db"
proof (cases "recorded base event \<and> vw_leads v")
  case True
  let ?data = "event_log B H now event db"
  obtain out v1 db1 where a: "raft_Apply R ?data (v, db) = (out, v1, db1)" by (metis prod.exhaust)
  then have "apply_outcome B ?data (v, db) (out, v1, db1)" using apply_documented [of ?data "(v, db)"] by simp
  moreover have "v1 = v'" "db1 = db'" "res = Inr () \<longleftrightarrow> out = Inr () \<or> \<not> vw_leads v'"
    using assms True a
    by (auto simp: RaftHandler_HandleChange_def node_handler_def NewRaftHashChainHandler_def raft_node_def recorded_def
        ApplyLog_def is_leader event_log_def Node_IsLeader_def wrap_def split: sum.splits if_splits)
  ultimately show ?thesis using True by blast
next
  case False
  then show ?thesis using assms
    by (auto simp: RaftHandler_HandleChange_def node_handler_def NewRaftHashChainHandler_def raft_node_def recorded_def
        ApplyLog_def is_leader Node_IsLeader_def split: option.splits if_splits)
qed

lemma checkpoint_outcome:
  assumes "ApplyCheckpoint (raft_node R cfg) c (v, db) = Some (res, v', db')"
  shows "(\<exists>out. vw_leads v \<and> apply_outcome B (marshal_logEntry (checkpoint_log c)) (v, db) (out, v', db'))
    \<or> \<not> vw_leads v \<and> v' = v \<and> db' = db"
proof (cases "vw_leads v")
  case True
  let ?data = "marshal_logEntry (checkpoint_log c)"
  obtain out v1 db1 where a: "raft_Apply R ?data (v, db) = (out, v1, db1)" by (metis prod.exhaust)
  then have "apply_outcome B ?data (v, db) (out, v1, db1)" using apply_documented [of ?data "(v, db)"] by simp
  moreover have "v1 = v'" "db1 = db'" using assms True a by (auto simp: ApplyCheckpoint_def raft_node_def ApplyLog_def is_leader)
  ultimately show ?thesis using True by blast
next
  case False
  then show ?thesis using assms by (auto simp: ApplyCheckpoint_def raft_node_def is_leader)
qed

end

section \<open>Steps of the system\<close>

text \<open>
  The changes that the database has sent; the term and the leader; the place of each node in the
  stream; the replicas; and, as a record of the run, which node has handled which event with
  which result.
\<close>

record 'db system =
  sy_stream :: "ChangeEvent list"
  sy_term :: "64 word"
  sy_leader :: "nat option"
  sy_pos :: "nat \<Rightarrow> nat"
  sy_cluster :: "'db cluster"
  sy_handled :: "(nat \<times> ChangeEvent \<times> unit result) list"

abbreviation sy_log :: "'db system \<Rightarrow> raft_Log list" where
  "sy_log s \<equiv> cl_log (sy_cluster s)"

abbreviation sy_node :: "'db system \<Rightarrow> nat \<Rightarrow> 'db replica" where
  "sy_node s \<equiv> cl_node (sy_cluster s)"

definition node_view :: "'db system \<Rightarrow> nat \<Rightarrow> view" where
  "node_view s n = \<lparr>vw_leads = (sy_leader s = Some n), vw_term = sy_term s, vw_log = sy_log s, vw_applied = rp_applied (sy_node s n)\<rparr>"

text \<open>The system after a call of Raft by node \<open>n\<close>.\<close>

definition raft_returns :: "'db system \<Rightarrow> nat \<Rightarrow> view \<Rightarrow> 'db \<Rightarrow> 'db system" where
  "raft_returns s n v db =
     s\<lparr>sy_term := vw_term v,
       sy_leader := (if vw_leads v then Some n else if sy_leader s = Some n then None else sy_leader s),
       sy_cluster := (sy_cluster s)
         \<lparr>cl_log := vw_log v,
          cl_node := (sy_node s)(n := (sy_node s n)
            \<lparr>rp_db := db, rp_applied := vw_applied v, rp_high := max (rp_high (sy_node s n)) (vw_applied v)\<rparr>)\<rparr>\<rparr>"

text \<open>What JSON can carry, and numbers that float64 can hold.\<close>

definition event_ok :: "'db bolt \<Rightarrow> (string \<Rightarrow> string) \<Rightarrow> gotime \<Rightarrow> ChangeEvent \<Rightarrow> 'db \<Rightarrow> bool" where
  "event_ok B H now event db \<longleftrightarrow> event_utf8 H now event \<and> uint (next_seq (GetLatestHashEntry B (ev_TableName event) db)) < 2 ^ 53"

text \<open>A step of a node that changes none of its hash entries and applies nothing.\<close>

definition same_entries :: "'db bolt \<Rightarrow> 'db replica \<Rightarrow> 'db replica \<Rightarrow> bool" where
  "same_entries B r r' \<longleftrightarrow> bolt_get B (rp_db r') HashChainBucket = bolt_get B (rp_db r) HashChainBucket
     \<and> rp_applied r' = rp_applied r \<and> rp_high r' = rp_high r"

text \<open>
  The database changes. A node handles its next event, and goes on whatever the handler returns.
  The verifier of a node hands a checkpoint to Raft. A node applies the next entry of the log.
  A node does anything else that the theory \<open>Cluster\<close> allows it to do by itself: it saves a
  checkpoint of its own, takes and writes snapshots, restarts, restores a snapshot; but it is
  neither restarted nor restored while it leads. A process ends, and resumes the stream at
  some place it has passed. The leadership moves or is vacant.
\<close>

inductive system_step ::
    "'db bolt \<Rightarrow> (string \<Rightarrow> string) \<Rightarrow> HashChainHandler \<Rightarrow> (nat \<Rightarrow> NodeConfig) \<Rightarrow> 'db system \<Rightarrow> 'db system \<Rightarrow> bool"
  for B H base cfg where
  change: "system_step B H base cfg s (s\<lparr>sy_stream := sy_stream s @ [event]\<rparr>)"
| handle: "sy_pos s n < length (sy_stream s) \<Longrightarrow> event = sy_stream s ! sy_pos s n \<Longrightarrow>
    event_ok B H now event (rp_db (sy_node s n)) \<Longrightarrow> documented_raft R B \<Longrightarrow>
    RaftHandler_HandleChange B H now (node_handler R base (cfg n)) event (node_view s n, rp_db (sy_node s n)) = Some (res, v, db) \<Longrightarrow>
    system_step B H base cfg s
      ((raft_returns s n v db)\<lparr>sy_pos := (sy_pos s)(n := Suc (sy_pos s n)), sy_handled := sy_handled s @ [(n, event, res)]\<rparr>)"
| checkpoint: "checkpoint_ok c \<Longrightarrow> checkpoint_exact c \<Longrightarrow> documented_raft R B \<Longrightarrow>
    ApplyCheckpoint (raft_node R (cfg n)) c (node_view s n, rp_db (sy_node s n)) = Some (res, v, db) \<Longrightarrow>
    system_step B H base cfg s (raft_returns s n v db)"
| apply_next: "rp_applied (sy_node s n) < length (sy_log s) \<Longrightarrow>
    r = (sy_node s n)
         \<lparr>rp_db := snd (FSM_Apply B (sy_log s ! rp_applied (sy_node s n)) (rp_db (sy_node s n))),
          rp_applied := Suc (rp_applied (sy_node s n)),
          rp_high := max (rp_high (sy_node s n)) (Suc (rp_applied (sy_node s n)))\<rparr> \<Longrightarrow>
    system_step B H base cfg s (s\<lparr>sy_cluster := (sy_cluster s)\<lparr>cl_node := (sy_node s)(n := r)\<rparr>\<rparr>)"
| by_itself: "cluster_step B (sy_cluster s) c \<Longrightarrow> cl_log c = sy_log s \<Longrightarrow> \<forall>m. m \<noteq> n \<longrightarrow> cl_node c m = sy_node s m \<Longrightarrow>
    (sy_leader s = Some n \<longrightarrow> same_entries B (sy_node s n) (cl_node c n)) \<Longrightarrow>
    system_step B H base cfg s (s\<lparr>sy_cluster := c\<rparr>)"
| crash: "p \<le> sy_pos s n \<Longrightarrow>
    system_step B H base cfg s
      (s\<lparr>sy_leader := (if sy_leader s = Some n then None else sy_leader s), sy_pos := (sy_pos s)(n := p)\<rparr>)"
| elect: "system_step B H base cfg s (s\<lparr>sy_leader := l, sy_term := sy_term s + 1\<rparr>)"

definition system_init :: "'db \<Rightarrow> 'db system \<Rightarrow> bool" where
  "system_init db0 s \<longleftrightarrow> sy_stream s = [] \<and> sy_log s = [] \<and> cl_snapshots (sy_cluster s) = [] \<and> sy_handled s = []
     \<and> (\<forall>n. sy_pos s n = 0 \<and> sy_node s n = \<lparr>rp_db = db0, rp_applied = 0, rp_high = 0, rp_snap = None\<rparr>)"

inductive system_reachable ::
    "'db bolt \<Rightarrow> (string \<Rightarrow> string) \<Rightarrow> HashChainHandler \<Rightarrow> (nat \<Rightarrow> NodeConfig) \<Rightarrow> 'db \<Rightarrow> 'db system \<Rightarrow> bool"
  for B H base cfg db0 where
  init: "system_init db0 s \<Longrightarrow> system_reachable B H base cfg db0 s"
| step: "system_reachable B H base cfg db0 s \<Longrightarrow> system_step B H base cfg s s' \<Longrightarrow> system_reachable B H base cfg db0 s'"

text \<open>The runs in which one node leads from beginning to end, in one term.\<close>

inductive led_by ::
    "'db bolt \<Rightarrow> (string \<Rightarrow> string) \<Rightarrow> HashChainHandler \<Rightarrow> (nat \<Rightarrow> NodeConfig) \<Rightarrow> 'db \<Rightarrow> nat \<Rightarrow> 'db system \<Rightarrow> bool"
  for B H base cfg db0 L where
  init: "system_init db0 s \<Longrightarrow> sy_leader s = Some L \<Longrightarrow> led_by B H base cfg db0 L s"
| step: "led_by B H base cfg db0 L s \<Longrightarrow> system_step B H base cfg s s' \<Longrightarrow> sy_leader s' = Some L \<Longrightarrow> sy_term s' = sy_term s \<Longrightarrow>
    led_by B H base cfg db0 L s'"

lemma led_by_reachable: "led_by B H base cfg db0 L s \<Longrightarrow> system_reachable B H base cfg db0 s"
  by (induction rule: led_by.induct) (auto intro: system_reachable.intros)

text \<open>A call of Raft leaves the system as it was, or it has one of the three effects of an attempt.\<close>

lemma raft_returns_same [simp]: "rp_applied (sy_node s n) \<le> rp_high (sy_node s n) \<Longrightarrow> raft_returns s n (node_view s n) (rp_db (sy_node s n)) = s"
  by (simp add: raft_returns_def node_view_def max_absorb1)

section \<open>The system runs a cluster\<close>

lemma apply_all_append: "apply_all B (xs @ ys) db = apply_all B ys (apply_all B xs db)"
  by (simp add: apply_all_def)

text \<open>A node applies all entries that are left.\<close>

lemma cluster_apply_rest:
  assumes "cluster_reachable B c" "rp_applied (cl_node c n) + k = length (cl_log c)" "k \<noteq> 0"
    and "r = (cl_node c n)\<lparr>rp_db := apply_all B (drop (rp_applied (cl_node c n)) (cl_log c)) (rp_db (cl_node c n)),
      rp_applied := length (cl_log c), rp_high := max (rp_high (cl_node c n)) (length (cl_log c))\<rparr>"
  shows "cluster_reachable B (c\<lparr>cl_node := (cl_node c)(n := r)\<rparr>)"
  using assms
proof (induction k arbitrary: c r)
  case (Suc k)
  let ?i = "rp_applied (cl_node c n)"
  let ?r = "(cl_node c n)\<lparr>rp_db := snd (FSM_Apply B (cl_log c ! ?i) (rp_db (cl_node c n))), rp_applied := Suc ?i,
      rp_high := max (rp_high (cl_node c n)) (Suc ?i)\<rparr>"
  let ?c = "c\<lparr>cl_node := (cl_node c)(n := ?r)\<rparr>"
  have i: "?i < length (cl_log c)" using Suc.prems(2) by simp
  have c: "cluster_reachable B ?c" by (rule cluster_reachable.step [OF Suc.prems(1) cluster_step.apply_next [OF i refl]])
  have d: "drop ?i (cl_log c) = (cl_log c ! ?i) # drop (Suc ?i) (cl_log c)" using i by (simp add: Cons_nth_drop_Suc)
  show ?case
  proof (cases "k = 0")
    case True
    then have "drop (Suc ?i) (cl_log c) = []" "length (cl_log c) = Suc ?i" using Suc.prems(2) by simp_all
    then have "r = ?r" using Suc.prems(4) by (simp add: d)
    then show ?thesis using c by (simp only:)
  next
    case False
    have "cluster_reachable B (?c\<lparr>cl_node := (cl_node ?c)(n := r)\<rparr>)"
      by (rule Suc.IH [OF c _ False]) (use Suc.prems(2,4) in \<open>simp_all add: d max.absorb2\<close>)
    moreover have "?c\<lparr>cl_node := (cl_node ?c)(n := r)\<rparr> = c\<lparr>cl_node := (cl_node c)(n := r)\<rparr>" by simp
    ultimately show ?thesis by (simp only:)
  qed
qed simp

context reliable_bolt
begin

lemma replica_bounds:
  assumes "cluster_reachable B c"
  shows "rp_applied (cl_node c n) \<le> rp_high (cl_node c n)" "rp_high (cl_node c n) \<le> length (cl_log c)"
    "covers (cl_log c) (rp_applied (cl_node c n)) (rp_high (cl_node c n)) (bolt_get B (rp_db (cl_node c n)) HashChainBucket)"
  using cluster_invD(2) [OF cluster_inv_reachable [OF assms], of n] by (simp_all add: replica_inv_def covers_def)

text \<open>The outcomes of Apply are steps of the cluster.\<close>

lemma returns_reachable:
  assumes "cluster_reachable B (sy_cluster s)" "list_all storable_log (vw_log v)"
    and "apply_outcome B data (node_view s n, rp_db (sy_node s n)) (out, v, db)"
  shows "cluster_reachable B (sy_cluster (raft_returns s n v db))"
proof -
  note bounds = replica_bounds [OF assms(1), of n]
  have commit: "cluster_reachable B ((sy_cluster s)\<lparr>cl_log := sy_log s @ [log]\<rparr>)" if "storable_log log" for log
    by (rule cluster_reachable.step [OF assms(1) cluster_step.commit [OF that]])
  show ?thesis using assms(3)
  proof cases
    case refused
    then show ?thesis using assms(1) bounds by simp
  next
    case (accepted log)
    let ?c = "(sy_cluster s)\<lparr>cl_log := sy_log s @ [log]\<rparr>"
    have c: "cluster_reachable B ?c" by (rule commit) (use assms(2) accepted in \<open>simp add: node_view_def\<close>)
    have "cluster_reachable B (?c\<lparr>cl_node := (cl_node ?c)(n := (cl_node ?c n)
        \<lparr>rp_db := apply_all B (drop (rp_applied (cl_node ?c n)) (cl_log ?c)) (rp_db (cl_node ?c n)),
         rp_applied := length (cl_log ?c), rp_high := max (rp_high (cl_node ?c n)) (length (cl_log ?c))\<rparr>)\<rparr>)"
      by (rule cluster_apply_rest [OF c, of n "Suc (length (sy_log s)) - rp_applied (sy_node s n)"]) (use bounds in simp_all)
    then show ?thesis using accepted bounds by (simp add: raft_returns_def node_view_def)
  next
    case (deposed leads t err)
    then show ?thesis using assms(1) bounds by (simp add: raft_returns_def node_view_def max_absorb1)
  next
    case (deposed_committed leads t log err)
    have c: "cluster_reachable B ((sy_cluster s)\<lparr>cl_log := sy_log s @ [log]\<rparr>)"
      by (rule commit) (use assms(2) deposed_committed in \<open>simp add: node_view_def\<close>)
    then show ?thesis using deposed_committed bounds by (simp add: raft_returns_def node_view_def max_absorb1)
  qed
qed

end

text \<open>What a step does to the log.\<close>

lemma outcome_log: "apply_outcome B data (v, db) (out, v', db') \<Longrightarrow> \<exists>xs. vw_log v' = vw_log v @ xs \<and> (\<forall>log \<in> set xs. log_Data log = data)"
  by (erule apply_outcomeE) auto

lemma raft_returns_sel [simp]:
  "sy_stream (raft_returns s n v db) = sy_stream s" "sy_handled (raft_returns s n v db) = sy_handled s"
  "sy_pos (raft_returns s n v db) = sy_pos s" "sy_log (raft_returns s n v db) = vw_log v" "sy_term (raft_returns s n v db) = vw_term v"
  "m \<noteq> n \<Longrightarrow> sy_node (raft_returns s n v db) m = sy_node s m"
  "rp_db (sy_node (raft_returns s n v db) n) = db" "rp_applied (sy_node (raft_returns s n v db) n) = vw_applied v"
  by (simp_all add: raft_returns_def)

lemma node_view_sel [simp]:
  "vw_leads (node_view s n) \<longleftrightarrow> sy_leader s = Some n" "vw_term (node_view s n) = sy_term s" "vw_log (node_view s n) = sy_log s"
  "vw_applied (node_view s n) = rp_applied (sy_node s n)"
  by (simp_all add: node_view_def)

lemma covers_append: "covers logs i h f \<Longrightarrow> covers (logs @ xs) i h f"
proof (induction xs rule: rev_induct)
  case (snoc x xs)
  then show ?case using covers_commit [of "logs @ xs" i h f x] by simp
qed simp

text \<open>Where the entries of a step come from.\<close>

definition from_insertion ::
    "'db bolt \<Rightarrow> (string \<Rightarrow> string) \<Rightarrow> HashChainHandler \<Rightarrow> 'db system \<Rightarrow> raft_Log \<Rightarrow> bool" where
  "from_insertion B H base s log \<longleftrightarrow>
     (\<exists>n now event. event \<in> set (sy_stream s) \<and> recorded base event \<and> event_ok B H now event (rp_db (sy_node s n))
        \<and> log_Data log = event_log B H now event (rp_db (sy_node s n)))"

definition from_checkpoint :: "raft_Log \<Rightarrow> bool" where
  "from_checkpoint log \<longleftrightarrow> (\<exists>c. checkpoint_ok c \<and> checkpoint_exact c \<and> log_Data log = marshal_logEntry (checkpoint_log c))"

lemma step_log:
  assumes "system_step B H base cfg s s'"
  shows "\<exists>xs. sy_log s' = sy_log s @ xs \<and> (\<forall>log \<in> set xs. from_insertion B H base s log \<or> from_checkpoint log)
    \<and> set (sy_stream s) \<subseteq> set (sy_stream s')"
  using assms
proof cases
  case (handle n event now R res v db)
  have ev: "event \<in> set (sy_stream s)" using handle(2,3) by simp
  from documented_raft.handler_outcome [OF handle(5,6)] show ?thesis
  proof (elim disjE exE conjE)
    fix out
    assume a: "recorded base event" "apply_outcome B (event_log B H now event (rp_db (sy_node s n))) (node_view s n, rp_db (sy_node s n)) (out, v, db)"
    have "\<exists>xs. vw_log v = sy_log s @ xs \<and> (\<forall>log \<in> set xs. from_insertion B H base s log)"
      using outcome_log [OF a(2)] a(1) ev handle(4) unfolding from_insertion_def by fastforce
    then show ?thesis using handle(1) by auto
  next
    assume "v = node_view s n"
    then show ?thesis using handle(1) by simp
  qed
next
  case (checkpoint c R n res v db)
  from documented_raft.checkpoint_outcome [OF checkpoint(4,5)] show ?thesis
  proof (elim disjE exE conjE)
    fix out
    assume "apply_outcome B (marshal_logEntry (checkpoint_log c)) (node_view s n, rp_db (sy_node s n)) (out, v, db)"
    with outcome_log [OF this] checkpoint show ?thesis by (auto simp: from_checkpoint_def)
  next
    assume "v = node_view s n"
    then show ?thesis using checkpoint(1) by simp
  qed
qed auto

context reliable_bolt
begin

lemma step_cluster:
  assumes "cluster_reachable B (sy_cluster s)" "system_step B H base cfg s s'" "list_all storable_log (sy_log s')"
  shows "cluster_reachable B (sy_cluster s')"
  using assms(2)
proof cases
  case (handle n event now R res v db)
  have l: "list_all storable_log (vw_log v)" using assms(3) handle(1) by simp
  from documented_raft.handler_outcome [OF handle(5,6)] have "cluster_reachable B (sy_cluster (raft_returns s n v db))"
    using returns_reachable [OF assms(1) l] replica_bounds [OF assms(1), of n] assms(1) by auto
  then show ?thesis using handle(1) by simp
next
  case (checkpoint c R n res v db)
  have l: "list_all storable_log (vw_log v)" using assms(3) checkpoint(1) by simp
  from documented_raft.checkpoint_outcome [OF checkpoint(4,5)] show ?thesis
    unfolding checkpoint(1) using returns_reachable [OF assms(1) l] replica_bounds [OF assms(1), of n] assms(1) by auto
next
  case (apply_next n r)
  show ?thesis
    unfolding apply_next(1) using cluster_reachable.step [OF assms(1) cluster_step.apply_next [OF apply_next(2,3)]] by simp
next
  case (by_itself c n)
  then show ?thesis using cluster_reachable.step [OF assms(1)] by simp
qed (use assms(1) in simp_all)

lemma reachable_cluster:
  assumes "bolt_get B db0 HashChainBucket = Map.empty" "system_reachable B H base cfg db0 s" "list_all storable_log (sy_log s)"
  shows "cluster_reachable B (sy_cluster s)"
  using assms(2,3)
proof (induction rule: system_reachable.induct)
  case (init s)
  then show ?case using assms(1) by (intro cluster_reachable.init) (simp add: system_init_def cluster_init_def)
next
  case (step s s')
  obtain xs where "sy_log s' = sy_log s @ xs" using step_log [OF step(2)] by blast
  then have "cluster_reachable B (sy_cluster s)" using step.IH step.prems by simp
  then show ?case by (rule step_cluster [OF _ step(2) step.prems])
qed

text \<open>
  Every entry of the log stems from an insertion that was numbered after the entries of a store
  that knew a part of the log before it, or from a checkpoint.
\<close>

lemma reachable_sources:
  assumes "bolt_get B db0 HashChainBucket = Map.empty" "system_reachable B H base cfg db0 s" "list_all storable_log (sy_log s)"
    and "i < length (sy_log s)"
  shows "(\<exists>event \<in> set (sy_stream s). \<exists>now db a h. recorded base event \<and> log_Data (sy_log s ! i) = event_log B H now event db
      \<and> covers (take i (sy_log s)) a h (bolt_get B db HashChainBucket))
    \<or> from_checkpoint (sy_log s ! i)"
  using assms(2-4)
proof (induction arbitrary: i rule: system_reachable.induct)
  case (init s)
  then show ?case by (simp add: system_init_def)
next
  case (step s s')
  obtain xs where xs: "sy_log s' = sy_log s @ xs" "\<forall>log \<in> set xs. from_insertion B H base s log \<or> from_checkpoint log"
    "set (sy_stream s) \<subseteq> set (sy_stream s')" using step_log [OF step(2)] by blast
  have ok: "list_all storable_log (sy_log s)" using step.prems(1) xs(1) by simp
  show ?case
  proof (cases "i < length (sy_log s)")
    case True
    have eq: "sy_log s' ! i = sy_log s ! i" "take i (sy_log s') = take i (sy_log s)" using True xs(1) by (simp_all add: nth_append)
    from step.IH [OF ok True] xs(3) show ?thesis unfolding eq by blast
  next
    case False
    define log where "log = sy_log s' ! i"
    have log: "log \<in> set xs" using False step.prems(2) xs(1) by (auto simp: log_def nth_append)
    show ?thesis
    proof (cases "from_checkpoint log")
      case True
      then show ?thesis by (simp add: log_def)
    next
      case no: False
      then obtain n now event where e: "event \<in> set (sy_stream s)" "recorded base event"
        "log_Data log = event_log B H now event (rp_db (sy_node s n))" using xs(2) log by (auto simp: from_insertion_def)
      have "covers (sy_log s) (rp_applied (sy_node s n)) (rp_high (sy_node s n)) (bolt_get B (rp_db (sy_node s n)) HashChainBucket)"
        by (rule replica_bounds(3) [OF reachable_cluster [OF assms(1) step(1) ok]])
      then have "covers (take i (sy_log s')) (rp_applied (sy_node s n)) (rp_high (sy_node s n)) (bolt_get B (rp_db (sy_node s n)) HashChainBucket)"
        using False covers_append xs(1) by simp
      with e xs(3) show ?thesis unfolding log_def by blast
    qed
  qed
qed

end

section \<open>Runs with one leader\<close>

text \<open>The local handler over a list of events, going on after errors as the receiving loop does.\<close>

definition local_run :: "'db bolt \<Rightarrow> (string \<Rightarrow> string) \<Rightarrow> HashChainHandler \<Rightarrow> (gotime \<times> ChangeEvent) list \<Rightarrow> 'db \<Rightarrow> 'db" where
  "local_run B H base events db = foldl (\<lambda>db (now, event). store_after db (Handler_HandleChange B H now base event db)) db events"

lemma local_run_simps [simp]:
  "local_run B H base [] db = db"
  "local_run B H base (events @ [(now, event)]) db =
     store_after (local_run B H base events db) (Handler_HandleChange B H now base event (local_run B H base events db))"
  by (simp_all add: local_run_def)

text \<open>
  A log that records a list of insertions: it has their entries in order, each as the local
  handler would number it after the ones before, and otherwise only checkpoints.
\<close>

inductive recorded_log ::
    "'db bolt \<Rightarrow> (string \<Rightarrow> string) \<Rightarrow> HashChainHandler \<Rightarrow> 'db \<Rightarrow> (gotime \<times> ChangeEvent) list \<Rightarrow> raft_Log list \<Rightarrow> bool"
  for B H base db0 where
  empty: "recorded_log B H base db0 [] []"
| entry: "recorded_log B H base db0 events logs \<Longrightarrow> recorded base event \<Longrightarrow>
    event_ok B H now event (local_run B H base events db0) \<Longrightarrow>
    log_Data log = event_log B H now event (local_run B H base events db0) \<Longrightarrow>
    recorded_log B H base db0 (events @ [(now, event)]) (logs @ [log])"
| checkpoint: "recorded_log B H base db0 events logs \<Longrightarrow> from_checkpoint log \<Longrightarrow> recorded_log B H base db0 events (logs @ [log])"

lemma recorded_log_prefix:
  assumes "recorded_log B H base db0 events logs" "i \<le> length logs"
  shows "\<exists>k \<le> length events. recorded_log B H base db0 (take k events) (take i logs) \<and> (i = length logs \<longrightarrow> k = length events)"
  using assms
proof (induction arbitrary: i rule: recorded_log.induct)
  case empty
  then show ?case by (simp add: recorded_log.empty)
next
  case (entry events logs event now log)
  show ?case
  proof (cases "i \<le> length logs")
    case True
    with entry.IH obtain k where "k \<le> length events" "recorded_log B H base db0 (take k events) (take i logs)" by blast
    then show ?thesis using True by (intro exI [of _ k]) simp
  next
    case False
    then have "i = Suc (length logs)" using entry.prems by simp
    then show ?thesis
      using recorded_log.entry [OF entry.hyps] by (intro exI [of _ "Suc (length events)"]) simp
  qed
next
  case (checkpoint events logs log)
  show ?case
  proof (cases "i \<le> length logs")
    case True
    with checkpoint.IH obtain k where "k \<le> length events" "recorded_log B H base db0 (take k events) (take i logs)" by blast
    then show ?thesis using True by (intro exI [of _ k]) simp
  next
    case False
    then have "i = Suc (length logs)" using checkpoint.prems by simp
    then show ?thesis
      using recorded_log.checkpoint [OF checkpoint.hyps] by (intro exI [of _ "length events"]) simp
  qed
qed

lemma event_log_applied:
  assumes "recorded base event" "event_ok B H now event db" "log_Data log = event_log B H now event db"
  shows "snd (FSM_Apply B log db) = store_after db (Handler_HandleChange B H now base event db)"
proof -
  let ?n = "next_seq (GetLatestHashEntry B (ev_TableName event) db)"
  have ok: "event_utf8 H now event" "logged_seq ?n = ?n" using assms(2) by (simp_all add: event_ok_def logged_seq_exact)
  have "Handler_HandleChange B H now base event db = SaveHashEntry B (make_entry H now event ?n) db"
    using assms(1) by (auto simp: Handler_HandleChange_def recorded_def)
  then show ?thesis using FSM_Apply_hash_log [OF ok(1), of log ?n B db] assms(3) ok(2) by (simp add: event_log_def)
qed

lemma from_checkpoint_write:
  assumes "from_checkpoint log"
  shows "log_write log \<noteq> Some ((HashChainBucket, k), x)"
proof -
  obtain c where c: "checkpoint_ok c" "log_Data log = marshal_logEntry (checkpoint_log c)" using assms by (auto simp: from_checkpoint_def)
  obtain d where "unmarshal_logEntry (marshal_logEntry (checkpoint_log c)) = Some ((checkpoint_log c)\<lparr>le_Data := d\<rparr>)"
    using unmarshal_marshal_logEntry [OF checkpoint_log_ok [OF c(1)]] by blast
  then show ?thesis
    by (auto simp: log_write_def c(2) checkpoint_log_def LogEntryHashChain_def LogEntryCheckpoint_def HashChainBucket_def MerkleCheckpointBucket_def)
qed

context reliable_bolt
begin

text \<open>The hash entries that such a log prescribes are those of the local handler.\<close>

lemma recorded_log_contents:
  assumes "recorded_log B H base db0 events logs" "list_all storable_log logs" "bolt_get B db0 HashChainBucket = Map.empty"
  shows "bolt_get B (local_run B H base events db0) HashChainBucket k = log_contents logs (HashChainBucket, k)"
  using assms(1,2)
proof (induction arbitrary: k rule: recorded_log.induct)
  case empty
  then show ?case using assms(3) by simp
next
  case (entry events logs event now log)
  have small: "write_small log" using entry.prems by (simp add: storable_log_def)
  have "local_run B H base (events @ [(now, event)]) db0 = snd (FSM_Apply B log (local_run B H base events db0))"
    using event_log_applied [OF entry.hyps(2-4)] by simp
  then show ?case using entry.IH [of k] entry.prems by (auto simp: FSM_Apply_get [OF small] split: option.split)
next
  case (checkpoint events logs log)
  then show ?case using from_checkpoint_write [OF checkpoint.hyps(2), of k] by (auto split: option.split)
qed

lemma event_log_cong:
  assumes "bolt_get B db HashChainBucket = bolt_get B db' HashChainBucket"
  shows "event_log B H now event db = event_log B H now event db'" "event_ok B H now event db = event_ok B H now event db'"
  using pairs_cong [OF assms] by (simp_all add: event_log_def event_ok_def GetLatestHashEntry_def)

end

text \<open>What the leader's handler has been given, and what it has reported to be recorded.\<close>

definition handled_by :: "nat \<Rightarrow> 'db system \<Rightarrow> (ChangeEvent \<times> unit result) list" where
  "handled_by n s = map snd (filter (\<lambda>(m, _). m = n) (sy_handled s))"

definition accepted_by :: "HashChainHandler \<Rightarrow> nat \<Rightarrow> 'db system \<Rightarrow> ChangeEvent list" where
  "accepted_by base n s = map fst (filter (\<lambda>(event, res). recorded base event \<and> res = Inr ()) (handled_by n s))"

definition led_inv :: "'db bolt \<Rightarrow> (string \<Rightarrow> string) \<Rightarrow> HashChainHandler \<Rightarrow> 'db \<Rightarrow> nat \<Rightarrow> 'db system \<Rightarrow> (gotime \<times> ChangeEvent) list \<Rightarrow> bool" where
  "led_inv B H base db0 L s events \<longleftrightarrow>
     map snd events = accepted_by base L s
     \<and> map fst (handled_by L s) = take (sy_pos s L) (sy_stream s) \<and> sy_pos s L \<le> length (sy_stream s)
     \<and> recorded_log B H base db0 events (sy_log s)
     \<and> rp_applied (sy_node s L) = length (sy_log s) \<and> rp_high (sy_node s L) = length (sy_log s)"

lemma led_inv_cong:
  assumes "led_inv B H base db0 L s events" "handled_by L s' = handled_by L s" "take (sy_pos s' L) (sy_stream s') = take (sy_pos s L) (sy_stream s)"
    and "sy_pos s' L \<le> length (sy_stream s')" "sy_log s' = sy_log s"
    and "rp_applied (sy_node s' L) = rp_applied (sy_node s L)" "rp_high (sy_node s' L) = rp_high (sy_node s L)"
  shows "led_inv B H base db0 L s' events"
  using assms by (simp add: led_inv_def accepted_by_def)

text \<open>A leader that leads on in its term has had its entry refused or accepted.\<close>

lemma outcome_leads_on:
  assumes "apply_outcome B data (v, db) (out, v', db')" "vw_leads v'" "vw_term v' = vw_term v"
  shows "(\<exists>err. out = Inl err) \<and> v' = v \<and> db' = db
    \<or> (\<exists>log. out = Inr () \<and> log_Data log = data \<and> v' = v\<lparr>vw_log := vw_log v @ [log], vw_applied := Suc (length (vw_log v))\<rparr>)"
  using assms by (auto elim!: apply_outcomeE)

lemma returns_leads_on: "sy_leader (raft_returns s n v db) = Some n \<Longrightarrow> sy_leader s = Some n \<Longrightarrow> vw_leads v"
  by (auto simp: raft_returns_def split: if_splits)

lemma handled_by_simps [simp]:
  "handled_by L (s\<lparr>sy_pos := p, sy_handled := sy_handled s0 @ [(n, event, res)]\<rparr>) = handled_by L s0 @ (if n = L then [(event, res)] else [])"
  "handled_by L (raft_returns s n v db) = handled_by L s"
  by (simp_all add: handled_by_def)

context reliable_bolt
begin

lemma led_attempt:
  assumes led: "led_inv B H base db0 L s events" and reach: "cluster_reachable B (sy_cluster s)"
    and db0: "bolt_get B db0 HashChainBucket = Map.empty" and ok: "list_all storable_log (sy_log s)"
    and "log_Data log = event_log B H now event (rp_db (sy_node s L))" "recorded base event" "event_ok B H now event (rp_db (sy_node s L))"
  shows "recorded_log B H base db0 (events @ [(now, event)]) (sy_log s @ [log])"
proof -
  have l: "recorded_log B H base db0 events (sy_log s)" using led by (simp add: led_inv_def)
  have "covers (sy_log s) (length (sy_log s)) (length (sy_log s)) (bolt_get B (rp_db (sy_node s L)) HashChainBucket)"
    using replica_bounds(3) [OF reach, of L] led by (simp add: led_inv_def)
  then have "bolt_get B (rp_db (sy_node s L)) HashChainBucket = bolt_get B (local_run B H base events db0) HashChainBucket"
    using recorded_log_contents [OF l ok db0] covers_caught_up by (intro ext) fastforce
  from event_log_cong [OF this, of H now event] assms(5-7) show ?thesis using recorded_log.entry [OF l] by simp
qed

lemma led_inv_handle:
  assumes led: "led_inv B H base db0 L s events" "sy_leader s = Some L" and reach: "cluster_reachable B (sy_cluster s)"
    and db0: "bolt_get B db0 HashChainBucket = Map.empty" and ok: "list_all storable_log (sy_log s)"
    and pos: "sy_pos s n < length (sy_stream s)" and event: "event = sy_stream s ! sy_pos s n" "event_ok B H now event (rp_db (sy_node s n))"
    and call: "documented_raft R B"
      "RaftHandler_HandleChange B H now (node_handler R base cfg) event (node_view s n, rp_db (sy_node s n)) = Some (res, v, db)"
    and s': "s' = (raft_returns s n v db)\<lparr>sy_pos := (sy_pos s)(n := Suc (sy_pos s n)), sy_handled := sy_handled s @ [(n, event, res)]\<rparr>"
    and on: "sy_leader s' = Some L" "sy_term s' = sy_term s"
  shows "\<exists>events'. led_inv B H base db0 L s' events'"
proof -
  note bounds = replica_bounds [OF reach, of n]
  have tk: "take (Suc (sy_pos s n)) (sy_stream s) = take (sy_pos s n) (sy_stream s) @ [event]" using pos event(1) by (simp add: take_Suc_conv_app_nth)
  have same: "\<exists>events'. led_inv B H base db0 L s' events'" if "v = node_view s n" "db = rp_db (sy_node s n)" "\<not> (n = L \<and> recorded base event \<and> res = Inr ())"
    using led that pos tk bounds unfolding s' by (intro exI [of _ events]) (auto simp: led_inv_def accepted_by_def)
  from documented_raft.handler_outcome [OF call] show ?thesis
  proof (elim disjE exE conjE)
    fix out
    assume a: "recorded base event" "vw_leads (node_view s n)" "res = Inr () \<longleftrightarrow> out = Inr () \<or> \<not> vw_leads v"
      "apply_outcome B (event_log B H now event (rp_db (sy_node s n))) (node_view s n, rp_db (sy_node s n)) (out, v, db)"
    then have n: "n = L" using led(2) by simp
    have on': "vw_leads v" "vw_term v = vw_term (node_view s n)" using on led(2) returns_leads_on [of s n v db] unfolding s' n by simp_all
    from outcome_leads_on [OF a(4) on'] show ?thesis
    proof (elim disjE exE conjE)
      fix err assume "out = Inl err" "v = node_view s n" "db = rp_db (sy_node s n)"
      then show ?thesis using same a(3) on'(1) by auto
    next
      fix log assume l: "out = Inr ()" "log_Data log = event_log B H now event (rp_db (sy_node s n))"
        "v = (node_view s n)\<lparr>vw_log := vw_log (node_view s n) @ [log], vw_applied := Suc (length (vw_log (node_view s n)))\<rparr>"
      have "recorded_log B H base db0 (events @ [(now, event)]) (sy_log s @ [log])"
        by (rule led_attempt [OF led(1) reach db0 ok]) (use l(2) a(1) event(2) n in simp_all)
      then have "led_inv B H base db0 L s' (events @ [(now, event)])"
        using led(1) pos tk a(1,3) l(1,3) unfolding s' n by (auto simp: led_inv_def accepted_by_def raft_returns_def)
      then show ?thesis ..
    qed
  next
    assume "\<not> (recorded base event \<and> vw_leads (node_view s n))" "v = node_view s n" "db = rp_db (sy_node s n)"
    then show ?thesis using same led(2) by auto
  qed
qed

lemma led_inv_checkpoint:
  assumes led: "led_inv B H base db0 L s events" "sy_leader s = Some L" and reach: "cluster_reachable B (sy_cluster s)"
    and c: "checkpoint_ok c" "checkpoint_exact c"
    and call: "documented_raft R B" "ApplyCheckpoint (raft_node R cfg) c (node_view s n, rp_db (sy_node s n)) = Some (res, v, db)"
    and on: "sy_leader (raft_returns s n v db) = Some L" "sy_term (raft_returns s n v db) = sy_term s"
  shows "led_inv B H base db0 L (raft_returns s n v db) events"
proof -
  note bounds = replica_bounds [OF reach, of n]
  from documented_raft.checkpoint_outcome [OF call] show ?thesis
  proof (elim disjE exE conjE)
    fix out
    assume a: "vw_leads (node_view s n)"
      "apply_outcome B (marshal_logEntry (checkpoint_log c)) (node_view s n, rp_db (sy_node s n)) (out, v, db)"
    then have n: "n = L" using led(2) by simp
    have on': "vw_leads v" "vw_term v = vw_term (node_view s n)" using on led(2) returns_leads_on [of s n v db] unfolding n by simp_all
    from outcome_leads_on [OF a(2) on'] show ?thesis
    proof (elim disjE exE conjE)
      assume "v = node_view s n" "db = rp_db (sy_node s n)"
      then show ?thesis using led(1) bounds by simp
    next
      fix log assume l: "log_Data log = marshal_logEntry (checkpoint_log c)"
        "v = (node_view s n)\<lparr>vw_log := vw_log (node_view s n) @ [log], vw_applied := Suc (length (vw_log (node_view s n)))\<rparr>"
      have "recorded_log B H base db0 events (sy_log s @ [log])"
        using led(1) l(1) c by (intro recorded_log.checkpoint) (auto simp: led_inv_def from_checkpoint_def)
      then show ?thesis
        using led(1) l(2) unfolding n by (auto simp: led_inv_def accepted_by_def raft_returns_def handled_by_def)
    qed
  next
    assume "v = node_view s n" "db = rp_db (sy_node s n)"
    then show ?thesis using led(1) bounds by simp
  qed
qed

lemma led_inv_step:
  assumes led: "led_inv B H base db0 L s events" "sy_leader s = Some L" and reach: "cluster_reachable B (sy_cluster s)"
    and db0: "bolt_get B db0 HashChainBucket = Map.empty" and ok: "list_all storable_log (sy_log s)"
    and "system_step B H base cfg s s'" and on: "sy_leader s' = Some L" "sy_term s' = sy_term s"
  shows "\<exists>events'. led_inv B H base db0 L s' events'"
  using assms(6)
proof cases
  case (change event)
  then have "led_inv B H base db0 L s' events"
    using led(1) by (intro led_inv_cong [OF led(1)]) (auto simp: led_inv_def handled_by_def)
  then show ?thesis ..
next
  case (handle n event now R res v db)
  then show ?thesis using led_inv_handle [OF led reach db0 ok handle(2-6,1) on] by blast
next
  case (checkpoint c R n res v db)
  then show ?thesis using led_inv_checkpoint [OF led reach checkpoint(2-5)] on by blast
next
  case (apply_next n r)
  then have "n \<noteq> L" using led(1) by (auto simp: led_inv_def)
  then have "led_inv B H base db0 L s' events"
    using led(1) apply_next(1) by (intro led_inv_cong [OF led(1)]) (auto simp: led_inv_def handled_by_def)
  then show ?thesis ..
next
  case (by_itself c n)
  have "rp_applied (cl_node c L) = rp_applied (sy_node s L) \<and> rp_high (cl_node c L) = rp_high (sy_node s L)"
    using by_itself(4,5) led(2) by (cases "n = L") (auto simp: same_entries_def)
  then have "led_inv B H base db0 L s' events"
    using led(1) by_itself(1,3) by (intro led_inv_cong [OF led(1)]) (auto simp: led_inv_def handled_by_def)
  then show ?thesis ..
next
  case (crash p n)
  then have "n \<noteq> L" using led(2) on(1) by auto
  then have "led_inv B H base db0 L s' events"
    using led(1) crash(1) by (intro led_inv_cong [OF led(1)]) (auto simp: led_inv_def handled_by_def)
  then show ?thesis ..
next
  case (elect l)
  then show ?thesis using on(2) by simp
qed

lemma led_by_inv:
  assumes "led_by B H base cfg db0 L s" "bolt_get B db0 HashChainBucket = Map.empty" "list_all storable_log (sy_log s)"
  shows "sy_leader s = Some L \<and> (\<exists>events. led_inv B H base db0 L s events)"
  using assms(1,3)
proof (induction rule: led_by.induct)
  case (init s)
  then show ?case by (auto simp: led_inv_def system_init_def accepted_by_def handled_by_def recorded_log.empty)
next
  case (step s s')
  obtain xs where "sy_log s' = sy_log s @ xs" using step_log [OF step(2)] by blast
  then have ok: "list_all storable_log (sy_log s)" using step.prems by simp
  then show ?case
    using step.IH step(2-4) led_inv_step [OF _ _ reachable_cluster [OF assms(2) led_by_reachable [OF step(1)] ok] assms(2) ok] by blast
qed

end

section \<open>A Raft that follows a script\<close>

text \<open>
  An instance of the documented behaviour, for the example runs: the script says whether the next
  entry of a leader is accepted, refused, or in doubt since the leader is deposed.
\<close>

datatype apply_script =
    Accept
  | Refuse goerror
  | Depose goerror bool

definition scripted_apply :: "'db bolt \<Rightarrow> apply_script \<Rightarrow> bytes \<Rightarrow> view \<times> 'db \<Rightarrow> unit result \<times> view \<times> 'db" where
  "scripted_apply B script data = (\<lambda>(v, db).
     let log = zero_Log\<lparr>log_Index := of_nat (Suc (length (vw_log v))), log_Term := vw_term v, log_Data := data\<rparr> in
     if \<not> vw_leads v then (Inl (Errorf ''node is not the leader''), v, db)
     else (case script of
             Accept \<Rightarrow>
               (Inr (), v\<lparr>vw_log := vw_log v @ [log], vw_applied := Suc (length (vw_log v))\<rparr>,
                apply_all B (drop (vw_applied v) (vw_log v) @ [log]) db)
           | Refuse err \<Rightarrow> (Inl err, v, db)
           | Depose err committed \<Rightarrow>
               (Inl err, v\<lparr>vw_leads := False, vw_log := vw_log v @ (if committed then [log] else [])\<rparr>, db)))"

definition scripted_raft :: "'db bolt \<Rightarrow> apply_script \<Rightarrow> (view, 'db) raft" where
  "scripted_raft B script =
     \<lparr>raft_is_leader = vw_leads, raft_Apply = scripted_apply B script, raft_Leader = (\<lambda>_. []), raft_GetConfiguration = (\<lambda>_. Inr []),
      raft_AddVoter = (\<lambda>_ _ v. (Inr (), v)), raft_RemoveServer = (\<lambda>_ v. (Inr (), v)), raft_LeadershipTransfer = (\<lambda>v. (Inr (), v)),
      raft_Shutdown = (\<lambda>v. (Inr (), v)), raft_Stats = (\<lambda>_. [])\<rparr>"

interpretation scripted: documented_raft "scripted_raft B script" B for B script
proof unfold_locales
  fix data and w :: "view \<times> 'a"
  obtain v db where w: "w = (v, db)" by (cases w)
  show "apply_outcome B data w (raft_Apply (scripted_raft B script) data w)"
    using apply_outcome.accepted [of v _ data B db] apply_outcome.refused [of B data v db]
      apply_outcome.deposed [of v False "vw_term v" B data db] apply_outcome.deposed_committed [of v False "vw_term v" _ data B db]
    by (cases script) (simp_all add: w scripted_raft_def scripted_apply_def Let_def)
qed (simp add: scripted_raft_def)

lemma scripted_leads:
  assumes "recorded base event" "vw_leads v"
  shows "\<exists>log. log_Data log = event_log B H now event db
    \<and> RaftHandler_HandleChange B H now (node_handler (scripted_raft B Accept) base cfg) event (v, db) =
        Some (Inr (), v\<lparr>vw_log := vw_log v @ [log], vw_applied := Suc (length (vw_log v))\<rparr>,
          apply_all B (drop (vw_applied v) (vw_log v) @ [log]) db)"
  using assms
  by (intro exI [of _ "zero_Log\<lparr>log_Index := of_nat (Suc (length (vw_log v))), log_Term := vw_term v, log_Data := event_log B H now event db\<rparr>"])
    (auto simp: RaftHandler_HandleChange_def node_handler_def NewRaftHashChainHandler_def raft_node_def recorded_def ApplyLog_def
      scripted_raft_def scripted_apply_def event_log_def Let_def)

lemma scripted_refused:
  assumes "recorded base event" "vw_leads v"
  shows "RaftHandler_HandleChange B H now (node_handler (scripted_raft B (Refuse err)) base cfg) event (v, db) =
    Some (Inl (Wrapf ''failed to replicate via raft'' (Wrapf ''failed to apply log'' err)), v, db)"
  using assms
  by (auto simp: RaftHandler_HandleChange_def node_handler_def NewRaftHashChainHandler_def raft_node_def recorded_def ApplyLog_def
      scripted_raft_def scripted_apply_def Node_IsLeader_def Let_def)

lemma scripted_follows:
  assumes "\<not> vw_leads v"
  shows "\<exists>res. RaftHandler_HandleChange B H now (node_handler (scripted_raft B Accept) base cfg) event (v, db) = Some (res, v, db)"
  using assms
  by (auto simp: RaftHandler_HandleChange_def node_handler_def NewRaftHashChainHandler_def raft_node_def recorded_def ApplyLog_def
      scripted_raft_def Node_IsLeader_def split: option.splits)

lemma step_refused:
  assumes "sy_leader s = Some n" "sy_pos s n < length (sy_stream s)" "event = sy_stream s ! sy_pos s n"
    and "recorded base event" "event_ok B H now event (rp_db (sy_node s n))" "rp_applied (sy_node s n) \<le> rp_high (sy_node s n)"
  shows "\<exists>err. system_step B H base cfg s
    (s\<lparr>sy_pos := (sy_pos s)(n := Suc (sy_pos s n)), sy_handled := sy_handled s @ [(n, event, Inl err)]\<rparr>)"
proof -
  have leads: "vw_leads (node_view s n)" using assms(1) by simp
  from system_step.handle [where s = s and n = n and cfg = cfg, OF assms(2,3,5) scripted.documented_raft_axioms scripted_refused [OF assms(4) leads]]
  show ?thesis using assms(6) by auto
qed

text \<open>Steps of the leader and of a node that does not lead.\<close>

lemma step_leads:
  assumes "sy_leader s = Some n" "sy_pos s n < length (sy_stream s)" "event = sy_stream s ! sy_pos s n"
    and "recorded base event" "event_ok B H now event (rp_db (sy_node s n))"
  shows "\<exists>log. log_Data log = event_log B H now event (rp_db (sy_node s n)) \<and> system_step B H base cfg s
    (s\<lparr>sy_pos := (sy_pos s)(n := Suc (sy_pos s n)), sy_handled := sy_handled s @ [(n, event, Inr ())],
       sy_cluster := (sy_cluster s)\<lparr>cl_log := sy_log s @ [log], cl_node := (sy_node s)(n := (sy_node s n)
         \<lparr>rp_db := apply_all B (drop (rp_applied (sy_node s n)) (sy_log s) @ [log]) (rp_db (sy_node s n)),
          rp_applied := Suc (length (sy_log s)), rp_high := max (rp_high (sy_node s n)) (Suc (length (sy_log s)))\<rparr>)\<rparr>\<rparr>)"
proof -
  have leads: "vw_leads (node_view s n)" using assms(1) by simp
  obtain log where log: "log_Data log = event_log B H now event (rp_db (sy_node s n))"
    "RaftHandler_HandleChange B H now (node_handler (scripted_raft B Accept) base (cfg n)) event (node_view s n, rp_db (sy_node s n)) =
      Some (Inr (), (node_view s n)\<lparr>vw_log := sy_log s @ [log], vw_applied := Suc (length (sy_log s))\<rparr>,
        apply_all B (drop (rp_applied (sy_node s n)) (sy_log s) @ [log]) (rp_db (sy_node s n)))"
    using scripted_leads [OF assms(4) leads] by fastforce
  from system_step.handle [where s = s and n = n and cfg = cfg, OF assms(2,3,5) scripted.documented_raft_axioms log(2)]
  show ?thesis using assms(1) by (intro exI [of _ log] conjI log(1)) (cases s; simp add: raft_returns_def node_view_def)
qed

lemma reachable_follows:
  assumes "system_reachable B H base cfg db0 s" "sy_leader s \<noteq> Some n" "sy_pos s n < length (sy_stream s)"
    and "event_ok B H now (sy_stream s ! sy_pos s n) (rp_db (sy_node s n))" "rp_applied (sy_node s n) \<le> rp_high (sy_node s n)"
  shows "\<exists>res. system_reachable B H base cfg db0
    (s\<lparr>sy_pos := (sy_pos s)(n := Suc (sy_pos s n)), sy_handled := sy_handled s @ [(n, sy_stream s ! sy_pos s n, res)]\<rparr>)"
proof -
  obtain res where res: "RaftHandler_HandleChange B H now (node_handler (scripted_raft B Accept) base (cfg n)) (sy_stream s ! sy_pos s n)
      (node_view s n, rp_db (sy_node s n)) = Some (res, node_view s n, rp_db (sy_node s n))"
    using scripted_follows [of "node_view s n" B H now base "cfg n" "sy_stream s ! sy_pos s n" "rp_db (sy_node s n)"] assms(2) by auto
  from system_reachable.step [OF assms(1) system_step.handle [where s = s and n = n and cfg = cfg, OF assms(3) refl assms(4) scripted.documented_raft_axioms res]]
  show ?thesis using assms(5) by auto
qed

section \<open>Properties\<close>


text \<open>
  C9. While one node leads in one term, the cluster is the local handler,
  replicated: what the leader's handler has been given is the stream up to its place; the
  log has exactly one entry, in order and numbered as the local handler would number it, for
  each protected insertion whose handling the leader reported as a success, none for those
  reported as failed, and otherwise checkpoints only; and every node that has caught up holds
  the hash entries that the local handler, on a single node, leaves on the first of these
  insertions, on all of them if it has applied the whole log.
\<close>

theorem stable_leader_refines:
  assumes "reliable_bolt B" "bolt_get B db0 HashChainBucket = Map.empty" "led_by B H base cfg db0 L s"
    and "list_all storable_log (sy_log s)"
  shows "map fst (handled_by L s) = take (sy_pos s L) (sy_stream s)
    \<and> (\<exists>events. map snd events = map fst (filter (\<lambda>(event, res). recorded base event \<and> res = Inr ()) (handled_by L s))
        \<and> recorded_log B H base db0 events (sy_log s)
        \<and> (\<forall>n. rp_applied (sy_node s n) = rp_high (sy_node s n) \<longrightarrow>
            (\<exists>k \<le> length events. recorded_log B H base db0 (take k events) (take (rp_applied (sy_node s n)) (sy_log s))
               \<and> (rp_applied (sy_node s n) = length (sy_log s) \<longrightarrow> k = length events)
               \<and> bolt_get B (rp_db (sy_node s n)) HashChainBucket =
                   bolt_get B (local_run B H base (take k events) db0) HashChainBucket)))"
proof -
  obtain events where led: "led_inv B H base db0 L s events" using reliable_bolt.led_by_inv [OF assms(1,3,2,4)] by blast
  have reach: "cluster_reachable B (sy_cluster s)"
    by (rule reliable_bolt.reachable_cluster [OF assms(1,2) led_by_reachable [OF assms(3)] assms(4)])
  have log: "recorded_log B H base db0 events (sy_log s)" using led by (simp add: led_inv_def)
  have "\<exists>k \<le> length events. recorded_log B H base db0 (take k events) (take (rp_applied (sy_node s n)) (sy_log s))
      \<and> (rp_applied (sy_node s n) = length (sy_log s) \<longrightarrow> k = length events)
      \<and> bolt_get B (rp_db (sy_node s n)) HashChainBucket = bolt_get B (local_run B H base (take k events) db0) HashChainBucket"
    if n: "rp_applied (sy_node s n) = rp_high (sy_node s n)" for n
  proof -
    let ?i = "rp_applied (sy_node s n)"
    note bounds = reliable_bolt.replica_bounds [OF assms(1) reach, of n]
    obtain k where k: "k \<le> length events" "recorded_log B H base db0 (take k events) (take ?i (sy_log s))" "?i = length (sy_log s) \<longrightarrow> k = length events"
      using recorded_log_prefix [OF log, of ?i] bounds by force
    have ok: "list_all storable_log (take ?i (sy_log s))" using assms(4) by (auto simp: list_all_iff dest: in_set_takeD)
    have "bolt_get B (rp_db (sy_node s n)) HashChainBucket j = bolt_get B (local_run B H base (take k events) db0) HashChainBucket j" for j
      unfolding reliable_bolt.recorded_log_contents [OF assms(1) k(2) ok assms(2)]
      using bounds(3) n covers_caught_up by fastforce
    then show ?thesis using k by blast
  qed
  then show ?thesis using led unfolding led_inv_def accepted_by_def by blast
qed

text \<open>
  C12. When leadership moves, an insertion may be recorded by no one
  or twice. There is a run in which two nodes have both handled it and the log is empty: the
  one passed over it as a follower, and the other lost the leadership before it came to it.
  And there is one in which the log, applied by both, has it under two numbers: the second
  leader came to it after the first had recorded it.
\<close>

theorem leadership_change_loses:
  assumes "recorded base event" "event_ok B H now event db0" "db1 = store_after db0 (Handler_HandleChange B H now base event db0)"
    and "event_ok B H now event db1"
  shows "(\<exists>s. system_reachable B H base cfg db0 s \<and> sy_stream s = [event] \<and> sy_log s = []
      \<and> (\<forall>n < 2. sy_pos s n = 1 \<and> rp_db (sy_node s n) = db0))
    \<and> (\<exists>s. system_reachable B H base cfg db0 s \<and> sy_stream s = [event]
      \<and> map log_Data (sy_log s) = [event_log B H now event db0, event_log B H now event db1]
      \<and> (\<forall>n < 2. sy_pos s n = 1 \<and> rp_db (sy_node s n) = store_after db1 (Handler_HandleChange B H now base event db1)))"
  (is "?lost \<and> ?twice")
proof
  let ?e = "\<lambda>db i. \<lparr>rp_db = db, rp_applied = i, rp_high = i, rp_snap = None\<rparr>"
  let ?s = "\<lambda>stream t l p log f h. \<lparr>sy_stream = stream, sy_term = t, sy_leader = Some l, sy_pos = p,
    sy_cluster = \<lparr>cl_log = log, cl_node = f, cl_snapshots = []\<rparr>, sy_handled = h\<rparr>"
  let ?n0 = "\<lambda>_ :: nat. ?e db0 0" and ?p0 = "\<lambda>_ :: nat. 0 :: nat"
  note step = system_reachable.step
  have 0: "system_reachable B H base cfg db0 (?s [] 0 0 ?p0 [] ?n0 [])"
    by (rule system_reachable.init) (simp add: system_init_def)
  have 1: "system_reachable B H base cfg db0 (?s [event] 0 0 ?p0 [] ?n0 [])"
    using step [OF 0 system_step.change [of _ _ _ _ _ event]] by simp
  obtain h1 where "system_reachable B H base cfg db0 (?s [event] 0 0 (?p0(1 := 1)) [] ?n0 h1)"
    using reachable_follows [OF 1, of 1] assms(2) by auto
  from step [OF this system_step.elect [of _ _ _ _ _ "Some 1"]]
  have 2: "system_reachable B H base cfg db0 (?s [event] 1 1 (?p0(1 := 1)) [] ?n0 h1)" by simp
  obtain h2 where "system_reachable B H base cfg db0 (?s [event] 1 1 ((?p0(1 := 1))(0 := 1)) [] ?n0 h2)"
    using reachable_follows [OF 2, of 0] assms(2) by auto
  then show ?lost by (intro exI conjI) (auto simp: less_Suc_eq numeral_2_eq_2)
  obtain l1 h3 where l1: "log_Data l1 = event_log B H now event db0"
    "system_reachable B H base cfg db0 (?s [event] 0 0 (?p0(0 := 1)) [l1] (?n0(0 := ?e (snd (FSM_Apply B l1 db0)) 1)) h3)"
    using step_leads [of "?s [event] 0 0 ?p0 [] ?n0 []" 0 event base B H now cfg] step [OF 1] assms(1,2) by auto
  have db1: "snd (FSM_Apply B l1 db0) = db1" using event_log_applied [OF assms(1,2) l1(1)] assms(3) by simp
  have "system_reachable B H base cfg db0 (?s [event] 0 0 (?p0(0 := 1)) [l1] ((?n0(0 := ?e db1 1))(1 := ?e db1 1)) h3)"
    using step [OF l1(2) system_step.apply_next [of _ 1 "?e db1 1"]] by (simp add: db1)
  from step [OF this system_step.elect [of _ _ _ _ _ "Some 1"]]
  have 3: "system_reachable B H base cfg db0 (?s [event] 1 1 (?p0(0 := 1)) [l1] ((?n0(0 := ?e db1 1))(1 := ?e db1 1)) h3)" by simp
  obtain l2 h4 where l2: "log_Data l2 = event_log B H now event db1"
    "system_reachable B H base cfg db0 (?s [event] 1 1 ((?p0(0 := 1))(1 := 1)) [l1, l2] ((?n0(0 := ?e db1 1))(1 := ?e (snd (FSM_Apply B l2 db1)) 2)) h4)"
    using step_leads [of "?s [event] 1 1 (?p0(0 := 1)) [l1] ((?n0(0 := ?e db1 1))(1 := ?e db1 1)) h3" 1 event base B H now cfg] step [OF 3] assms(1,4)
    by (auto simp: numeral_2_eq_2)
  have db2: "snd (FSM_Apply B l2 db1) = store_after db1 (Handler_HandleChange B H now base event db1)"
    by (rule event_log_applied [OF assms(1,4) l2(1)])
  have "system_reachable B H base cfg db0 (?s [event] 1 1 ((?p0(0 := 1))(1 := 1)) [l1, l2]
      ((?n0(1 := ?e (snd (FSM_Apply B l2 db1)) 2))(0 := ?e (snd (FSM_Apply B l2 db1)) 2)) h4)"
    using step [OF l2(2) system_step.apply_next [of _ 0 "?e (snd (FSM_Apply B l2 db1)) 2"]] by (simp add: numeral_2_eq_2 fun_upd_twist)
  then show ?twice by (intro exI conjI) (auto simp: less_Suc_eq numeral_2_eq_2 l1(1) l2(1) db2)
qed

text \<open>The insertion of one row into the table logs, in a cluster of nodes with empty stores.\<close>

definition sample_now :: gotime where
  "sample_now = ''2024-01-01T00:00:00Z''"

definition sample_cfgs :: "nat \<Rightarrow> NodeConfig" where
  "sample_cfgs n = nd_config sample_node"

lemma sample_recorded: "recorded sample_handler sample_event" "sample_insert 1 = (sample_now, sample_event)"
  by (simp_all add: recorded_def sample_handler_def sample_event_def sample_insert_def sample_now_def)

lemma sample_ok: "event_ok mem_bolt sample_hash sample_now sample_event []"
  using sample_event_utf8 sample_next by (simp add: event_ok_def sample_now_def sample_event_def sample_insert_def)

definition sample_db1 :: mem_db where
  "sample_db1 = store_after [] (Handler_HandleChange mem_bolt sample_hash sample_now sample_handler sample_event [])"

lemma sample_local: "handle_all mem_bolt sample_hash sample_handler [(sample_now, sample_event)] [] = Inr sample_db1"
proof -
  have s: "list_all (insertion sample_hash sample_handler ''logs'') [(sample_now, sample_event)]"
    "list_all (event_small sample_hash) [(sample_now, sample_event)]"
    using sample_stream [of 2] by (simp_all add: numeral_2_eq_2 flip: sample_recorded(2))
  obtain db' where "handle_all mem_bolt sample_hash sample_handler [(sample_now, sample_event)] [] = Inr db'"
    using mem.insertions_stored [OF s] by blast
  then show ?thesis by (auto simp: sample_db1_def store_after_def bind_res_eq_Inr_iff)
qed

lemma sample_ok1: "event_ok mem_bolt sample_hash sample_now sample_event sample_db1"
proof -
  have t: "table_ok ''logs''" by (simp add: table_ok_def)
  have s: "list_all (insertion sample_hash sample_handler ''logs'') [(sample_now, sample_event)]"
    using sample_stream(1) [of 2] by (simp add: numeral_2_eq_2 flip: sample_recorded(2))
  have "store_inv mem_bolt sample_db1" "mem.store.numbers ''logs'' sample_db1 = {1..1}"
    using mem.insertions_run [OF sample_handler_inv(1) store_inv_empty stored_entries_empty s sample_local t] by (simp_all add: mem.chain_of_def)
  then have "unat (next_seq (GetLatestHashEntry mem_bolt ''logs'' sample_db1)) = 2"
    using mem.store.next_number [of sample_db1 "''logs''" 1] t by simp
  then have "uint (next_seq (GetLatestHashEntry mem_bolt ''logs'' sample_db1)) < 2 ^ 53" by (simp add: uint_nat)
  then show ?thesis using sample_ok by (simp add: event_ok_def sample_event_def sample_insert_def)
qed

theorem leadership_change_loses_witness:
  "(\<exists>s. system_reachable mem_bolt sample_hash sample_handler sample_cfgs [] s \<and> sy_stream s = [sample_event] \<and> sy_log s = [])
   \<and> (\<exists>s. system_reachable mem_bolt sample_hash sample_handler sample_cfgs [] s \<and> sy_stream s = [sample_event] \<and> length (sy_log s) = 2)"
  using leadership_change_loses [OF sample_recorded(1) sample_ok sample_db1_def sample_ok1, of sample_cfgs]
  by (metis length_map length_Cons list.size(3) numeral_2_eq_2)

text \<open>
  The database sends the insertion twice. The leader's first call of Raft is refused, the
  second one accepted, and another node applies the entry.
\<close>

lemma storable_log_cong: "log_Data l = log_Data l' \<Longrightarrow> storable_log l \<longleftrightarrow> storable_log l'"
  by (simp add: storable_log_def write_small_def log_write_def)

lemma sample_led:
  "\<exists>s err. led_by mem_bolt sample_hash sample_handler sample_cfgs [] 0 s \<and> list_all storable_log (sy_log s) \<and> length (sy_log s) = 1
    \<and> handled_by 0 s = [(sample_event, Inl err), (sample_event, Inr ())] \<and> rp_applied (sy_node s 1) = 1 \<and> rp_high (sy_node s 1) = 1"
proof -
  let ?e = "\<lambda>db i. \<lparr>rp_db = db, rp_applied = i, rp_high = i, rp_snap = None\<rparr> :: mem_db replica"
  let ?s = "\<lambda>stream p log f h. \<lparr>sy_stream = stream, sy_term = 0, sy_leader = Some 0, sy_pos = p,
    sy_cluster = \<lparr>cl_log = log, cl_node = f, cl_snapshots = []\<rparr>, sy_handled = h\<rparr> :: mem_db system"
  let ?es = "[sample_event, sample_event]"
  let ?n0 = "\<lambda>_ :: nat. ?e [] 0" and ?p = "\<lambda>i :: nat. (\<lambda>_ :: nat. 0 :: nat)(0 := i)"
  let ?led = "led_by mem_bolt sample_hash sample_handler sample_cfgs [] 0"
  have 0: "?led (?s [] (\<lambda>_. 0) [] ?n0 [])" by (rule led_by.init) (simp_all add: system_init_def)
  have "?led (?s [sample_event] (\<lambda>_. 0) [] ?n0 [])" using led_by.step [OF 0 system_step.change [of _ _ _ _ _ sample_event]] by simp
  from led_by.step [OF this system_step.change [of _ _ _ _ _ sample_event]] have 1: "?led (?s ?es (\<lambda>_. 0) [] ?n0 [])" by simp
  obtain err where st: "system_step mem_bolt sample_hash sample_handler sample_cfgs (?s ?es (\<lambda>_. 0) [] ?n0 [])
      (?s ?es (?p 1) [] ?n0 [(0, sample_event, Inl err)])"
    using step_refused [of "?s ?es (\<lambda>_. 0) [] ?n0 []" 0 sample_event sample_handler mem_bolt sample_hash sample_now sample_cfgs]
      sample_recorded(1) sample_ok by auto
  have 2: "?led (?s ?es (?p 1) [] ?n0 [(0, sample_event, Inl err)])" using led_by.step [OF 1 st] by simp
  obtain l where l: "log_Data l = event_log mem_bolt sample_hash sample_now sample_event []"
    and st: "system_step mem_bolt sample_hash sample_handler sample_cfgs (?s ?es (?p 1) [] ?n0 [(0, sample_event, Inl err)])
      (?s ?es (?p 2) [l] (?n0(0 := ?e (snd (FSM_Apply mem_bolt l [])) 1)) [(0, sample_event, Inl err), (0, sample_event, Inr ())])"
    using step_leads [of "?s ?es (?p 1) [] ?n0 [(0, sample_event, Inl err)]" 0 sample_event sample_handler mem_bolt sample_hash sample_now sample_cfgs]
      sample_recorded(1) sample_ok by (auto simp: numeral_2_eq_2)
  define db where "db = snd (FSM_Apply mem_bolt l [])"
  let ?h = "[(0, sample_event, Inl err), (0, sample_event, Inr ())]"
  have 3: "?led (?s ?es (?p 2) [l] (?n0(0 := ?e db 1)) ?h)" using led_by.step [OF 2 st] by (simp add: db_def)
  have 4: "?led (?s ?es (?p 2) [l] ((?n0(0 := ?e db 1))(1 := ?e (snd (FSM_Apply mem_bolt l [])) 1)) ?h)"
    using led_by.step [OF 3 system_step.apply_next [of _ 1 "?e (snd (FSM_Apply mem_bolt l [])) 1"]] by simp
  have t: "ev_TableName sample_event = ''logs''" by (simp add: sample_event_def sample_insert_def)
  have "log_Data l = log_Data sample_log"
    using sample_hash_log by (simp add: l event_log_def t sample_next sample_log_def sample_now_def)
  then have "storable_log l" using storable_log_cong sample_log_storable by blast
  with 4 show ?thesis by (intro exI conjI) (auto simp: handled_by_def)
qed

lemma sample_empty: "bolt_get mem_bolt [] HashChainBucket = Map.empty"
  by (simp add: mem_bolt_def mem_bucket_def fun_eq_iff)

theorem stable_leader_refines_witness:
  "\<exists>s now. led_by mem_bolt sample_hash sample_handler sample_cfgs [] 0 s \<and> recorded_log mem_bolt sample_hash sample_handler [] [(now, sample_event)] (sy_log s)
    \<and> bolt_get mem_bolt (rp_db (sy_node s 1)) HashChainBucket =
        bolt_get mem_bolt (local_run mem_bolt sample_hash sample_handler [(now, sample_event)] []) HashChainBucket"
proof -
  obtain s err where s: "led_by mem_bolt sample_hash sample_handler sample_cfgs [] 0 s" "list_all storable_log (sy_log s)" "length (sy_log s) = 1"
    "handled_by 0 s = [(sample_event, Inl err), (sample_event, Inr ())]" "rp_applied (sy_node s 1) = 1" "rp_high (sy_node s 1) = 1" using sample_led by blast
  have f: "map fst (filter (\<lambda>(event, res). recorded sample_handler event \<and> res = Inr ()) (handled_by 0 s)) = [sample_event]"
    by (simp add: s(4) sample_recorded(1))
  from stable_leader_refines [OF mem.reliable_bolt_axioms sample_empty s(1,2), unfolded f]
  obtain events k where e: "map snd events = [sample_event]" "recorded_log mem_bolt sample_hash sample_handler [] events (sy_log s)"
    "rp_applied (sy_node s 1) = length (sy_log s) \<longrightarrow> k = length events"
    "bolt_get mem_bolt (rp_db (sy_node s 1)) HashChainBucket =
       bolt_get mem_bolt (local_run mem_bolt sample_hash sample_handler (take k events) []) HashChainBucket"
    using s(5,6) by metis
  from e(1) obtain now where "events = [(now, sample_event)]" by (auto simp: map_eq_Cons_conv)
  with e(2-4) s(1,3,5) show ?thesis by auto
qed


end
