(* ===== verification/Merkle.thy ===== *)
theory Merkle
  imports Hash
begin

text \<open>
  Package internal/hash: the Merkle trees of merkle.go (MerkleTreeBuilder, proofs, tree and
  leaf-map comparison) and of hash.go (MerkleTree). \<open>H\<close> is the hash function in force,
  \<open>GetHasher().Hash\<close>.

  The lemmas show that building ends exactly on a non-empty list of leaves, that both trees
  have the same root, that the root binds the leaves when their number is known, that every
  proof the builder issues verifies, and that comparing leaf maps reports exactly the
  records that differ.
\<close>

section \<open>Nodes and trees\<close>

text \<open>
  A MerkleNode has no children, two different ones, or the same node twice: the last
  is how buildTree closes a level of odd length. Only that sharing is observable (the
  sources compare the pointers Left and Right of one node), so it has its own constructor.
\<close>

datatype MerkleNode =
    Leaf string
  | Pair string MerkleNode MerkleNode
  | Twin string MerkleNode

fun node_Hash :: "MerkleNode \<Rightarrow> string" where
  "node_Hash (Leaf h) = h"
| "node_Hash (Pair h l r) = h"
| "node_Hash (Twin h c) = h"

record MerkleProof =
  LeafHash :: string
  LeafIndex :: int
  Siblings :: "string list"
  Directions :: "bool list"

record MerkleTreeBuilder =
  leaves :: "string list"
  leafDataMap :: "(string, string) gomap"
  hashToID :: "(string, string) gomap"
  root :: "MerkleNode option"

definition NewMerkleTreeBuilder :: MerkleTreeBuilder where
  "NewMerkleTreeBuilder = \<lparr>leaves = [], leafDataMap = [], hashToID = [], root = None\<rparr>"

definition Builder_AddLeafHash :: "string \<Rightarrow> string \<Rightarrow> MerkleTreeBuilder \<Rightarrow> MerkleTreeBuilder" where
  "Builder_AddLeafHash recordID h mtb =
     mtb\<lparr>leaves := leaves mtb @ [h],
         leafDataMap := AList.update recordID h (leafDataMap mtb),
         hashToID := AList.update h recordID (hashToID mtb)\<rparr>"

definition Builder_AddLeaf ::
    "(string \<Rightarrow> string) \<Rightarrow> string \<Rightarrow> (string, goval) gomap \<Rightarrow> MerkleTreeBuilder \<Rightarrow> MerkleTreeBuilder" where
  "Builder_AddLeaf H recordID data mtb =
     (let h = CalculateDataHash H data in
      mtb\<lparr>leaves := leaves mtb @ [h],
          leafDataMap := AList.update recordID h (leafDataMap mtb),
          hashToID := AList.update h recordID (hashToID mtb)\<rparr>)"

definition GetSortedLeaves :: "MerkleTreeBuilder \<Rightarrow> string list" where
  "GetSortedLeaves mtb = sort (leaves mtb)"

definition GetRecordIDByHash :: "string \<Rightarrow> MerkleTreeBuilder \<Rightarrow> string option" where
  "GetRecordIDByHash h mtb = map_of (hashToID mtb) h"

definition GetRecordIDByIndex :: "int \<Rightarrow> MerkleTreeBuilder \<Rightarrow> string option" where
  "GetRecordIDByIndex index mtb =
     (let sortedLeaves = GetSortedLeaves mtb in
      if index < 0 \<or> int (length sortedLeaves) \<le> index then None
      else GetRecordIDByHash (sortedLeaves ! nat index) mtb)"

text \<open>One round of buildTree's loop over a level.\<close>

fun buildLevel :: "(string \<Rightarrow> string) \<Rightarrow> MerkleNode list \<Rightarrow> MerkleNode list" where
  "buildLevel H (left # right # nodes) =
     Pair (H (node_Hash left @ node_Hash right)) left right # buildLevel H nodes"
| "buildLevel H [left] = [Twin (H (node_Hash left @ node_Hash left)) left]"
| "buildLevel H [] = []"

text \<open>\<^const>\<open>None\<close> stands for a call that does not return.\<close>

partial_function (option) buildTree ::
    "(string \<Rightarrow> string) \<Rightarrow> MerkleNode list \<Rightarrow> MerkleNode option" where
  "buildTree H nodes =
     (case nodes of [n] \<Rightarrow> Some n | _ \<Rightarrow> buildTree H (buildLevel H nodes))"

definition Builder_Build ::
    "(string \<Rightarrow> string) \<Rightarrow> MerkleTreeBuilder \<Rightarrow> MerkleTreeBuilder result option" where
  "Builder_Build H mtb =
     (if leaves mtb = [] then Some (Inl (Errorf ''no leaves to build tree''))
      else map_option (\<lambda>r. Inr (mtb\<lparr>root := Some r\<rparr>))
             (buildTree H (map Leaf (sort (leaves mtb)))))"

definition Builder_GetRoot :: "MerkleTreeBuilder \<Rightarrow> string" where
  "Builder_GetRoot mtb = (case root mtb of None \<Rightarrow> [] | Some r \<Rightarrow> node_Hash r)"

definition GetLeafCount :: "MerkleTreeBuilder \<Rightarrow> nat" where
  "GetLeafCount mtb = length (leaves mtb)"

definition GetLeafMap :: "MerkleTreeBuilder \<Rightarrow> (string, string) gomap" where
  "GetLeafMap mtb = leafDataMap mtb"

fun collectInternalNodes ::
    "MerkleNode \<Rightarrow> string \<Rightarrow> (string, string) gomap \<Rightarrow> (string, string) gomap" where
  "collectInternalNodes (Leaf h) path nodes = AList.update path h nodes"
| "collectInternalNodes (Pair h l r) path nodes =
     collectInternalNodes r (path @ ''/R'')
       (collectInternalNodes l (path @ ''/L'') (AList.update path h nodes))"
| "collectInternalNodes (Twin h c) path nodes =
     collectInternalNodes c (path @ ''/L'') (AList.update path h nodes)"

definition GetInternalNodes :: "MerkleTreeBuilder \<Rightarrow> (string, string) gomap" where
  "GetInternalNodes mtb =
     (case root mtb of None \<Rightarrow> [] | Some r \<Rightarrow> collectInternalNodes r ''root'' [])"

section \<open>MerkleTree of hash.go\<close>

record MerkleTree =
  mt_leaves :: "string list"

definition NewMerkleTree :: MerkleTree where
  "NewMerkleTree = \<lparr>mt_leaves = []\<rparr>"

definition MerkleTree_AddLeaf :: "(string \<Rightarrow> string) \<Rightarrow> any \<Rightarrow> MerkleTree \<Rightarrow> MerkleTree result" where
  "MerkleTree_AddLeaf H data mt =
     (case Calculate H data of
        Inl err \<Rightarrow> Inl err
      | Inr h \<Rightarrow> Inr (mt\<lparr>mt_leaves := mt_leaves mt @ [h]\<rparr>))"

definition MerkleTree_AddLeafHash :: "string \<Rightarrow> MerkleTree \<Rightarrow> MerkleTree" where
  "MerkleTree_AddLeafHash h mt = mt\<lparr>mt_leaves := mt_leaves mt @ [h]\<rparr>"

fun combineLevel :: "(string \<Rightarrow> string) \<Rightarrow> string list \<Rightarrow> string list" where
  "combineLevel H (a # b # hashes) = CalculateString H (a @ b) # combineLevel H hashes"
| "combineLevel H [a] = [CalculateString H (a @ a)]"
| "combineLevel H [] = []"

lemma length_combineLevel [simp]: "length (combineLevel H hs) = (length hs + 1) div 2"
  by (induction H hs rule: combineLevel.induct) auto

function calculateRoot :: "(string \<Rightarrow> string) \<Rightarrow> string list \<Rightarrow> string" where
  "calculateRoot H [] = []"
| "calculateRoot H [h] = h"
| "calculateRoot H (a # b # hs) = calculateRoot H (combineLevel H (a # b # hs))"
  by pat_completeness auto
termination by (relation "measure (\<lambda>(H, hs). length hs)") auto

definition MerkleTree_GetRoot :: "(string \<Rightarrow> string) \<Rightarrow> MerkleTree \<Rightarrow> string" where
  "MerkleTree_GetRoot H mt =
     (if mt_leaves mt = [] then [] else calculateRoot H (sort (mt_leaves mt)))"

definition MerkleTree_Reset :: "MerkleTree \<Rightarrow> MerkleTree" where
  "MerkleTree_Reset mt = mt\<lparr>mt_leaves := []\<rparr>"

definition MerkleTree_LeafCount :: "MerkleTree \<Rightarrow> nat" where
  "MerkleTree_LeafCount mt = length (mt_leaves mt)"

section \<open>Building: when it ends, and what it builds\<close>

lemma node_Hash_buildLevel: "map node_Hash (buildLevel H nodes) = combineLevel H (map node_Hash nodes)"
  by (induction H nodes rule: buildLevel.induct) (auto simp: CalculateString_def)

lemma length_buildLevel [simp]: "length (buildLevel H nodes) = (length nodes + 1) div 2"
  by (induction H nodes rule: buildLevel.induct) auto

lemma buildTree_unfold:
  "buildTree H [n] = Some n"
  "buildTree H (a # b # nodes) = buildTree H (buildLevel H (a # b # nodes))"
  by (subst buildTree.simps, simp)+

lemma buildTree_Nil: "buildTree H [] = None"
proof (rule ccontr)
  assume "buildTree H [] \<noteq> None"
  then obtain r where ret: "buildTree H [] = Some r" by blast
  have "[] \<noteq> ([] :: MerkleNode list)"
  proof (rule buildTree.raw_induct [where P = "\<lambda>H nodes r. nodes \<noteq> []", OF _ ret])
    fix f :: "(string \<Rightarrow> string) \<Rightarrow> MerkleNode list \<Rightarrow> MerkleNode option" and G nodes n
    assume IH: "\<And>G nodes n. f G nodes = Some n \<Longrightarrow> nodes \<noteq> []"
      and eq: "(case nodes of [] \<Rightarrow> f G (buildLevel G nodes) | [n] \<Rightarrow> Some n
          | n # a # list \<Rightarrow> f G (buildLevel G nodes)) = Some n"
    show "nodes \<noteq> []"
    proof
      assume "nodes = []"
      then show False using eq IH [of G "[]" n] by simp
    qed
  qed
  then show False by simp
qed

text \<open>The leaves below a node, each once, from left to right.\<close>

fun leaves_of :: "MerkleNode \<Rightarrow> string list" where
  "leaves_of (Leaf h) = [h]"
| "leaves_of (Pair h l r) = leaves_of l @ leaves_of r"
| "leaves_of (Twin h c) = leaves_of c"

text \<open>Every inner node carries the hash of its children's hashes.\<close>

fun wf_node :: "(string \<Rightarrow> string) \<Rightarrow> MerkleNode \<Rightarrow> bool" where
  "wf_node H (Leaf h) = True"
| "wf_node H (Pair h l r) = (h = H (node_Hash l @ node_Hash r) \<and> wf_node H l \<and> wf_node H r)"
| "wf_node H (Twin h c) = (h = H (node_Hash c @ node_Hash c) \<and> wf_node H c)"

lemma buildLevel_leaves: "concat (map leaves_of (buildLevel H nodes)) = concat (map leaves_of nodes)"
  by (induction H nodes rule: buildLevel.induct) auto

lemma buildLevel_wf: "list_all (wf_node H) nodes \<Longrightarrow> list_all (wf_node H) (buildLevel H nodes)"
  by (induction H nodes rule: buildLevel.induct) auto

lemma buildTree_correct:
  "nodes \<noteq> [] \<Longrightarrow> list_all (wf_node H) nodes \<Longrightarrow>
   \<exists>r. buildTree H nodes = Some r \<and> wf_node H r \<and> leaves_of r = concat (map leaves_of nodes)
      \<and> node_Hash r = calculateRoot H (map node_Hash nodes)"
proof (induction "length nodes" arbitrary: nodes rule: less_induct)
  case less
  consider (one) n where "nodes = [n]" | (more) a b ns where "nodes = a # b # ns"
    using less.prems(1) by (metis neq_Nil_conv)
  then show ?case
  proof cases
    case one
    with less.prems show ?thesis by (simp add: buildTree_unfold)
  next
    case more
    let ?next = "buildLevel H nodes"
    have "\<exists>r. buildTree H ?next = Some r \<and> wf_node H r \<and> leaves_of r = concat (map leaves_of ?next)
        \<and> node_Hash r = calculateRoot H (map node_Hash ?next)"
      using more less.prems by (intro less.hyps buildLevel_wf) auto
    moreover have "map node_Hash ?next = combineLevel H (map node_Hash nodes)"
      by (rule node_Hash_buildLevel)
    moreover have "concat (map leaves_of ?next) = concat (map leaves_of nodes)"
      by (rule buildLevel_leaves)
    moreover have "buildTree H nodes = buildTree H ?next"
      unfolding more by (rule buildTree_unfold)
    ultimately show ?thesis by (simp add: more)
  qed
qed

lemma Builder_Build_correct:
  assumes "leaves mtb \<noteq> []"
  shows "\<exists>r. Builder_Build H mtb = Some (Inr (mtb\<lparr>root := Some r\<rparr>)) \<and> wf_node H r
     \<and> leaves_of r = sort (leaves mtb) \<and> node_Hash r = calculateRoot H (sort (leaves mtb))"
proof -
  have "map Leaf (sort (leaves mtb)) \<noteq> []" using assms by (metis map_is_Nil_conv mset_sort mset_zero_iff)
  moreover have "list_all (wf_node H) (map Leaf (sort (leaves mtb)))"
    by (simp add: list_all_iff)
  ultimately obtain r where "buildTree H (map Leaf (sort (leaves mtb))) = Some r" "wf_node H r"
    "leaves_of r = concat (map leaves_of (map Leaf (sort (leaves mtb))))"
    "node_Hash r = calculateRoot H (map node_Hash (map Leaf (sort (leaves mtb))))"
    using buildTree_correct by blast
  moreover have "map node_Hash (map Leaf ls) = ls" "concat (map leaves_of (map Leaf ls)) = ls" for ls
    by (induction ls) auto
  ultimately show ?thesis using assms by (intro exI [of _ r]) (simp add: Builder_Build_def)
qed

text \<open>Both trees have one root function, and it depends on the multiset of the leaves only.\<close>

lemma Build_GetRoot:
  assumes "leaves mtb \<noteq> []" "Builder_Build H mtb = Some (Inr mtb')"
  shows "Builder_GetRoot mtb' = MerkleTree_GetRoot H \<lparr>mt_leaves = leaves mtb\<rparr>"
  using Builder_Build_correct [OF assms(1), of H] assms
  by (auto simp: Builder_GetRoot_def MerkleTree_GetRoot_def)

lemma sort_perm: "mset xs = mset ys \<Longrightarrow> sort xs = sort (ys :: string list)"
  by (metis properties_for_sort mset_sort sorted_sort)

lemma MerkleTree_GetRoot_perm:
  assumes "mset xs = mset ys"
  shows "MerkleTree_GetRoot H \<lparr>mt_leaves = xs\<rparr> = MerkleTree_GetRoot H \<lparr>mt_leaves = ys\<rparr>"
proof -
  have "xs = [] \<longleftrightarrow> ys = []" using assms by (metis mset_zero_iff)
  then show ?thesis using sort_perm [OF assms] by (simp add: MerkleTree_GetRoot_def)
qed

section \<open>The root binds the leaves\<close>

text \<open>Everything the hash function is applied to while a root is computed.\<close>

fun level_inputs :: "string list \<Rightarrow> string list" where
  "level_inputs (a # b # hs) = (a @ b) # level_inputs hs"
| "level_inputs [a] = [a @ a]"
| "level_inputs [] = []"

function root_inputs :: "(string \<Rightarrow> string) \<Rightarrow> string list \<Rightarrow> string list" where
  "root_inputs H [] = []"
| "root_inputs H [h] = []"
| "root_inputs H (a # b # hs) =
     level_inputs (a # b # hs) @ root_inputs H (combineLevel H (a # b # hs))"
  by pat_completeness auto
termination by (relation "measure (\<lambda>(H, hs). length hs)") auto

lemma combineLevel_map: "combineLevel H hs = map H (level_inputs hs)"
  by (induction hs rule: level_inputs.induct) (auto simp: CalculateString_def)

lemma level_inputs_inject:
  "length hs = length hs' \<Longrightarrow> list_all (\<lambda>h. length h = w) hs \<Longrightarrow> list_all (\<lambda>h. length h = w) hs' \<Longrightarrow>
   level_inputs hs = level_inputs hs' \<Longrightarrow> hs = hs'"
proof (induction hs arbitrary: hs' rule: level_inputs.induct)
  case (1 a b hs)
  then obtain a' b' ks where hs': "hs' = a' # b' # ks" by (cases hs' rule: level_inputs.cases) auto
  with 1 show ?case by auto
next
  case (2 a)
  then obtain a' where "hs' = [a']" by (cases hs' rule: level_inputs.cases) auto
  with 2 show ?case by auto
qed simp

context fixed_width
begin

lemma length_combineLevel_elems: "list_all (\<lambda>h. length h = w) (combineLevel H hs)"
  by (simp add: combineLevel_map list_all_iff length_H)

lemma root_binds:
  assumes "length hs = length hs'"
    and "list_all (\<lambda>h. length h = w) hs" "list_all (\<lambda>h. length h = w) hs'"
    and "inj_on H (set (root_inputs H hs) \<union> set (root_inputs H hs'))"
    and "calculateRoot H hs = calculateRoot H hs'"
  shows "hs = hs'"
  using assms
proof (induction "length hs" arbitrary: hs hs' rule: less_induct)
  case less
  show ?case
  proof (cases hs rule: level_inputs.cases)
    case (1 a b ks)
    then obtain a' b' ks' where hs': "hs' = a' # b' # ks'"
      using less.prems(1) by (cases hs' rule: level_inputs.cases) auto
    have "combineLevel H hs = combineLevel H hs'"
    proof (rule less.hyps)
      show "length (combineLevel H hs) < length hs" using 1 by simp
      show "length (combineLevel H hs) = length (combineLevel H hs')" using less.prems(1) by simp
      show "inj_on H (set (root_inputs H (combineLevel H hs)) \<union> set (root_inputs H (combineLevel H hs')))"
        using less.prems(4) unfolding 1 hs' by (rule inj_on_subset) auto
      show "calculateRoot H (combineLevel H hs) = calculateRoot H (combineLevel H hs')"
        using less.prems(5) by (simp add: 1 hs')
    qed (rule length_combineLevel_elems)+
    moreover have "inj_on H (set (level_inputs hs) \<union> set (level_inputs hs'))"
      using less.prems(4) unfolding 1 hs' by (rule inj_on_subset) auto
    ultimately have "level_inputs hs = level_inputs hs'"
      by (simp add: combineLevel_map inj_on_map_eq_map)
    then show ?thesis using level_inputs_inject less.prems(1-3) by blast
  next
    case (2 a)
    then obtain a' where "hs' = [a']"
      using less.prems(1) by (cases hs' rule: level_inputs.cases) auto
    with 2 less.prems(5) show ?thesis by simp
  next
    case 3
    with less.prems(1) show ?thesis by simp
  qed
qed

text \<open>
  Two leaf lists of the same size with the same root are equal as multisets, unless the
  hash function collides on something it was given.
\<close>

lemma GetRoot_binds:
  assumes "length ls = length ls'"
    and "list_all (\<lambda>h. length h = w) ls" "list_all (\<lambda>h. length h = w) ls'"
    and "inj_on H (set (root_inputs H (sort ls)) \<union> set (root_inputs H (sort ls')))"
    and "MerkleTree_GetRoot H \<lparr>mt_leaves = ls\<rparr> = MerkleTree_GetRoot H \<lparr>mt_leaves = ls'\<rparr>"
  shows "mset ls = mset ls'"
proof (cases "ls = []")
  case True
  with assms(1) show ?thesis by simp
next
  case False
  with assms(1) have "ls' \<noteq> []" by auto
  with False assms have "sort ls = sort ls'"
    by (intro root_binds) (simp_all add: MerkleTree_GetRoot_def list_all_iff)
  then show ?thesis by (metis mset_sort)
qed

end

section \<open>Proofs\<close>

text \<open>
  buildProof returns whether the target was found and appends to the proof on the way back;
  here the result is \<^const>\<open>None\<close> for false and the two lists otherwise. (The index range the
  source passes along is never read.)
\<close>

fun buildProof :: "MerkleNode \<Rightarrow> string \<Rightarrow> (string list \<times> bool list) option" where
  "buildProof (Leaf h) targetHash = (if h = targetHash then Some ([], []) else None)"
| "buildProof (Pair h l r) targetHash =
     (case buildProof l targetHash of
        Some (ss, ds) \<Rightarrow> Some (ss @ [node_Hash r], ds @ [True])
      | None \<Rightarrow>
          (case buildProof r targetHash of
             Some (ss, ds) \<Rightarrow> Some (ss @ [node_Hash l], ds @ [False])
           | None \<Rightarrow> None))"
| "buildProof (Twin h c) targetHash =
     (case buildProof c targetHash of
        Some (ss, ds) \<Rightarrow> Some (ss @ [node_Hash c], ds @ [True])
      | None \<Rightarrow> None)"

text \<open>The linear search for the leaf, from index \<open>i\<close>; -1 if it is absent.\<close>

fun leaf_index :: "string \<Rightarrow> string list \<Rightarrow> int \<Rightarrow> int" where
  "leaf_index h [] i = - 1"
| "leaf_index h (l # ls) i = (if l = h then i else leaf_index h ls (i + 1))"

definition Builder_GetProof :: "string \<Rightarrow> MerkleTreeBuilder \<Rightarrow> MerkleProof result" where
  "Builder_GetProof recordID mtb =
     (case map_of (leafDataMap mtb) recordID of
        None \<Rightarrow> Inl (Errorf (''record not found in tree: '' @ recordID))
      | Some leafHash \<Rightarrow>
          (case root mtb of
             None \<Rightarrow> Inl (Errorf ''tree not built'')
           | Some r \<Rightarrow>
               (let leafIndex = leaf_index leafHash (sort (leaves mtb)) 0 in
                if leafIndex = - 1 then Inl (Errorf ''leaf hash not found in sorted leaves'')
                else (case buildProof r leafHash of
                        Some (ss, ds) \<Rightarrow>
                          Inr \<lparr>LeafHash = leafHash, LeafIndex = leafIndex, Siblings = ss, Directions = ds\<rparr>
                      | None \<Rightarrow>
                          Inr \<lparr>LeafHash = leafHash, LeafIndex = leafIndex, Siblings = [], Directions = []\<rparr>))))"

text \<open>The loop of Verify; \<^const>\<open>None\<close> is the panic of an index outside Directions.\<close>

fun verify_loop :: "(string \<Rightarrow> string) \<Rightarrow> string \<Rightarrow> string list \<Rightarrow> bool list \<Rightarrow> string option" where
  "verify_loop H currentHash [] ds = Some currentHash"
| "verify_loop H currentHash (s # ss) [] = None"
| "verify_loop H currentHash (s # ss) (d # ds) =
     verify_loop H (H (if d then currentHash @ s else s @ currentHash)) ss ds"

definition MerkleProof_Verify :: "(string \<Rightarrow> string) \<Rightarrow> string \<Rightarrow> MerkleProof \<Rightarrow> bool option" where
  "MerkleProof_Verify H expectedRoot mp =
     map_option (\<lambda>h. h = expectedRoot) (verify_loop H (LeafHash mp) (Siblings mp) (Directions mp))"

text \<open>
  The invariant of a builder: every record's hash is among the leaves; and, once it is
  built, the tree is well formed and holds the sorted leaves.
\<close>

definition builder_inv :: "MerkleTreeBuilder \<Rightarrow> bool" where
  "builder_inv mtb \<longleftrightarrow> gomap_ok (leafDataMap mtb) \<and> gomap_ok (hashToID mtb)
     \<and> snd ` set (leafDataMap mtb) \<subseteq> set (leaves mtb)
     \<and> fst ` set (hashToID mtb) = set (leaves mtb)"

definition builder_built :: "(string \<Rightarrow> string) \<Rightarrow> MerkleTreeBuilder \<Rightarrow> bool" where
  "builder_built H mtb \<longleftrightarrow>
     (\<exists>r. root mtb = Some r \<and> wf_node H r \<and> leaves_of r = sort (leaves mtb)
        \<and> node_Hash r = calculateRoot H (sort (leaves mtb)))"

lemma AddLeaf_AddLeafHash: "Builder_AddLeaf H rid data = Builder_AddLeafHash rid (CalculateDataHash H data)"
  by (rule ext) (simp add: Builder_AddLeaf_def Builder_AddLeafHash_def Let_def)

lemma snd_set_update: "snd ` set (AList.update k v m) \<subseteq> insert v (snd ` set m)"
  by (induction m) auto

lemma builder_inv_New: "builder_inv NewMerkleTreeBuilder"
  by (simp add: builder_inv_def NewMerkleTreeBuilder_def)

lemma builder_inv_AddLeafHash: "builder_inv mtb \<Longrightarrow> builder_inv (Builder_AddLeafHash rid h mtb)"
  using snd_set_update [of rid h "leafDataMap mtb"]
  by (auto simp: builder_inv_def Builder_AddLeafHash_def distinct_update dom_update)

lemma builder_inv_AddLeaf: "builder_inv mtb \<Longrightarrow> builder_inv (Builder_AddLeaf H rid data mtb)"
  by (simp add: AddLeaf_AddLeafHash builder_inv_AddLeafHash)

lemma Builder_Build_inv:
  assumes "builder_inv mtb" "Builder_Build H mtb = Some (Inr mtb')"
  shows "builder_inv mtb' \<and> builder_built H mtb' \<and> leaves mtb' = leaves mtb
    \<and> leafDataMap mtb' = leafDataMap mtb"
proof -
  have "leaves mtb \<noteq> []" using assms(2) by (auto simp: Builder_Build_def)
  from Builder_Build_correct [OF this, of H] obtain r where
    "mtb' = mtb\<lparr>root := Some r\<rparr>" "wf_node H r" "leaves_of r = sort (leaves mtb)"
    "node_Hash r = calculateRoot H (sort (leaves mtb))"
    using assms(2) by auto
  with assms(1) show ?thesis by (simp add: builder_inv_def builder_built_def)
qed

lemma buildProof_iff: "(\<exists>p. buildProof n t = Some p) \<longleftrightarrow> t \<in> set (leaves_of n)"
  by (induction n) (auto split: option.splits)

lemma buildProof_length: "buildProof n t = Some (ss, ds) \<Longrightarrow> length ss = length ds"
  by (induction n arbitrary: ss ds) (auto split: option.splits if_splits)

lemma verify_loop_snoc:
  "length ss = length ds \<Longrightarrow> verify_loop H c ss ds = Some h \<Longrightarrow>
   verify_loop H c (ss @ [s]) (ds @ [d]) = Some (H (if d then h @ s else s @ h))"
  by (induction H c ss ds rule: verify_loop.induct) auto

lemma buildProof_verifies:
  "wf_node H n \<Longrightarrow> buildProof n t = Some (ss, ds) \<Longrightarrow> verify_loop H t ss ds = Some (node_Hash n)"
proof (induction n arbitrary: ss ds)
  case (Pair h l r)
  show ?case
  proof (cases "buildProof l t")
    case None
    with Pair.prems obtain ss' ds' where "buildProof r t = Some (ss', ds')"
      and "ss = ss' @ [node_Hash l]" "ds = ds' @ [False]"
      by (auto split: option.splits)
    with Pair show ?thesis by (simp add: verify_loop_snoc buildProof_length)
  next
    case (Some p)
    with Pair.prems obtain ss' ds' where "buildProof l t = Some (ss', ds')"
      and "ss = ss' @ [node_Hash r]" "ds = ds' @ [True]"
      by (cases p) auto
    with Pair show ?thesis by (simp add: verify_loop_snoc buildProof_length)
  qed
next
  case (Twin h c)
  then obtain ss' ds' where "buildProof c t = Some (ss', ds')"
    and "ss = ss' @ [node_Hash c]" "ds = ds' @ [True]"
    by (auto split: option.splits)
  with Twin show ?case by (simp add: verify_loop_snoc buildProof_length)
qed (auto split: if_splits)

lemma leaf_index_nth:
  "h \<in> set ls \<Longrightarrow> \<exists>j < length ls. leaf_index h ls i = i + int j \<and> ls ! j = h"
proof (induction ls arbitrary: i)
  case (Cons l ls)
  show ?case
  proof (cases "l = h")
    case True
    then show ?thesis by (intro exI [of _ 0]) simp
  next
    case False
    with Cons obtain j where "j < length ls" "leaf_index h ls (i + 1) = i + 1 + int j" "ls ! j = h"
      by (metis set_ConsD)
    with False show ?thesis by (intro exI [of _ "Suc j"]) auto
  qed
qed simp

lemma GetProof_verifies:
  assumes "builder_inv mtb" "builder_built H mtb" "map_of (leafDataMap mtb) rid = Some h"
  shows "\<exists>p. Builder_GetProof rid mtb = Inr p \<and> LeafHash p = h
    \<and> MerkleProof_Verify H (Builder_GetRoot mtb) p = Some True"
proof -
  from assms(2) obtain r where r: "root mtb = Some r" "wf_node H r" "leaves_of r = sort (leaves mtb)"
    by (auto simp: builder_built_def)
  have "(rid, h) \<in> set (leafDataMap mtb)" using assms(3) by (rule map_of_SomeD)
  with assms(1) have "h \<in> set (leaves mtb)" by (force simp: builder_inv_def)
  then have mem: "h \<in> set (sort (leaves mtb))" by simp
  then obtain ss ds where bp: "buildProof r h = Some (ss, ds)"
    using buildProof_iff [of r h] r(3) by auto
  have "leaf_index h (sort (leaves mtb)) 0 \<noteq> - 1" using leaf_index_nth [OF mem, of 0] by auto
  with assms(3) r bp buildProof_verifies [OF r(2) bp] show ?thesis
    by (simp add: Builder_GetProof_def MerkleProof_Verify_def Builder_GetRoot_def Let_def)
qed

text \<open>
  All leaves of a built tree are at the same distance from its root, and a proof of that
  length verifies only for a leaf of the tree, unless the hash function collides on
  something it was given. (A proof that is too short may start from an inner node.)
\<close>

fun height :: "MerkleNode \<Rightarrow> nat" where
  "height (Leaf h) = 0"
| "height (Pair h l r) = Suc (height l)"
| "height (Twin h c) = Suc (height c)"

fun perfect :: "MerkleNode \<Rightarrow> bool" where
  "perfect (Leaf h) = True"
| "perfect (Pair h l r) = (perfect l \<and> perfect r \<and> height l = height r)"
| "perfect (Twin h c) = perfect c"

fun node_inputs :: "MerkleNode \<Rightarrow> string list" where
  "node_inputs (Leaf h) = []"
| "node_inputs (Pair h l r) = (node_Hash l @ node_Hash r) # node_inputs l @ node_inputs r"
| "node_inputs (Twin h c) = (node_Hash c @ node_Hash c) # node_inputs c"

fun verify_inputs :: "(string \<Rightarrow> string) \<Rightarrow> string \<Rightarrow> string list \<Rightarrow> bool list \<Rightarrow> string list" where
  "verify_inputs H c (s # ss) (d # ds) =
     (if d then c @ s else s @ c) # verify_inputs H (H (if d then c @ s else s @ c)) ss ds"
| "verify_inputs H c _ _ = []"

lemma buildLevel_perfect:
  "list_all (\<lambda>n. perfect n \<and> height n = k) nodes \<Longrightarrow>
   list_all (\<lambda>n. perfect n \<and> height n = Suc k) (buildLevel H nodes)"
  by (induction H nodes rule: buildLevel.induct) auto

lemma buildTree_perfect:
  "nodes \<noteq> [] \<Longrightarrow> list_all (\<lambda>n. perfect n \<and> height n = k) nodes \<Longrightarrow>
   \<exists>r. buildTree H nodes = Some r \<and> perfect r"
proof (induction "length nodes" arbitrary: nodes k rule: less_induct)
  case less
  consider (one) n where "nodes = [n]" | (more) a b ns where "nodes = a # b # ns"
    using less.prems(1) by (metis neq_Nil_conv)
  then show ?case
  proof cases
    case one
    with less.prems show ?thesis by (simp add: buildTree_unfold)
  next
    case more
    have "\<exists>r. buildTree H (buildLevel H nodes) = Some r \<and> perfect r"
      by (rule less.hyps [OF _ _ buildLevel_perfect [OF less.prems(2)]]) (simp_all add: more)
    then show ?thesis by (simp add: more buildTree_unfold)
  qed
qed

lemma verify_loop_total: "length ss = length ds \<Longrightarrow> \<exists>h. verify_loop H c ss ds = Some h"
  by (induction H c ss ds rule: verify_loop.induct) auto

lemma verify_inputs_snoc:
  "length ss = length ds \<Longrightarrow> verify_loop H c ss ds = Some h \<Longrightarrow>
   verify_inputs H c (ss @ [s]) (ds @ [d]) = verify_inputs H c ss ds @ [if d then h @ s else s @ h]"
  by (induction H c ss ds rule: verify_loop.induct) auto

context fixed_width
begin

lemma length_node_Hash: "wf_node H n \<Longrightarrow> list_all (\<lambda>h. length h = w) (leaves_of n) \<Longrightarrow> length (node_Hash n) = w"
  by (cases n) (auto simp: length_H)

lemma length_verify_loop: "verify_loop H c ss ds = Some h \<Longrightarrow> length c = w \<Longrightarrow> length h = w"
proof (induction ss arbitrary: c ds)
  case (Cons s ss)
  then show ?case by (cases ds) (auto simp: length_H)
qed simp

lemma verify_sound:
  assumes "wf_node H n" "perfect n" "length ss = height n" "length ds = height n"
    and "length c = w" "list_all (\<lambda>h. length h = w) ss" "list_all (\<lambda>h. length h = w) (leaves_of n)"
    and "inj_on H (set (verify_inputs H c ss ds) \<union> set (node_inputs n))"
    and "verify_loop H c ss ds = Some (node_Hash n)"
  shows "c \<in> set (leaves_of n)"
  using assms
proof (induction n arbitrary: ss ds)
  case (Leaf h)
  then show ?case by simp
next
  case (Pair h l r)
  obtain ss' s ds' d where sd: "ss = ss' @ [s]" "ds = ds' @ [d]" "length ss' = height l" "length ds' = height l"
    using Pair.prems(3,4) by (cases ss rule: rev_cases; cases ds rule: rev_cases) auto
  then obtain x where x: "verify_loop H c ss' ds' = Some x" using verify_loop_total [of ss' ds'] by auto
  have len: "length x = w" "length s = w" "length (node_Hash l) = w" "length (node_Hash r) = w"
    using length_verify_loop [OF x] length_node_Hash [of l] length_node_Hash [of r] Pair.prems sd by auto
  note vi = verify_inputs_snoc [of ss' ds' H c x s d]
  have "H (if d then x @ s else s @ x) = H (node_Hash l @ node_Hash r)"
    using Pair.prems(1,9) sd x verify_loop_snoc [of ss' ds' H c x s d] by simp
  then have "(if d then x @ s else s @ x) = node_Hash l @ node_Hash r"
    by (rule inj_onD [OF Pair.prems(8)]) (use vi sd x in simp_all)
  then have side: "x = node_Hash l \<or> x = node_Hash r" using len by (auto split: if_splits)
  have inj: "inj_on H (set (verify_inputs H c ss' ds') \<union> set (node_inputs l))"
    "inj_on H (set (verify_inputs H c ss' ds') \<union> set (node_inputs r))"
    using Pair.prems(8) vi sd x by (auto intro: inj_on_subset)
  from side show ?case
  proof
    assume "x = node_Hash l"
    then have "c \<in> set (leaves_of l)" using Pair.prems sd x inj by (intro Pair.IH(1) [of ss' ds']) auto
    then show ?thesis by simp
  next
    assume "x = node_Hash r"
    then have "c \<in> set (leaves_of r)" using Pair.prems sd x inj by (intro Pair.IH(2) [of ss' ds']) auto
    then show ?thesis by simp
  qed
next
  case (Twin h n)
  obtain ss' s ds' d where sd: "ss = ss' @ [s]" "ds = ds' @ [d]" "length ss' = height n" "length ds' = height n"
    using Twin.prems(3,4) by (cases ss rule: rev_cases; cases ds rule: rev_cases) auto
  then obtain x where x: "verify_loop H c ss' ds' = Some x" using verify_loop_total [of ss' ds'] by auto
  have len: "length x = w" "length s = w" "length (node_Hash n) = w"
    using length_verify_loop [OF x] length_node_Hash [of n] Twin.prems sd by auto
  note vi = verify_inputs_snoc [of ss' ds' H c x s d]
  have "H (if d then x @ s else s @ x) = H (node_Hash n @ node_Hash n)"
    using Twin.prems(1,9) sd x verify_loop_snoc [of ss' ds' H c x s d] by simp
  then have "(if d then x @ s else s @ x) = node_Hash n @ node_Hash n"
    by (rule inj_onD [OF Twin.prems(8)]) (use vi sd x in simp_all)
  then have "x = node_Hash n" using len by (auto split: if_splits)
  moreover have "inj_on H (set (verify_inputs H c ss' ds') \<union> set (node_inputs n))"
    using Twin.prems(8) vi sd x by (auto intro: inj_on_subset)
  ultimately show ?case using Twin.prems sd x by (simp add: Twin.IH [of ss' ds'])
qed

end

section \<open>FindTamperedLeaves\<close>

fun findTamperedLeavesRecursive :: "MerkleNode \<Rightarrow> int \<Rightarrow> int \<Rightarrow> int list \<Rightarrow> int list" where
  "findTamperedLeavesRecursive (Leaf h) start stop tampered = tampered @ [start]"
| "findTamperedLeavesRecursive (Pair h l r) start stop tampered =
     (let mid = (start + stop) div 2 in
      findTamperedLeavesRecursive r (mid + 1) stop (findTamperedLeavesRecursive l start mid tampered))"
| "findTamperedLeavesRecursive (Twin h c) start stop tampered =
     findTamperedLeavesRecursive c start ((start + stop) div 2) tampered"

definition FindTamperedLeaves :: "string \<Rightarrow> MerkleTreeBuilder \<Rightarrow> int list result" where
  "FindTamperedLeaves storedRoot mtb =
     (case root mtb of
        None \<Rightarrow> Inl (Errorf ''tree not built'')
      | Some r \<Rightarrow>
          if node_Hash r = storedRoot then Inr []
          else Inr (findTamperedLeavesRecursive r 0 (int (length (leaves mtb)) - 1) []))"

text \<open>The trees of a power of two of leaves: no level is odd, so nothing is paired with itself.\<close>

fun full :: "nat \<Rightarrow> MerkleNode \<Rightarrow> bool" where
  "full k (Leaf h) \<longleftrightarrow> k = 0"
| "full k (Pair h l r) \<longleftrightarrow> (\<exists>j. k = Suc j \<and> full j l \<and> full j r)"
| "full k (Twin h c) \<longleftrightarrow> False"

lemma buildLevel_full:
  "even (length nodes) \<Longrightarrow> list_all (full k) nodes \<Longrightarrow> list_all (full (Suc k)) (buildLevel H nodes)"
  by (induction H nodes rule: buildLevel.induct) auto

lemma buildTree_full:
  "length nodes = 2 ^ j \<Longrightarrow> list_all (full k) nodes \<Longrightarrow> \<exists>r. buildTree H nodes = Some r \<and> full (k + j) r"
proof (induction j arbitrary: nodes k)
  case 0
  then obtain n where "nodes = [n]" by (auto simp: length_Suc_conv)
  with 0 show ?case by (simp add: buildTree_unfold)
next
  case (Suc j)
  have "2 \<le> length nodes" using Suc.prems(1) by simp
  then obtain a b ns where nodes: "nodes = a # b # ns" by (metis Suc_le_length_iff numeral_2_eq_2)
  have "length (buildLevel H nodes) = 2 ^ j" using Suc.prems(1) by simp
  moreover have "list_all (full (Suc k)) (buildLevel H nodes)" by (rule buildLevel_full) (use Suc.prems in simp_all)
  ultimately have "\<exists>r. buildTree H (buildLevel H nodes) = Some r \<and> full (Suc k + j) r" by (rule Suc.IH)
  then show ?case by (simp add: nodes buildTree_unfold)
qed

lemma findTampered_full:
  "full k n \<Longrightarrow> findTamperedLeavesRecursive n a (a + 2 ^ k - 1) acc = acc @ map (\<lambda>i. a + int i) [0..<2 ^ k]"
proof (induction n arbitrary: k a acc)
  case (Pair h l r)
  then obtain j where j: "k = Suc j" "full j l" "full j r" by auto
  have mid: "(a * 2 + 2 * 2 ^ j - 1) div 2 = a + 2 ^ j - 1" by presburger
  have "findTamperedLeavesRecursive r (a + 2 ^ j) (a + 2 ^ j + 2 ^ j - 1) (acc @ map (\<lambda>i. a + int i) [0..<2 ^ j]) =
      acc @ map (\<lambda>i. a + int i) [0..<2 ^ j] @ map (\<lambda>i. a + int (i + 2 ^ j)) [0..<2 ^ j]"
    unfolding Pair.IH(2) [OF j(3)] by (simp add: algebra_simps)
  moreover have "map (\<lambda>i. a + int i) [0..<2 ^ j + 2 ^ j] =
      map (\<lambda>i. a + int i) [0..<2 ^ j] @ map (\<lambda>i. a + int (i + 2 ^ j)) [0..<2 ^ j]"
    using upt_add_eq_append [of 0 "2 ^ j" "2 ^ j"] by (simp flip: map_add_upt add: comp_def)
  ultimately have "findTamperedLeavesRecursive r (a + 2 ^ j) (a + 2 ^ j + 2 ^ j - 1)
      (findTamperedLeavesRecursive l a (a + 2 ^ j - 1) acc) = acc @ map (\<lambda>i. a + int i) [0..<2 ^ j + 2 ^ j]"
    unfolding Pair.IH(1) [OF j(2)] by (simp only: append_assoc)
  moreover have "findTamperedLeavesRecursive (Pair h l r) a (a + 2 ^ k - 1) acc =
      findTamperedLeavesRecursive r (a + 2 ^ j) (a + 2 ^ j + 2 ^ j - 1) (findTamperedLeavesRecursive l a (a + 2 ^ j - 1) acc)"
    by (simp add: Let_def j(1) mid algebra_simps)
  moreover have "(2 :: nat) ^ k = 2 ^ j + 2 ^ j" by (simp add: j(1))
  ultimately show ?case by (simp only:)
qed simp_all

text \<open>Five leaves: the last one is paired with itself on two levels.\<close>

lemma buildTree_five:
  "\<exists>h1 h2 h3 h4 h5 h6. buildTree H (map Leaf [a, b, c, d, e]) =
     Some (Pair h1 (Pair h2 (Pair h3 (Leaf a) (Leaf b)) (Pair h4 (Leaf c) (Leaf d))) (Twin h5 (Twin h6 (Leaf e))))"
  by (simp add: buildTree_unfold)

section \<open>Comparing leaf maps and trees\<close>

record DifferingRecord =
  diff_RecordID :: string
  diff_ExpectedHash :: string
  diff_ActualHash :: string
  diff_Type :: string

definition missing_in_actual :: "string \<Rightarrow> string \<Rightarrow> DifferingRecord" where
  "missing_in_actual recordID expectedHash =
     \<lparr>diff_RecordID = recordID, diff_ExpectedHash = expectedHash, diff_ActualHash = [],
      diff_Type = ''missing_in_actual''\<rparr>"

definition modified :: "string \<Rightarrow> string \<Rightarrow> string \<Rightarrow> DifferingRecord" where
  "modified recordID expectedHash actualHash =
     \<lparr>diff_RecordID = recordID, diff_ExpectedHash = expectedHash, diff_ActualHash = actualHash,
      diff_Type = ''modified''\<rparr>"

definition missing_in_expected :: "string \<Rightarrow> string \<Rightarrow> DifferingRecord" where
  "missing_in_expected recordID actualHash =
     \<lparr>diff_RecordID = recordID, diff_ExpectedHash = [], diff_ActualHash = actualHash,
      diff_Type = ''missing_in_expected''\<rparr>"

lemma diff_simps [simp]:
  "diff_RecordID (missing_in_actual k h) = k" "diff_RecordID (modified k h h') = k"
  "diff_RecordID (missing_in_expected k h') = k"
  "diff_Type (missing_in_actual k h) = ''missing_in_actual''" "diff_Type (modified k h h') = ''modified''"
  "diff_Type (missing_in_expected k h') = ''missing_in_expected''"
  "diff_ExpectedHash (modified k h h') = h" "diff_ActualHash (modified k h h') = h'"
  by (simp_all add: missing_in_actual_def modified_def missing_in_expected_def)

lemma diff_eq_simps [simp]:
  "missing_in_actual k h = missing_in_actual i g \<longleftrightarrow> k = i \<and> h = g"
  "modified k h h' = modified i g g' \<longleftrightarrow> k = i \<and> h = g \<and> h' = g'"
  "missing_in_expected k h = missing_in_expected i g \<longleftrightarrow> k = i \<and> h = g"
  "missing_in_actual k h \<noteq> modified i g g'" "modified i g g' \<noteq> missing_in_actual k h"
  "missing_in_actual k h \<noteq> missing_in_expected i g" "missing_in_expected i g \<noteq> missing_in_actual k h"
  "modified k h h' \<noteq> missing_in_expected i g" "missing_in_expected i g \<noteq> modified k h h'"
  by (simp_all add: missing_in_actual_def modified_def missing_in_expected_def)

text \<open>The loop over the expected map, and the one over the actual map.\<close>

fun compare_expected :: "(string, string) gomap \<Rightarrow> (string, string) gomap \<Rightarrow> DifferingRecord list" where
  "compare_expected [] actual = []"
| "compare_expected ((recordID, expectedHash) # expected) actual =
     (case map_of actual recordID of
        None \<Rightarrow> [missing_in_actual recordID expectedHash]
      | Some actualHash \<Rightarrow>
          if expectedHash \<noteq> actualHash then [modified recordID expectedHash actualHash] else [])
     @ compare_expected expected actual"

fun compare_actual :: "(string, string) gomap \<Rightarrow> (string, string) gomap \<Rightarrow> DifferingRecord list" where
  "compare_actual expected [] = []"
| "compare_actual expected ((recordID, actualHash) # actual) =
     (case map_of expected recordID of
        None \<Rightarrow> [missing_in_expected recordID actualHash]
      | Some _ \<Rightarrow> [])
     @ compare_actual expected actual"

definition CompareLeafMaps ::
    "(string, string) gomap \<Rightarrow> (string, string) gomap \<Rightarrow> DifferingRecord list" where
  "CompareLeafMaps expected actual = compare_expected expected actual @ compare_actual expected actual"

text \<open>A nil map is \<^const>\<open>None\<close>.\<close>

definition CompareLeafMapsWithNodes ::
    "(string, string) gomap \<Rightarrow> (string, string) gomap \<Rightarrow> (string, string) gomap option \<Rightarrow>
     (string, string) gomap option \<Rightarrow> DifferingRecord list" where
  "CompareLeafMapsWithNodes expected actual expectedNodes actualNodes =
     (case (expectedNodes, actualNodes) of
        (Some en, Some an) \<Rightarrow>
          (case (map_of en ''root'', map_of an ''root'') of
             (Some er, Some ar) \<Rightarrow> if er = ar then [] else CompareLeafMaps expected actual
           | _ \<Rightarrow> CompareLeafMaps expected actual)
      | _ \<Rightarrow> CompareLeafMaps expected actual)"

text \<open>The root comparison both tree comparisons start with; either tree may be nil.\<close>

definition same_root :: "MerkleTreeBuilder \<Rightarrow> MerkleTreeBuilder \<Rightarrow> bool" where
  "same_root expected actual \<longleftrightarrow>
     (case (root expected, root actual) of
        (Some e, Some a) \<Rightarrow> node_Hash e = node_Hash a
      | _ \<Rightarrow> False)"

definition CompareTreesDetailed ::
    "MerkleTreeBuilder option \<Rightarrow> MerkleTreeBuilder option \<Rightarrow> DifferingRecord list option" where
  "CompareTreesDetailed expected actual =
     (case (expected, actual) of
        (Some e, Some a) \<Rightarrow>
          if same_root e a then Some []
          else Some (compare_expected (leafDataMap e) (leafDataMap a)
                     @ compare_actual (leafDataMap e) (leafDataMap a))
      | _ \<Rightarrow> None)"

fun index_hashes :: "int \<Rightarrow> string list \<Rightarrow> (string, int) gomap \<Rightarrow> (string, int) gomap" where
  "index_hashes i [] m = m"
| "index_hashes i (h # hs) m = index_hashes (i + 1) hs (AList.update h i m)"

fun compare_ids_loop ::
    "(string, string) gomap \<Rightarrow> (string, string) gomap \<Rightarrow> (string, int) gomap \<Rightarrow> int list" where
  "compare_ids_loop [] actual idx = []"
| "compare_ids_loop ((recordID, expectedHash) # expected) actual idx =
     (case map_of actual recordID of
        None \<Rightarrow> []
      | Some actualHash \<Rightarrow>
          if expectedHash \<noteq> actualHash \<and> actualHash \<noteq> [] then
            (case map_of idx actualHash of Some i \<Rightarrow> [i] | None \<Rightarrow> [])
          else [])
     @ compare_ids_loop expected actual idx"

definition compareByRecordID :: "MerkleTreeBuilder \<Rightarrow> MerkleTreeBuilder \<Rightarrow> int list" where
  "compareByRecordID expected actual =
     compare_ids_loop (leafDataMap expected) (leafDataMap actual)
       (index_hashes 0 (GetSortedLeaves actual) [])"

definition CompareTrees :: "MerkleTreeBuilder option \<Rightarrow> MerkleTreeBuilder option \<Rightarrow> int list option" where
  "CompareTrees expected actual =
     (case (expected, actual) of
        (Some e, Some a) \<Rightarrow> if same_root e a then Some [] else Some (compareByRecordID e a)
      | _ \<Rightarrow> None)"

lemma compare_expected_set:
  "d \<in> set (compare_expected e a) \<longleftrightarrow>
     (\<exists>k h. (k, h) \<in> set e \<and> map_of a k = None \<and> d = missing_in_actual k h)
   \<or> (\<exists>k h h'. (k, h) \<in> set e \<and> map_of a k = Some h' \<and> h \<noteq> h' \<and> d = modified k h h')"
  by (induction e a rule: compare_expected.induct) (auto split: option.splits)

lemma compare_actual_set:
  "d \<in> set (compare_actual e a) \<longleftrightarrow>
     (\<exists>k h. (k, h) \<in> set a \<and> map_of e k = None \<and> d = missing_in_expected k h)"
  by (induction e a rule: compare_actual.induct) (auto split: option.splits)

lemma CompareLeafMaps_set:
  assumes "gomap_ok e" "gomap_ok a"
  shows "d \<in> set (CompareLeafMaps e a) \<longleftrightarrow>
     (\<exists>k h. map_of e k = Some h \<and> map_of a k = None \<and> d = missing_in_actual k h)
   \<or> (\<exists>k h h'. map_of e k = Some h \<and> map_of a k = Some h' \<and> h \<noteq> h' \<and> d = modified k h h')
   \<or> (\<exists>k h. map_of e k = None \<and> map_of a k = Some h \<and> d = missing_in_expected k h)"
  using assms by (auto simp: CompareLeafMaps_def compare_expected_set compare_actual_set)

lemma CompareLeafMaps_Nil_iff:
  assumes "gomap_ok e" "gomap_ok a"
  shows "CompareLeafMaps e a = [] \<longleftrightarrow> map_of e = map_of a"
proof
  assume nil: "CompareLeafMaps e a = []"
  show "map_of e = map_of a"
  proof
    fix k
    have no: "d \<notin> set (CompareLeafMaps e a)" for d using nil by simp
    note none = no [unfolded CompareLeafMaps_set [OF assms]]
    show "map_of e k = map_of a k"
    proof (cases "map_of e k")
      case None
      then show ?thesis
        using none [of "missing_in_expected k (the (map_of a k))"] by (cases "map_of a k") auto
    next
      case (Some h)
      then show ?thesis
        using none [of "missing_in_actual k h"] none [of "modified k h (the (map_of a k))"]
        by (cases "map_of a k") auto
    qed
  qed
next
  assume eq: "map_of e = map_of a"
  have "d \<notin> set (CompareLeafMaps e a)" for d
    unfolding CompareLeafMaps_set [OF assms] using eq by auto
  then show "CompareLeafMaps e a = []" by (metis list.set_intros(1) neq_Nil_conv)
qed

lemma compare_expected_ids: "set (map diff_RecordID (compare_expected e a)) \<subseteq> fst ` set e"
  by (induction e a rule: compare_expected.induct) (auto split: option.splits)

lemma compare_actual_ids: "set (map diff_RecordID (compare_actual e a)) \<subseteq> fst ` set a - fst ` set e"
proof (induction e a rule: compare_actual.induct)
  case (2 e k h a)
  then show ?case
    using weak_map_of_SomeI [of k _ e] by (auto split: option.splits)
qed simp

lemma CompareLeafMaps_distinct:
  assumes "gomap_ok e" "gomap_ok a"
  shows "distinct (map diff_RecordID (CompareLeafMaps e a))"
proof -
  have "distinct (map diff_RecordID (compare_expected e a))"
    using assms(1)
  proof (induction e a rule: compare_expected.induct)
    case (2 k h e a)
    then show ?case using compare_expected_ids [of e a] by (auto split: option.splits)
  qed simp
  moreover have "distinct (map diff_RecordID (compare_actual e a))"
    using assms(2)
  proof (induction e a rule: compare_actual.induct)
    case (2 e k h a)
    then show ?case using compare_actual_ids [of e a] by (auto split: option.splits)
  qed simp
  ultimately show ?thesis
    using compare_expected_ids [of e a] compare_actual_ids [of e a]
    by (auto simp: CompareLeafMaps_def)
qed

text \<open>The order in which the maps are visited permutes the report and changes nothing else.\<close>

lemma CompareLeafMaps_perm:
  assumes "gomap_ok e" "gomap_ok a" "mset e = mset e'" "mset a = mset a'"
  shows "mset (CompareLeafMaps e a) = mset (CompareLeafMaps e' a')"
proof -
  have ok: "gomap_ok e'" "gomap_ok a'" using assms gomap_perm_ok by blast+
  have maps: "map_of e = map_of e'" "map_of a = map_of a'"
    using assms gomap_perm_map_of by blast+
  have "set (CompareLeafMaps e a) = set (CompareLeafMaps e' a')"
    by (rule set_eqI) (simp only: CompareLeafMaps_set [OF assms(1,2)] CompareLeafMaps_set [OF ok] maps)
  moreover have "distinct (CompareLeafMaps e a)" "distinct (CompareLeafMaps e' a')"
    using CompareLeafMaps_distinct [OF assms(1,2)] CompareLeafMaps_distinct [OF ok]
    by (simp_all add: distinct_map)
  ultimately show ?thesis by (simp add: set_eq_iff_mset_eq_distinct)
qed

section \<open>Properties\<close>

text \<open>
  C34. Build always returns: with the error of the source on a builder without
  leaves, and otherwise with a tree whose root is the root that MerkleTree computes of the
  same leaves and which keeps the builder's invariant.
\<close>

theorem Build_total:
  "\<exists>r. Builder_Build H mtb = Some r \<and>
     (case r of
        Inl err \<Rightarrow> leaves mtb = [] \<and> err = Errorf ''no leaves to build tree''
      | Inr mtb' \<Rightarrow> leaves mtb \<noteq> [] \<and> leaves mtb' = leaves mtb \<and> leafDataMap mtb' = leafDataMap mtb
          \<and> builder_built H mtb' \<and> Builder_GetRoot mtb' = MerkleTree_GetRoot H \<lparr>mt_leaves = leaves mtb\<rparr>)"
proof (cases "leaves mtb = []")
  case True
  then show ?thesis by (simp add: Builder_Build_def)
next
  case False
  from Builder_Build_correct [OF this, of H] obtain r where r:
    "Builder_Build H mtb = Some (Inr (mtb\<lparr>root := Some r\<rparr>))" "wf_node H r"
    "leaves_of r = sort (leaves mtb)" "node_Hash r = calculateRoot H (sort (leaves mtb))"
    by blast
  with False show ?thesis
    by (simp add: builder_built_def Builder_GetRoot_def MerkleTree_GetRoot_def)
qed

text \<open>
  C3. The root and the number of leaves commit to the leaves: two builders
  with as many leaves, all of them hashes, have the same root exactly if their leaves are
  the same up to order, unless the hash function collides on something it was given.
\<close>

theorem root_commits:
  assumes "digest_sizes ds" "H = Hasher_Hash ds h"
    and "Builder_Build H b1 = Some (Inr b1')" "Builder_Build H b2 = Some (Inr b2')"
    and "GetLeafCount b1 = GetLeafCount b2"
    and "list_all (\<lambda>l. length l = hash_width h) (leaves b1 @ leaves b2)"
    and "inj_on H (set (root_inputs H (sort (leaves b1))) \<union> set (root_inputs H (sort (leaves b2))))"
  shows "Builder_GetRoot b1' = Builder_GetRoot b2' \<longleftrightarrow> mset (leaves b1) = mset (leaves b2)"
proof -
  have fw: "fixed_width H (hash_width h)" unfolding assms(2) by (rule fixed_width_Hasher [OF assms(1)])
  have ne: "leaves b1 \<noteq> []" "leaves b2 \<noteq> []" using assms(3,4) by (auto simp: Builder_Build_def)
  have roots: "Builder_GetRoot b1' = MerkleTree_GetRoot H \<lparr>mt_leaves = leaves b1\<rparr>"
    "Builder_GetRoot b2' = MerkleTree_GetRoot H \<lparr>mt_leaves = leaves b2\<rparr>"
    using Build_GetRoot [OF ne(1) assms(3)] Build_GetRoot [OF ne(2) assms(4)] by simp_all
  have len: "length (leaves b1) = length (leaves b2)" using assms(5) by (simp add: GetLeafCount_def)
  have w: "list_all (\<lambda>l. length l = hash_width h) (leaves b1)" "list_all (\<lambda>l. length l = hash_width h) (leaves b2)"
    using assms(6) by simp_all
  show ?thesis
    unfolding roots using fixed_width.GetRoot_binds [OF fw len w assms(7)] MerkleTree_GetRoot_perm by blast
qed

definition sample_leaf :: "char \<Rightarrow> string" where
  "sample_leaf c = replicate 64 c"

definition sample_builder :: "char list \<Rightarrow> MerkleTreeBuilder" where
  "sample_builder cs = foldl (\<lambda>b c. Builder_AddLeafHash [c] (sample_leaf c) b) NewMerkleTreeBuilder cs"

lemma length_2_pair: "length xs = 2 \<Longrightarrow> \<exists>x y. xs = [x, y]"
  by (auto simp: numeral_2_eq_2 length_Suc_conv)

lemma inj_on_pair_inputs: "inj_on H (set (root_inputs H [x, y]) \<union> set (root_inputs H [x, y]))"
  by simp

theorem root_commits_witness:
  "\<exists>b1 b2. Builder_Build (Hasher_Hash sample_digests sha256Hasher) (sample_builder ''ab'') = Some (Inr b1)
     \<and> Builder_Build (Hasher_Hash sample_digests sha256Hasher) (sample_builder ''ba'') = Some (Inr b2)
     \<and> Builder_GetRoot b1 = Builder_GetRoot b2"
proof -
  let ?H = "Hasher_Hash sample_digests sha256Hasher"
  have ls: "leaves (sample_builder ''ab'') = [sample_leaf (CHR ''a''), sample_leaf (CHR ''b'')]"
    "leaves (sample_builder ''ba'') = [sample_leaf (CHR ''b''), sample_leaf (CHR ''a'')]"
    by (simp_all add: sample_builder_def Builder_AddLeafHash_def NewMerkleTreeBuilder_def)
  obtain b1 b2 where b: "Builder_Build ?H (sample_builder ''ab'') = Some (Inr b1)"
    "Builder_Build ?H (sample_builder ''ba'') = Some (Inr b2)"
    using Builder_Build_correct [of "sample_builder ''ab''" ?H] Builder_Build_correct [of "sample_builder ''ba''" ?H] ls
    by auto
  have perm: "mset (leaves (sample_builder ''ab'')) = mset (leaves (sample_builder ''ba''))"
    by (simp only: ls mset.simps add_mset_commute)
  then have srt: "sort (leaves (sample_builder ''ab'')) = sort (leaves (sample_builder ''ba''))"
    by (rule sort_perm)
  obtain x y where xy: "sort (leaves (sample_builder ''ba'')) = [x, y]"
    using length_2_pair [of "sort (leaves (sample_builder ''ba''))"] by (simp add: ls length_sort del: sort_key_simps) blast
  have "Builder_GetRoot b1 = Builder_GetRoot b2"
  proof (rule root_commits [OF digest_sizes_sample refl b, THEN iffD2, OF _ _ _ perm])
    show "GetLeafCount (sample_builder ''ab'') = GetLeafCount (sample_builder ''ba'')"
      by (simp add: GetLeafCount_def ls)
    show "list_all (\<lambda>l. length l = hash_width sha256Hasher) (leaves (sample_builder ''ab'') @ leaves (sample_builder ''ba''))"
      by (simp add: ls sample_leaf_def)
    show "inj_on ?H (set (root_inputs ?H (sort (leaves (sample_builder ''ab''))))
        \<union> set (root_inputs ?H (sort (leaves (sample_builder ''ba'')))))"
      unfolding srt xy by (rule inj_on_pair_inputs)
  qed
  with b show ?thesis by blast
qed

text \<open>
  C5. For every record of a built tree GetProof returns a proof, of the
  record's hash and with its position among the sorted leaves, which Verify accepts against
  the root.
\<close>

theorem GetProof_complete:
  assumes "builder_inv mtb" "Builder_Build H mtb = Some (Inr mtb')" "map_of (leafDataMap mtb) rid = Some h"
  shows "\<exists>p. Builder_GetProof rid mtb' = Inr p \<and> LeafHash p = h
    \<and> 0 \<le> LeafIndex p \<and> LeafIndex p < int (GetLeafCount mtb') \<and> GetSortedLeaves mtb' ! nat (LeafIndex p) = h
    \<and> MerkleProof_Verify H (Builder_GetRoot mtb') p = Some True"
proof -
  note b = Builder_Build_inv [OF assms(1,2)]
  obtain p where p: "Builder_GetProof rid mtb' = Inr p" "LeafHash p = h"
    "MerkleProof_Verify H (Builder_GetRoot mtb') p = Some True"
    using GetProof_verifies [of mtb' H rid h] b assms(3) by auto
  have "(rid, h) \<in> set (leafDataMap mtb)" using assms(3) by (rule map_of_SomeD)
  with assms(1) have "h \<in> set (leaves mtb)" by (force simp: builder_inv_def)
  then obtain j where "j < length (sort (leaves mtb))" "leaf_index h (sort (leaves mtb)) 0 = int j"
    "sort (leaves mtb) ! j = h"
    using leaf_index_nth [of h "sort (leaves mtb)" 0] by auto
  moreover have "LeafIndex p = leaf_index h (sort (leaves mtb')) 0"
    using p(1) b assms(3)
    by (auto simp: Builder_GetProof_def Let_def split: option.splits if_splits prod.splits)
  ultimately show ?thesis using p b by (simp add: GetLeafCount_def GetSortedLeaves_def)
qed

lemma builder_inv_sample: "builder_inv (sample_builder cs)"
proof -
  have "builder_inv b \<Longrightarrow> builder_inv (foldl (\<lambda>b c. Builder_AddLeafHash [c] (sample_leaf c) b) b cs)" for b
    by (induction cs arbitrary: b) (simp_all add: builder_inv_AddLeafHash)
  then show ?thesis by (simp add: sample_builder_def builder_inv_New)
qed

theorem GetProof_complete_witness:
  "\<exists>b p. Builder_Build (Hasher_Hash sample_digests sha256Hasher) (sample_builder ''abc'') = Some (Inr b)
     \<and> Builder_GetProof ''b'' b = Inr p \<and> LeafHash p = sample_leaf (CHR ''b'')
     \<and> MerkleProof_Verify (Hasher_Hash sample_digests sha256Hasher) (Builder_GetRoot b) p = Some True"
proof -
  let ?H = "Hasher_Hash sample_digests sha256Hasher" and ?m = "sample_builder ''abc''"
  have "leaves ?m \<noteq> []" and m: "map_of (leafDataMap ?m) ''b'' = Some (sample_leaf (CHR ''b''))"
    by (simp_all add: sample_builder_def Builder_AddLeafHash_def NewMerkleTreeBuilder_def)
  then obtain b where b: "Builder_Build ?H ?m = Some (Inr b)" using Builder_Build_correct [of ?m ?H] by blast
  from GetProof_complete [OF builder_inv_sample b m] b show ?thesis by blast
qed

text \<open>
  C6. A proof with as many siblings and directions as the tree has levels
  that Verify accepts against the root is about a leaf of the tree, unless the hash function
  collides on something it was given. All hashes of the proof have the length of a hash.
\<close>

theorem Verify_sound:
  assumes "digest_sizes ds" "H = Hasher_Hash ds h" "Builder_Build H mtb = Some (Inr mtb')" "root mtb' = Some r"
    and "list_all (\<lambda>l. length l = hash_width h) (LeafHash p # Siblings p @ leaves mtb)"
    and "length (Siblings p) = height r" "length (Directions p) = height r"
    and "inj_on H (set (verify_inputs H (LeafHash p) (Siblings p) (Directions p)) \<union> set (node_inputs r))"
    and "MerkleProof_Verify H (Builder_GetRoot mtb') p = Some True"
  shows "LeafHash p \<in> set (leaves mtb)"
proof -
  have fw: "fixed_width H (hash_width h)" unfolding assms(2) by (rule fixed_width_Hasher [OF assms(1)])
  have ne: "leaves mtb \<noteq> []" using assms(3) by (auto simp: Builder_Build_def)
  then have r: "wf_node H r" "leaves_of r = sort (leaves mtb)" "buildTree H (map Leaf (sort (leaves mtb))) = Some r"
    using Builder_Build_correct [OF ne, of H] assms(3,4)
    by (auto simp: Builder_Build_def dest: arg_cong [of _ _ root])
  have "map Leaf (sort (leaves mtb)) \<noteq> []" using ne by (metis map_is_Nil_conv mset_sort mset_zero_iff)
  then have "perfect r"
    using buildTree_perfect [of "map Leaf (sort (leaves mtb))" 0 H] r(3) by (auto simp: list_all_iff)
  moreover have "verify_loop H (LeafHash p) (Siblings p) (Directions p) = Some (node_Hash r)"
    using assms(4,9) by (auto simp: MerkleProof_Verify_def Builder_GetRoot_def)
  ultimately have "LeafHash p \<in> set (leaves_of r)"
    using assms(5-8) r by (intro fixed_width.verify_sound [OF fw]) (simp_all add: list_all_iff)
  then show ?thesis by (simp add: r(2))
qed

text \<open>A tree of one leaf and the proof without siblings.\<close>

theorem Verify_sound_witness:
  "\<exists>b r. Builder_Build (Hasher_Hash sample_digests sha256Hasher) (sample_builder ''a'') = Some (Inr b) \<and> root b = Some r
     \<and> MerkleProof_Verify (Hasher_Hash sample_digests sha256Hasher) (Builder_GetRoot b)
         \<lparr>LeafHash = sample_leaf (CHR ''a''), LeafIndex = 0, Siblings = [], Directions = []\<rparr> = Some True
     \<and> sample_leaf (CHR ''a'') \<in> set (leaves (sample_builder ''a''))"
proof -
  let ?H = "Hasher_Hash sample_digests sha256Hasher" and ?m = "sample_builder ''a''"
  let ?p = "\<lparr>LeafHash = sample_leaf (CHR ''a''), LeafIndex = 0, Siblings = [], Directions = []\<rparr>"
  let ?b = "?m\<lparr>root := Some (Leaf (sample_leaf (CHR ''a'')))\<rparr>"
  have ls: "leaves ?m = [sample_leaf (CHR ''a'')]"
    by (simp add: sample_builder_def Builder_AddLeafHash_def NewMerkleTreeBuilder_def)
  have b: "Builder_Build ?H ?m = Some (Inr ?b)"
    by (simp add: Builder_Build_def ls buildTree_unfold)
  have v: "MerkleProof_Verify ?H (Builder_GetRoot ?b) ?p = Some True"
    by (simp add: MerkleProof_Verify_def Builder_GetRoot_def)
  have "LeafHash ?p \<in> set (leaves ?m)"
    by (rule Verify_sound [OF digest_sizes_sample refl b _ _ _ _ _ v, where r = "Leaf (sample_leaf (CHR ''a''))"])
      (simp_all add: ls sample_leaf_def)
  with b v show ?thesis by (intro exI [of _ ?b] exI [of _ "Leaf (sample_leaf (CHR ''a''))"]) simp
qed

text \<open>
  C4. CompareLeafMaps reports each record at most once, and exactly
  the differences: a record of one map that the other lacks, with the hash it has, and a
  record of both maps with two different hashes. It reports nothing exactly if the maps are
  equal.
\<close>

theorem CompareLeafMaps_exact:
  assumes "gomap_ok expected" "gomap_ok actual"
  shows "distinct (map diff_RecordID (CompareLeafMaps expected actual)) \<and>
    (CompareLeafMaps expected actual = [] \<longleftrightarrow> map_of expected = map_of actual) \<and>
    set (CompareLeafMaps expected actual) =
      {missing_in_actual k h | k h. map_of expected k = Some h \<and> map_of actual k = None}
      \<union> {modified k h h' | k h h'. map_of expected k = Some h \<and> map_of actual k = Some h' \<and> h \<noteq> h'}
      \<union> {missing_in_expected k h | k h. map_of expected k = None \<and> map_of actual k = Some h}"
  using CompareLeafMaps_distinct [OF assms] CompareLeafMaps_Nil_iff [OF assms] CompareLeafMaps_set [OF assms]
  by (intro conjI set_eqI) (blast | simp)+

theorem CompareLeafMaps_exact_witness:
  "set (CompareLeafMaps [(''1'', ''a''), (''2'', ''b'')] [(''2'', ''c''), (''3'', ''d'')]) =
     {missing_in_actual ''1'' ''a'', modified ''2'' ''b'' ''c'', missing_in_expected ''3'' ''d''}"
proof -
  let ?e = "[(''1'', ''a''), (''2'', ''b'')]" and ?a = "[(''2'', ''c''), (''3'', ''d'')]"
  have "set (CompareLeafMaps ?e ?a) =
      {missing_in_actual k h | k h. map_of ?e k = Some h \<and> map_of ?a k = None}
      \<union> {modified k h h' | k h h'. map_of ?e k = Some h \<and> map_of ?a k = Some h' \<and> h \<noteq> h'}
      \<union> {missing_in_expected k h | k h. map_of ?e k = None \<and> map_of ?a k = Some h}"
    using CompareLeafMaps_exact [of ?e ?a] by simp
  also have "\<dots> = {missing_in_actual ''1'' ''a'', modified ''2'' ''b'' ''c'', missing_in_expected ''3'' ''d''}"
    by (auto split: if_splits)
  finally show ?thesis .
qed

lemma combineLevel_double:
  "odd (length (ls @ [h])) \<Longrightarrow> combineLevel H (ls @ [h, h]) = combineLevel H (ls @ [h])"
  by (induction H ls rule: combineLevel.induct) auto

lemma calculateRoot_double:
  assumes "even (length ls)" "ls \<noteq> []"
  shows "calculateRoot H (ls @ [h, h]) = calculateRoot H (ls @ [h])"
proof -
  obtain a b ks where "ls = a # b # ks" using assms by (cases ls rule: level_inputs.cases) auto
  then show ?thesis using combineLevel_double [of ls h H] assms by simp
qed

lemma sort_snoc_max:
  assumes "\<And>x. x \<in> set ls \<Longrightarrow> x \<le> m"
  shows "sort (ls @ [m]) = sort ls @ [m]"
  by (rule properties_for_sort) (use assms in \<open>auto simp: sorted_append\<close>)

text \<open>
  C36. The root alone does not determine the leaves: for an odd number of
  at least three leaves, one more copy of the greatest leaf gives the same root, whatever the
  hash function is. (VerifyTable therefore compares the numbers of records too.)
\<close>

theorem root_duplicates:
  assumes "odd (length ls)" "1 < length ls" "m \<in> set ls" "\<forall>x \<in> set ls. x \<le> m"
  shows "MerkleTree_GetRoot H \<lparr>mt_leaves = ls @ [m]\<rparr> = MerkleTree_GetRoot H \<lparr>mt_leaves = ls\<rparr>"
proof -
  let ?rest = "remove1 m ls"
  have perm: "mset ls = mset (?rest @ [m])" using assms(3) by simp
  have srt: "sort ls = sort ?rest @ [m]"
  proof -
    have "sort ls = sort (?rest @ [m])" using perm by (rule sort_perm)
    also have "\<dots> = sort ?rest @ [m]"
      by (rule sort_snoc_max) (use assms(4) set_remove1_subset [of m ls] in blast)
    finally show ?thesis .
  qed
  have len: "length ls = Suc (length ?rest)" using assms(2,3) by (simp add: length_remove1)
  have srt2: "sort (ls @ [m]) = sort ?rest @ [m, m]"
    using sort_snoc_max [of ls m] assms(4) srt by simp
  have "even (length (sort ?rest))" using len assms(1) by simp
  moreover have "length (sort ?rest) \<noteq> 0" using len assms(2) by simp
  then have "sort ?rest \<noteq> []" by blast
  ultimately have "calculateRoot H (sort (ls @ [m])) = calculateRoot H (sort ls)"
    unfolding srt srt2 by (intro calculateRoot_double)
  moreover have "ls \<noteq> []" using assms(2) by auto
  ultimately show ?thesis by (simp add: MerkleTree_GetRoot_def)
qed

theorem root_duplicates_witness:
  "MerkleTree_GetRoot (Hasher_Hash sample_digests sha256Hasher) \<lparr>mt_leaves = [''a'', ''c'', ''b'', ''c'']\<rparr> =
   MerkleTree_GetRoot (Hasher_Hash sample_digests sha256Hasher) \<lparr>mt_leaves = [''a'', ''c'', ''b'']\<rparr>"
  using root_duplicates [of "[''a'', ''c'', ''b'']" "''c''" "Hasher_Hash sample_digests sha256Hasher"]
  by (simp add: less_char_def del: Hasher_Hash.simps)

text \<open>
  C37. FindTamperedLeaves does not locate tampering. It returns nothing
  for the root of the tree itself; for any other root, whatever has been changed, it returns
  the index of every leaf when their number is a power of two; and otherwise the indices it
  counts need not even be those of the leaves: for five leaves they are 0, 1, 2, 3 and 3.
\<close>

theorem FindTamperedLeaves_all:
  assumes "Builder_Build H mtb = Some (Inr mtb')"
  shows "FindTamperedLeaves (Builder_GetRoot mtb') mtb' = Inr []
    \<and> (storedRoot \<noteq> Builder_GetRoot mtb' \<and> length (leaves mtb) = 2 ^ k \<longrightarrow>
        FindTamperedLeaves storedRoot mtb' = Inr (map int [0..<2 ^ k]))
    \<and> (storedRoot \<noteq> Builder_GetRoot mtb' \<and> length (leaves mtb) = 5 \<longrightarrow>
        FindTamperedLeaves storedRoot mtb' = Inr [0, 1, 2, 3, 3])"
proof -
  have ne: "leaves mtb \<noteq> []" using assms by (auto simp: Builder_Build_def)
  obtain r where r: "buildTree H (map Leaf (sort (leaves mtb))) = Some r" "root mtb' = Some r" "leaves mtb' = leaves mtb"
    using assms ne by (auto simp: Builder_Build_def)
  have "FindTamperedLeaves storedRoot mtb' = Inr (map int [0..<2 ^ k])"
    if "storedRoot \<noteq> Builder_GetRoot mtb'" and k: "length (leaves mtb) = 2 ^ k"
  proof -
    have "\<exists>r. buildTree H (map Leaf (sort (leaves mtb))) = Some r \<and> full (0 + k) r"
      by (rule buildTree_full) (simp_all add: k list_all_iff)
    then have "full k r" using r(1) by simp
    from findTampered_full [OF this, of 0 "[]"] show ?thesis
      using that r by (simp add: FindTamperedLeaves_def Builder_GetRoot_def)
  qed
  moreover have "FindTamperedLeaves storedRoot mtb' = Inr [0, 1, 2, 3, 3]"
    if "storedRoot \<noteq> Builder_GetRoot mtb'" "length (leaves mtb) = 5"
  proof -
    have five: "\<exists>a b c d e. ls = [a, b, c, d, e]" if "length ls = 5" for ls :: "string list"
      using that by (auto simp: length_Suc_conv eval_nat_numeral)
    have "length (sort (leaves mtb)) = 5" using \<open>length (leaves mtb) = 5\<close> by simp
    from five [OF this] obtain a b c d e where "sort (leaves mtb) = [a, b, c, d, e]" by blast
    with r(1) buildTree_five [of H a b c d e] obtain h1 h2 h3 h4 h5 h6 where
      "r = Pair h1 (Pair h2 (Pair h3 (Leaf a) (Leaf b)) (Pair h4 (Leaf c) (Leaf d))) (Twin h5 (Twin h6 (Leaf e)))" by auto
    then show ?thesis using \<open>storedRoot \<noteq> Builder_GetRoot mtb'\<close> \<open>length (leaves mtb) = 5\<close> r(2,3)
      by (simp add: FindTamperedLeaves_def Builder_GetRoot_def Let_def)
  qed
  ultimately show ?thesis using r(2) by (simp add: FindTamperedLeaves_def Builder_GetRoot_def)
qed

theorem FindTamperedLeaves_all_witness:
  "\<exists>b b'. Builder_Build (Hasher_Hash sample_digests sha256Hasher) (sample_builder ''abcd'') = Some (Inr b)
     \<and> FindTamperedLeaves (Builder_GetRoot b @ ''0'') b = Inr [0, 1, 2, 3]
     \<and> Builder_Build (Hasher_Hash sample_digests sha256Hasher) (sample_builder ''abcde'') = Some (Inr b')
     \<and> FindTamperedLeaves (Builder_GetRoot b' @ ''0'') b' = Inr [0, 1, 2, 3, 3]"
proof -
  let ?H = "Hasher_Hash sample_digests sha256Hasher" and ?m = "sample_builder ''abcd''" and ?m' = "sample_builder ''abcde''"
  have ls: "leaves ?m \<noteq> []" "length (leaves ?m) = 2 ^ 2" "leaves ?m' \<noteq> []" "length (leaves ?m') = 5"
    by (simp_all add: sample_builder_def Builder_AddLeafHash_def NewMerkleTreeBuilder_def)
  obtain b b' where b: "Builder_Build ?H ?m = Some (Inr b)" "Builder_Build ?H ?m' = Some (Inr b')"
    using Builder_Build_correct [OF ls(1), of ?H] Builder_Build_correct [OF ls(3), of ?H] by blast
  have "FindTamperedLeaves (Builder_GetRoot b @ ''0'') b = Inr (map int [0..<2 ^ 2])"
    using FindTamperedLeaves_all [OF b(1), of "Builder_GetRoot b @ ''0''" 2] ls(2) by simp
  moreover have "FindTamperedLeaves (Builder_GetRoot b' @ ''0'') b' = Inr [0, 1, 2, 3, 3]"
    using FindTamperedLeaves_all [OF b(2), of "Builder_GetRoot b' @ ''0''" 2] ls(4) by simp
  ultimately show ?thesis using b by (auto simp: upt_rec)
qed

end
