(* ===== verification/Verifier.thy ===== *)
theory Verifier
  imports Merkle Handler
begin

text \<open>
  Package internal/verify, file merkle_verifier.go: MerkleVerifier, which compares a table in
  PostgreSQL with the recorded hash entries and stores checkpoints.

  PostgreSQL and pgx are the parameter \<open>pg\<close>: what connecting and querying return. VerifyTable
  reads the table twice, so it takes two of them. The Raft node is an optional interface
  value. A result \<^const>\<open>None\<close> would be a call that does not return.
\<close>

section \<open>State\<close>

text \<open>
  A query returns the rows that rows.Next() visits: each has the values of its columns, or
  the error of rows.Values().
\<close>

type_synonym pg_row = "(string \<times> goval) list result"

record pg =
  pg_Connect :: "string \<Rightarrow> unit result"
  pg_Query :: "string \<Rightarrow> pg_row list result"

text \<open>
  The interface RaftNode: whether the node leads in the state in which it is asked, and
  ApplyCheckpoint, which may change the state even when it returns an error. (Where the verifier
  works with Raft, its state is that of Raft and the store together.)
\<close>

record 'db RaftNode =
  rn_IsLeader :: "'db \<Rightarrow> bool"
  rn_ApplyCheckpoint :: "MerkleCheckpoint \<Rightarrow> 'db \<Rightarrow> unit result \<times> 'db"

record 'db MerkleVerifier =
  dbConnStr :: string
  mv_tables :: "TableConfig list"
  mv_raftNode :: "'db RaftNode option"
  mv_stopCh :: bool

text \<open>The channel stopCh is known by whether it has been closed.\<close>

definition NewMerkleVerifier :: "string \<Rightarrow> 'db MerkleVerifier" where
  "NewMerkleVerifier conn = \<lparr>dbConnStr = conn, mv_tables = [], mv_raftNode = None, mv_stopCh = False\<rparr>"

definition SetRaftNode :: "'db RaftNode \<Rightarrow> 'db MerkleVerifier \<Rightarrow> 'db MerkleVerifier" where
  "SetRaftNode node v = v\<lparr>mv_raftNode := Some node\<rparr>"

definition Verifier_AddTable :: "TableConfig \<Rightarrow> 'db MerkleVerifier \<Rightarrow> 'db MerkleVerifier result" where
  "Verifier_AddTable config v =
     (if \<not> validTableName (tc_Name config) then Inl (Errorf (''invalid table name: '' @ tc_Name config))
      else Inr (v\<lparr>mv_tables := mv_tables v @ [config]\<rparr>))"

definition quoteIdentifier :: "string \<Rightarrow> string" where
  "quoteIdentifier name = [CHR 0x22] @ name @ [CHR 0x22]"

definition select_all :: "string \<Rightarrow> string" where
  "select_all tableName = ''SELECT * FROM '' @ quoteIdentifier tableName @ '' ORDER BY id''"

section \<open>Reading the two sides\<close>

text \<open>The search for "id:" in the loop of extractIDFromRecordID: what follows its first occurrence.\<close>

fun find_id :: "string \<Rightarrow> string option" where
  "find_id [] = None"
| "find_id (c # cs) =
     (if length (c # cs) \<le> 3 then None
      else if take 3 (c # cs) = ''id:'' then Some (drop 3 (c # cs))
      else find_id cs)"

definition extractIDFromRecordID :: "string \<Rightarrow> string" where
  "extractIDFromRecordID recordID =
     (if 7 < length recordID \<and> take 4 recordID = ''map['' then
        (case find_id recordID of
           Some rest \<Rightarrow> takeWhile (\<lambda>c. c \<noteq> CHR '']'' \<and> c \<noteq> CHR '' '') rest
         | None \<Rightarrow> recordID)
      else recordID)"

definition bolt_leaf ::
    "(string, string) gomap \<times> (string, bool) gomap \<Rightarrow> HashEntry \<Rightarrow> (string, string) gomap \<times> (string, bool) gomap" where
  "bolt_leaf = (\<lambda>(leafMap, ids) entry.
     let id = extractIDFromRecordID (RecordID entry)
     in (AList.update id (DataHash entry) leafMap, AList.update id True ids))"

definition buildLeafMapFromBoltDB ::
    "'db bolt \<Rightarrow> string \<Rightarrow> 'db \<Rightarrow> ((string, string) gomap \<times> (string, bool) gomap) result" where
  "buildLeafMapFromBoltDB B tableName db =
     bind_res (GetAllHashEntries B tableName db) (\<lambda>entries. Inr (foldl bolt_leaf ([], []) entries))"

text \<open>The loop over the columns of a row: the record, and the text of its column "id".\<close>

definition row_record :: "(string \<times> goval) list \<Rightarrow> (string, goval) gomap \<times> string" where
  "row_record row =
     foldl (\<lambda>(recordData, idValue) (fieldName, val).
              (AList.update fieldName val recordData, if fieldName = ''id'' then fmt_v val else idValue))
       ([], []) row"

record leaf_acc =
  la_leafMap :: "(string, string) gomap"
  la_ids :: "(string, bool) gomap"
  la_builder :: MerkleTreeBuilder

fun pg_leaf_loop :: "(string \<Rightarrow> string) \<Rightarrow> pg_row list \<Rightarrow> leaf_acc \<Rightarrow> leaf_acc result" where
  "pg_leaf_loop H [] acc = Inr acc"
| "pg_leaf_loop H (Inl err # rows) acc = Inl (Wrapf ''failed to scan row'' err)"
| "pg_leaf_loop H (Inr row # rows) acc =
     (let (recordData, idValue) = row_record row;
          dataHash = CalculateDataHash H recordData
      in pg_leaf_loop H rows
           \<lparr>la_leafMap = AList.update idValue dataHash (la_leafMap acc),
            la_ids = AList.update idValue True (la_ids acc),
            la_builder = Builder_AddLeafHash (fmt_v_map recordData) dataHash (la_builder acc)\<rparr>)"

text \<open>Connecting and querying, as both readers of PostgreSQL do it.\<close>

definition query_table :: "'db MerkleVerifier \<Rightarrow> pg \<Rightarrow> string \<Rightarrow> pg_row list result" where
  "query_table v pg tableName =
     bind_res (wrap ''failed to connect to database'' (pg_Connect pg (dbConnStr v))) (\<lambda>_.
       wrap ''failed to query table'' (pg_Query pg (select_all tableName)))"

definition buildLeafMapFromPostgreSQL ::
    "(string \<Rightarrow> string) \<Rightarrow> 'db MerkleVerifier \<Rightarrow> pg \<Rightarrow> string \<Rightarrow>
     ((string, string) gomap \<times> (string, bool) gomap \<times> string) result option" where
  "buildLeafMapFromPostgreSQL H v pg tableName =
     (case bind_res (query_table v pg tableName)
             (\<lambda>rows. pg_leaf_loop H rows \<lparr>la_leafMap = [], la_ids = [], la_builder = NewMerkleTreeBuilder\<rparr>) of
        Inl err \<Rightarrow> Some (Inl err)
      | Inr acc \<Rightarrow>
          if 0 < length (la_leafMap acc) then
            map_option (\<lambda>built. case built of
                Inl err \<Rightarrow> Inl (Wrapf ''failed to build tree'' err)
              | Inr builder \<Rightarrow> Inr (la_leafMap acc, la_ids acc, Builder_GetRoot builder))
              (Builder_Build H (la_builder acc))
          else Some (Inr (la_leafMap acc, la_ids acc, [])))"

fun pg_root_loop ::
    "(string \<Rightarrow> string) \<Rightarrow> pg_row list \<Rightarrow> MerkleTreeBuilder \<Rightarrow> int \<Rightarrow> (MerkleTreeBuilder \<times> int) result" where
  "pg_root_loop H [] builder recordCount = Inr (builder, recordCount)"
| "pg_root_loop H (Inl err # rows) builder recordCount = Inl (Wrapf ''failed to scan row'' err)"
| "pg_root_loop H (Inr row # rows) builder recordCount =
     (let (recordData, recordID) = row_record row
      in pg_root_loop H rows (Builder_AddLeaf H recordID recordData builder) (recordCount + 1))"

definition calculateCurrentMerkleRootFromPG ::
    "(string \<Rightarrow> string) \<Rightarrow> 'db MerkleVerifier \<Rightarrow> pg \<Rightarrow> string \<Rightarrow>
     (string \<times> int \<times> MerkleTreeBuilder option) result option" where
  "calculateCurrentMerkleRootFromPG H v pg tableName =
     (case bind_res (query_table v pg tableName) (\<lambda>rows. pg_root_loop H rows NewMerkleTreeBuilder 0) of
        Inl err \<Rightarrow> Some (Inl err)
      | Inr (builder, recordCount) \<Rightarrow>
          if recordCount = 0 then Some (Inr ([], 0, None))
          else map_option (\<lambda>built. case built of
                   Inl err \<Rightarrow> Inl (Wrapf ''failed to build tree'' err)
                 | Inr builder \<Rightarrow> Inr (Builder_GetRoot builder, recordCount, Some builder))
                 (Builder_Build H builder))"

text \<open>The expected root: of the checkpoint and the entries after it, or of all entries.\<close>

definition checkpoint_leaves :: "MerkleCheckpoint \<Rightarrow> HashEntry list \<Rightarrow> (string, string) gomap" where
  "checkpoint_leaves checkpoint entries =
     foldl (\<lambda>leafMap entry.
              if cp_SequenceNum checkpoint < SequenceNum entry
              then AList.update (RecordID entry) (DataHash entry) leafMap else leafMap)
       (cp_LeafMap checkpoint) entries"

definition add_leaf_hashes :: "(string, string) gomap \<Rightarrow> MerkleTreeBuilder" where
  "add_leaf_hashes leafs = foldl (\<lambda>b (recordID, h). Builder_AddLeafHash recordID h b) NewMerkleTreeBuilder leafs"

definition calculateMerkleRootFromCheckpoint ::
    "'db bolt \<Rightarrow> (string \<Rightarrow> string) \<Rightarrow> string \<Rightarrow> MerkleCheckpoint \<Rightarrow> 'db \<Rightarrow> (string \<times> int) result option" where
  "calculateMerkleRootFromCheckpoint B H tableName checkpoint db =
     (case wrap ''failed to get hash entries'' (GetAllHashEntries B tableName db) of
        Inl err \<Rightarrow> Some (Inl err)
      | Inr entries \<Rightarrow>
          (let leafMap = checkpoint_leaves checkpoint entries in
           map_option (\<lambda>built. case built of
               Inl err \<Rightarrow> Inl (Wrapf ''failed to build Merkle Tree'' err)
             | Inr builder \<Rightarrow> Inr (Builder_GetRoot builder, int (length leafMap)))
             (Builder_Build H (add_leaf_hashes leafMap))))"

definition calculateMerkleRootFromBoltDB ::
    "'db bolt \<Rightarrow> (string \<Rightarrow> string) \<Rightarrow> string \<Rightarrow> 'db \<Rightarrow> (string \<times> int) result option" where
  "calculateMerkleRootFromBoltDB B H tableName db =
     (let full =
        (case wrap ''failed to get hash entries from BoltDB'' (GetAllHashEntries B tableName db) of
           Inl err \<Rightarrow> Some (Inl err)
         | Inr entries \<Rightarrow>
             if entries = [] then Some (Inr ([], 0))
             else map_option (\<lambda>built. case built of
                      Inl err \<Rightarrow> Inl (Wrapf ''failed to build Merkle Tree from BoltDB'' err)
                    | Inr builder \<Rightarrow> Inr (Builder_GetRoot builder, int (length entries)))
                    (Builder_Build H (add_leaf_hashes (map (\<lambda>e. (RecordID e, DataHash e)) entries))))
      in case GetLatestMerkleCheckpoint B tableName db of
           Inl _ \<Rightarrow> full
         | Inr checkpoint \<Rightarrow>
             if 0 < length (cp_LeafMap checkpoint)
             then calculateMerkleRootFromCheckpoint B H tableName checkpoint db
             else full)"

section \<open>Checkpoints\<close>

definition new_checkpoint ::
    "'db bolt \<Rightarrow> string \<Rightarrow> gotime \<Rightarrow> string \<Rightarrow> string \<Rightarrow> int \<Rightarrow> MerkleTreeBuilder option \<Rightarrow> 'db \<Rightarrow> MerkleCheckpoint" where
  "new_checkpoint B alg now tableName merkleRoot recordCount tree db =
     \<lparr>cp_TableName = tableName,
      cp_SequenceNum = (case GetLatestHashEntry B tableName db of Inl _ \<Rightarrow> 0 | Inr e \<Rightarrow> SequenceNum e),
      cp_MerkleRoot = merkleRoot, cp_Timestamp = now, cp_RecordCount = recordCount, cp_HashAlgorithm = alg,
      cp_LeafMap = (case tree of None \<Rightarrow> [] | Some b \<Rightarrow> GetLeafMap b),
      cp_InternalNodes = (case tree of None \<Rightarrow> [] | Some b \<Rightarrow> GetInternalNodes b)\<rparr>"

definition createCheckpointWithTree ::
    "'db bolt \<Rightarrow> string \<Rightarrow> gotime \<Rightarrow> 'db MerkleVerifier \<Rightarrow> string \<Rightarrow> string \<Rightarrow> int \<Rightarrow>
     MerkleTreeBuilder option \<Rightarrow> 'db \<Rightarrow> unit result \<times> 'db" where
  "createCheckpointWithTree B alg now v tableName merkleRoot recordCount tree db =
     (let checkpoint = new_checkpoint B alg now tableName merkleRoot recordCount tree db;
          local_save =
            (case wrap ''failed to save checkpoint'' (SaveMerkleCheckpoint B checkpoint db) of
               Inl err \<Rightarrow> (Inl err, db) | Inr db' \<Rightarrow> (Inr (), db'))
      in case mv_raftNode v of
           None \<Rightarrow> local_save
         | Some node \<Rightarrow>
             if rn_IsLeader node db then
               (let (r, db') = rn_ApplyCheckpoint node checkpoint db
                in (wrap ''failed to replicate checkpoint via Raft'' r, db'))
             else local_save)"

definition createCheckpoint ::
    "'db bolt \<Rightarrow> string \<Rightarrow> gotime \<Rightarrow> 'db MerkleVerifier \<Rightarrow> string \<Rightarrow> string \<Rightarrow> int \<Rightarrow> 'db \<Rightarrow> unit result \<times> 'db" where
  "createCheckpoint B alg now v tableName merkleRoot recordCount db =
     createCheckpointWithTree B alg now v tableName merkleRoot recordCount None db"

section \<open>Verification\<close>

text \<open>A Go map of bool: an absent key reads as false.\<close>

definition id_set :: "(string, bool) gomap \<Rightarrow> string \<Rightarrow> bool" where
  "id_set ids rid = (case map_of ids rid of None \<Rightarrow> False | Some b \<Rightarrow> b)"

definition phantom_msg :: "string \<Rightarrow> string" where
  "phantom_msg rid = ''found extra record in DB not in hash chain (Phantom Insert): id='' @ rid"

definition deleted_msg :: "string \<Rightarrow> string" where
  "deleted_msg rid = ''record deleted: id='' @ rid"

definition modified_msg :: "DifferingRecord \<Rightarrow> string" where
  "modified_msg diff =
     (let hashLen = min 16 (min (length (diff_ExpectedHash diff)) (length (diff_ActualHash diff)))
      in ''data modified: id='' @ diff_RecordID diff @ '', expected hash='' @ take hashLen (diff_ExpectedHash diff)
         @ ''..., actual hash='' @ take hashLen (diff_ActualHash diff) @ ''...'')"

text \<open>The list tamperedRecords of performDetailedVerification.\<close>

definition tamperedRecords ::
    "(string, string) gomap \<Rightarrow> (string, bool) gomap \<Rightarrow> (string, string) gomap \<Rightarrow> (string, bool) gomap \<Rightarrow> string list" where
  "tamperedRecords expectedLeafMap boltdbIDs actualLeafMap pgIDs =
     (let phantomInserts = filter (\<lambda>id. \<not> id_set boltdbIDs id) (map fst pgIDs);
          deletedRecords = filter (\<lambda>id. \<not> id_set pgIDs id) (map fst boltdbIDs);
          adjustedActualMap = filter (\<lambda>(id, h). id \<notin> set phantomInserts) actualLeafMap;
          adjustedExpectedMap = filter (\<lambda>(id, h). id \<notin> set deletedRecords) expectedLeafMap;
          differingRecords = CompareLeafMaps adjustedExpectedMap adjustedActualMap
      in map phantom_msg phantomInserts @ map deleted_msg deletedRecords
         @ map modified_msg (filter (\<lambda>diff. diff_RecordID diff \<notin> set phantomInserts
              \<and> diff_RecordID diff \<notin> set deletedRecords \<and> diff_Type diff = ''modified'') differingRecords))"

definition siren :: string where
  "siren = [CHR 0xF0, CHR 0x9F, CHR 0x9A, CHR 0xA8]"

definition tampering_detected :: "string list \<Rightarrow> goerror" where
  "tampering_detected records =
     Errorf (siren @ '' CRITICAL: PostgreSQL tampering detected! Found '' @ fmt_d (length records) @ '' tampered records'')"

definition performDetailedVerification ::
    "'db bolt \<Rightarrow> (string \<Rightarrow> string) \<Rightarrow> string \<Rightarrow> gotime \<Rightarrow> 'db MerkleVerifier \<Rightarrow> pg \<Rightarrow> string \<Rightarrow> 'db \<Rightarrow>
     (unit result \<times> 'db) option" where
  "performDetailedVerification B H alg now v pg tableName db =
     (case wrap ''failed to build expected leaf map'' (buildLeafMapFromBoltDB B tableName db) of
        Inl err \<Rightarrow> Some (Inl err, db)
      | Inr (expectedLeafMap, boltdbIDs) \<Rightarrow>
          map_option (\<lambda>actual. case wrap ''failed to build actual leaf map'' actual of
              Inl err \<Rightarrow> (Inl err, db)
            | Inr (actualLeafMap, pgIDs, newMerkleRoot) \<Rightarrow>
                (let records = tamperedRecords expectedLeafMap boltdbIDs actualLeafMap pgIDs in
                 if 0 < length records then (Inl (tampering_detected records), db)
                 else createCheckpoint B alg now v tableName newMerkleRoot (int (length actualLeafMap)) db))
            (buildLeafMapFromPostgreSQL H v pg tableName))"

definition VerifyTable ::
    "'db bolt \<Rightarrow> (string \<Rightarrow> string) \<Rightarrow> string \<Rightarrow> gotime \<Rightarrow> 'db MerkleVerifier \<Rightarrow> pg \<Rightarrow> pg \<Rightarrow> string \<Rightarrow> 'db \<Rightarrow>
     (unit result \<times> 'db) option" where
  "VerifyTable B H alg now v pg1 pg2 tableName db =
     Option.bind (calculateCurrentMerkleRootFromPG H v pg1 tableName) (\<lambda>r1.
       case wrap ''failed to calculate actual Merkle Root from PostgreSQL'' r1 of
         Inl err \<Rightarrow> Some (Inl err, db)
       | Inr (actualMerkleRoot, pgRecordCount, pgTree) \<Rightarrow>
           Option.bind (calculateMerkleRootFromBoltDB B H tableName db) (\<lambda>r2.
             case wrap ''failed to calculate expected Merkle Root from BoltDB'' r2 of
               Inl err \<Rightarrow> Some (Inl err, db)
             | Inr (expectedMerkleRoot, boltdbRecordCount) \<Rightarrow>
                 if boltdbRecordCount = 0 then
                   Some (createCheckpointWithTree B alg now v tableName actualMerkleRoot pgRecordCount pgTree db)
                 else if actualMerkleRoot = expectedMerkleRoot \<and> pgRecordCount = boltdbRecordCount then
                   Some (createCheckpointWithTree B alg now v tableName actualMerkleRoot pgRecordCount pgTree db)
                 else performDetailedVerification B H alg now v pg2 tableName db))"

section \<open>Start, Stop and the periodic loop\<close>

text \<open>
  One round of the startup loop: the verdict is printed only, so the loop goes on whatever
  it is. \<open>reads\<close> gives the times and database reads of the successive calls.
\<close>

fun startup_loop ::
    "'db bolt \<Rightarrow> (string \<Rightarrow> string) \<Rightarrow> string \<Rightarrow> 'db MerkleVerifier \<Rightarrow> TableConfig list \<Rightarrow>
     (nat \<Rightarrow> gotime \<times> pg \<times> pg) \<Rightarrow> nat \<Rightarrow> 'db \<Rightarrow> 'db option" where
  "startup_loop B H alg v [] reads i db = Some db"
| "startup_loop B H alg v (table # tables) reads i db =
     (case reads i of (now, pg1, pg2) \<Rightarrow>
        Option.bind (VerifyTable B H alg now v pg1 pg2 (tc_Name table) db) (\<lambda>(_, db').
          startup_loop B H alg v tables reads (Suc i) db'))"

text \<open>
  The loop that starts a goroutine per table with an interval: the goroutines started, and
  the error that ends the loop early, if any. \<open>ParseDuration\<close> is time.ParseDuration.
\<close>

fun start_periodic ::
    "(string \<Rightarrow> int result) \<Rightarrow> TableConfig list \<Rightarrow> (string \<times> int) list \<times> unit result" where
  "start_periodic ParseDuration [] = ([], Inr ())"
| "start_periodic ParseDuration (table # tables) =
     (if tc_VerifyInterval table = [] then start_periodic ParseDuration tables
      else
        (case ParseDuration (tc_VerifyInterval table) of
           Inl err \<Rightarrow> ([], Inl (Wrapf (''invalid verify_interval for '' @ tc_Name table) err))
         | Inr interval \<Rightarrow>
             (let (started, r) = start_periodic ParseDuration tables
              in ((tc_Name table, interval) # started, r))))"

definition Verifier_Start ::
    "'db bolt \<Rightarrow> (string \<Rightarrow> string) \<Rightarrow> string \<Rightarrow> (string \<Rightarrow> int result) \<Rightarrow> 'db MerkleVerifier \<Rightarrow>
     (nat \<Rightarrow> gotime \<times> pg \<times> pg) \<Rightarrow> 'db \<Rightarrow> ((string \<times> int) list \<times> unit result \<times> 'db) option" where
  "Verifier_Start B H alg ParseDuration v reads db =
     map_option (\<lambda>db'. let (started, r) = start_periodic ParseDuration (mv_tables v) in (started, r, db'))
       (startup_loop B H alg v (mv_tables v) reads 0 db)"

text \<open>Stop closes the channel; closing it a second time is a panic (\<^const>\<open>None\<close>).\<close>

definition Verifier_Stop :: "'db MerkleVerifier \<Rightarrow> 'db MerkleVerifier option" where
  "Verifier_Stop v = (if mv_stopCh v then None else Some (v\<lparr>mv_stopCh := True\<rparr>))"

text \<open>
  What the select of runPeriodicVerification receives: the closed channel stopCh, the end of
  the context, or a tick, at which the table is verified and the verdict printed.
\<close>

datatype select_case =
    StopCh
  | CtxDone
  | Tick gotime pg pg

text \<open>The loop over what is received: whether it still runs at the end, and the store.\<close>

fun periodic_loop ::
    "'db bolt \<Rightarrow> (string \<Rightarrow> string) \<Rightarrow> string \<Rightarrow> 'db MerkleVerifier \<Rightarrow> string \<Rightarrow> select_case list \<Rightarrow> 'db \<Rightarrow>
     (bool \<times> 'db) option" where
  "periodic_loop B H alg v tableName [] db = Some (True, db)"
| "periodic_loop B H alg v tableName (StopCh # cs) db = Some (False, db)"
| "periodic_loop B H alg v tableName (CtxDone # cs) db = Some (False, db)"
| "periodic_loop B H alg v tableName (Tick now pg1 pg2 # cs) db =
     Option.bind (VerifyTable B H alg now v pg1 pg2 tableName db) (\<lambda>(_, db').
       periodic_loop B H alg v tableName cs db')"

text \<open>
  time.NewTicker panics when the interval, in nanoseconds, is not positive. The panic of the
  goroutine ends the process.
\<close>

definition NewTicker_panics :: "int \<Rightarrow> bool" where
  "NewTicker_panics interval \<longleftrightarrow> interval \<le> 0"

definition runPeriodicVerification ::
    "'db bolt \<Rightarrow> (string \<Rightarrow> string) \<Rightarrow> string \<Rightarrow> 'db MerkleVerifier \<Rightarrow> string \<Rightarrow> int \<Rightarrow> select_case list \<Rightarrow> 'db \<Rightarrow>
     (bool \<times> 'db) option" where
  "runPeriodicVerification B H alg v tableName interval cs db =
     (if NewTicker_panics interval then None else periodic_loop B H alg v tableName cs db)"

section \<open>Verification returns\<close>

lemma leaves_add_leaf_hashes: "leaves (add_leaf_hashes kvs) = map snd kvs"
proof -
  have "leaves (foldl (\<lambda>b (recordID, h). Builder_AddLeafHash recordID h b) b kvs) = leaves b @ map snd kvs" for b
    by (induction kvs arbitrary: b) (auto simp: Builder_AddLeafHash_def)
  then show ?thesis by (simp add: add_leaf_hashes_def NewMerkleTreeBuilder_def)
qed

lemma Build_some: "\<exists>r. Builder_Build H b = Some r"
  using Builder_Build_correct [of b H] by (cases "leaves b = []") (auto simp: Builder_Build_def)

lemma pg_root_some: "\<exists>r. calculateCurrentMerkleRootFromPG H v pg t = Some r"
  using Build_some by (fastforce simp: calculateCurrentMerkleRootFromPG_def split: sum.splits prod.splits)

lemma pg_leaf_some: "\<exists>r. buildLeafMapFromPostgreSQL H v pg t = Some r"
  using Build_some by (fastforce simp: buildLeafMapFromPostgreSQL_def split: sum.splits)

lemma bolt_root_some: "\<exists>r. calculateMerkleRootFromBoltDB B H t db = Some r"
proof -
  have "\<exists>r. map_option f (Builder_Build H b) = Some r" for f :: "MerkleTreeBuilder result \<Rightarrow> (string \<times> int) result" and b
    using Build_some [of H b] by auto
  then show ?thesis
    by (simp add: calculateMerkleRootFromBoltDB_def calculateMerkleRootFromCheckpoint_def GetAllHashEntries_def
        Let_def split: sum.splits)
qed

lemma performDetailedVerification_some: "\<exists>r. performDetailedVerification B H alg now v pg t db = Some r"
proof -
  obtain r where "buildLeafMapFromPostgreSQL H v pg t = Some r" using pg_leaf_some by blast
  then show ?thesis unfolding performDetailedVerification_def by (simp split: sum.splits)
qed

lemma VerifyTable_some: "\<exists>r. VerifyTable B H alg now v pg1 pg2 t db = Some r"
proof -
  obtain r1 r2 where "calculateCurrentMerkleRootFromPG H v pg1 t = Some r1" "calculateMerkleRootFromBoltDB B H t db = Some r2"
    using pg_root_some bolt_root_some by metis
  then show ?thesis
    using performDetailedVerification_some by (auto simp: VerifyTable_def split: sum.splits)
qed

lemma startup_loop_some: "\<exists>db'. startup_loop B H alg v tables reads i db = Some db'"
proof (induction tables arbitrary: i db)
  case (Cons t tables)
  obtain now pg1 pg2 where r: "reads i = (now, pg1, pg2)" by (metis prod.exhaust)
  obtain res db' where "VerifyTable B H alg now v pg1 pg2 (tc_Name t) db = Some (res, db')" using VerifyTable_some by fast
  then show ?case using Cons [of "Suc i" db'] by (simp add: r)
qed simp

lemma periodic_loop_some: "\<exists>r. periodic_loop B H alg v t cs db = Some r"
proof (induction cs arbitrary: db)
  case (Cons c cs)
  show ?case
  proof (cases c)
    case (Tick now pg1 pg2)
    obtain r db' where "VerifyTable B H alg now v pg1 pg2 t db = Some (r, db')" using VerifyTable_some by fast
    then show ?thesis using Cons.IH [of db'] by (simp add: Tick)
  qed auto
qed auto

section \<open>What is compared\<close>

definition row_id :: "(string \<times> goval) list \<Rightarrow> string" where
  "row_id row = snd (row_record row)"

definition row_hash :: "(string \<Rightarrow> string) \<Rightarrow> (string \<times> goval) list \<Rightarrow> string" where
  "row_hash H row = CalculateDataHash H (fst (row_record row))"

text \<open>The leaves of the two sides: of the rows read, and of the entries stored.\<close>

definition pg_leaf_pairs :: "(string \<Rightarrow> string) \<Rightarrow> (string \<times> goval) list list \<Rightarrow> (string \<times> string) list" where
  "pg_leaf_pairs H rs = map (\<lambda>row. (row_id row, row_hash H row)) rs"

definition bolt_leaf_pairs :: "HashEntry list \<Rightarrow> (string \<times> string) list" where
  "bolt_leaf_pairs es = map (\<lambda>e. (extractIDFromRecordID (RecordID e), DataHash e)) es"

definition ids_of :: "(string \<times> 'v) list \<Rightarrow> (string \<times> bool) list" where
  "ids_of kvs = map (\<lambda>(k, x). (k, True)) kvs"

lemma fst_ids_of [simp]: "fst ` set (ids_of kvs) = fst ` set kvs"
  by (force simp: ids_of_def)

lemma buildLeafMapFromBoltDB_eq:
  "buildLeafMapFromBoltDB B t db =
     Inr (assign_all (bolt_leaf_pairs (stored_entries B t db)) [],
          assign_all (ids_of (bolt_leaf_pairs (stored_entries B t db))) [])"
proof -
  have "foldl bolt_leaf (m, i) es = (assign_all (bolt_leaf_pairs es) m, assign_all (ids_of (bolt_leaf_pairs es)) i)" for m i es
    by (induction es arbitrary: m i) (simp_all add: bolt_leaf_pairs_def ids_of_def bolt_leaf_def Let_def)
  then show ?thesis by (simp add: buildLeafMapFromBoltDB_def GetAllHashEntries_def)
qed

lemma pg_leaf_loop_eq:
  "\<exists>b. pg_leaf_loop H (map Inr rs) acc =
     Inr \<lparr>la_leafMap = assign_all (pg_leaf_pairs H rs) (la_leafMap acc),
          la_ids = assign_all (ids_of (pg_leaf_pairs H rs)) (la_ids acc), la_builder = b\<rparr>
     \<and> leaves b = leaves (la_builder acc) @ map (row_hash H) rs"
proof (induction rs arbitrary: acc)
  case Nil
  show ?case by (cases acc) (simp add: pg_leaf_pairs_def ids_of_def)
next
  case (Cons row rs)
  obtain d i where ri: "row_record row = (d, i)" by force
  let ?acc = "\<lparr>la_leafMap = AList.update i (CalculateDataHash H d) (la_leafMap acc),
            la_ids = AList.update i True (la_ids acc),
            la_builder = Builder_AddLeafHash (fmt_v_map d) (CalculateDataHash H d) (la_builder acc)\<rparr>"
  have "pg_leaf_loop H (map Inr (row # rs)) acc = pg_leaf_loop H (map Inr rs) ?acc"
    by (simp add: ri Let_def)
  moreover have "leaves (la_builder ?acc) = leaves (la_builder acc) @ [row_hash H row]"
    by (simp add: Builder_AddLeafHash_def row_hash_def ri)
  ultimately show ?case
    using Cons.IH [of ?acc] by (simp add: pg_leaf_pairs_def ids_of_def row_id_def row_hash_def ri)
qed

lemma pg_root_loop_eq:
  "\<exists>b. pg_root_loop H (map Inr rs) b0 n = Inr (b, n + int (length rs)) \<and> leaves b = leaves b0 @ map (row_hash H) rs
     \<and> leafDataMap b = assign_all (pg_leaf_pairs H rs) (leafDataMap b0)"
proof (induction rs arbitrary: b0 n)
  case (Cons row rs)
  obtain d i where ri: "row_record row = (d, i)" by force
  then show ?case
    using Cons.IH [of "Builder_AddLeaf H i d b0" "n + 1"]
    by (auto simp: AddLeaf_AddLeafHash Builder_AddLeafHash_def pg_leaf_pairs_def row_id_def row_hash_def ri algebra_simps)
qed (simp add: pg_leaf_pairs_def)

lemma Build_root:
  assumes "leaves b = ls" "ls \<noteq> []"
  shows "\<exists>b'. Builder_Build H b = Some (Inr b') \<and> Builder_GetRoot b' = MerkleTree_GetRoot H \<lparr>mt_leaves = ls\<rparr>
    \<and> leaves b' = ls \<and> leafDataMap b' = leafDataMap b \<and> builder_built H b'"
proof -
  have ne: "leaves b \<noteq> []" using assms by simp
  from Builder_Build_correct [OF this, of H] obtain r where r: "Builder_Build H b = Some (Inr (b\<lparr>root := Some r\<rparr>))"
    "wf_node H r" "leaves_of r = sort (leaves b)" "node_Hash r = calculateRoot H (sort (leaves b))" by blast
  then show ?thesis using Build_GetRoot [OF ne r(1)] assms(1) by (simp add: builder_built_def)
qed

text \<open>The tree of the rows of a table; of none there is no tree.\<close>

definition rows_tree :: "(string \<Rightarrow> string) \<Rightarrow> (string \<times> goval) list list \<Rightarrow> MerkleTreeBuilder option \<Rightarrow> bool" where
  "rows_tree H rs tree \<longleftrightarrow>
     (case tree of
        None \<Rightarrow> rs = []
      | Some b \<Rightarrow> leaves b = map (row_hash H) rs \<and> leafDataMap b = assign_all (pg_leaf_pairs H rs) [] \<and> builder_built H b)"

lemma pg_root_eq:
  assumes "query_table v pg t = Inr (map Inr rs)"
  shows "\<exists>tree. rows_tree H rs tree \<and> calculateCurrentMerkleRootFromPG H v pg t =
     Some (Inr (MerkleTree_GetRoot H \<lparr>mt_leaves = map (row_hash H) rs\<rparr>, int (length rs), tree))"
proof -
  obtain b where b: "pg_root_loop H (map Inr rs) NewMerkleTreeBuilder 0 = Inr (b, int (length rs))"
    "leaves b = map (row_hash H) rs" "leafDataMap b = assign_all (pg_leaf_pairs H rs) []"
    using pg_root_loop_eq [of H rs NewMerkleTreeBuilder 0] by (auto simp: NewMerkleTreeBuilder_def)
  show ?thesis
  proof (cases "rs = []")
    case True
    with b assms show ?thesis by (simp add: calculateCurrentMerkleRootFromPG_def MerkleTree_GetRoot_def rows_tree_def)
  next
    case False
    with Build_root [OF b(2), of H] obtain b' where "Builder_Build H b = Some (Inr b')"
      "Builder_GetRoot b' = MerkleTree_GetRoot H \<lparr>mt_leaves = map (row_hash H) rs\<rparr>"
      and "leaves b' = map (row_hash H) rs" "leafDataMap b' = leafDataMap b" "builder_built H b'" by auto
    with False b assms show ?thesis by (simp add: calculateCurrentMerkleRootFromPG_def rows_tree_def)
  qed
qed

lemma pg_leaf_eq:
  assumes "query_table v pg t = Inr (map Inr rs)"
  shows "buildLeafMapFromPostgreSQL H v pg t =
     Some (Inr (assign_all (pg_leaf_pairs H rs) [], assign_all (ids_of (pg_leaf_pairs H rs)) [],
       MerkleTree_GetRoot H \<lparr>mt_leaves = map (row_hash H) rs\<rparr>))"
proof -
  let ?acc0 = "\<lparr>la_leafMap = [], la_ids = [], la_builder = NewMerkleTreeBuilder\<rparr>"
  obtain b where b: "pg_leaf_loop H (map Inr rs) ?acc0 =
      Inr \<lparr>la_leafMap = assign_all (pg_leaf_pairs H rs) [], la_ids = assign_all (ids_of (pg_leaf_pairs H rs)) [], la_builder = b\<rparr>"
    "leaves b = map (row_hash H) rs"
    using pg_leaf_loop_eq [of H rs ?acc0] by (auto simp: NewMerkleTreeBuilder_def)
  show ?thesis
  proof (cases "rs = []")
    case True
    with b assms show ?thesis by (simp add: buildLeafMapFromPostgreSQL_def pg_leaf_pairs_def ids_of_def MerkleTree_GetRoot_def)
  next
    case False
    then have "fst ` set (assign_all (pg_leaf_pairs H rs) []) \<noteq> {}" by (simp add: keys_assign_all pg_leaf_pairs_def)
    then have "assign_all (pg_leaf_pairs H rs) [] \<noteq> []" by auto
    with Build_root [OF b(2), of H] False b(1) assms show ?thesis by (auto simp: buildLeafMapFromPostgreSQL_def)
  qed
qed

text \<open>The leaves of the tree whose root is expected.\<close>

definition expected_leaves :: "'db bolt \<Rightarrow> string \<Rightarrow> 'db \<Rightarrow> string list" where
  "expected_leaves B t db =
     (let full = map DataHash (stored_entries B t db) in
      case GetLatestMerkleCheckpoint B t db of
        Inl _ \<Rightarrow> full
      | Inr c \<Rightarrow> if 0 < length (cp_LeafMap c) then map snd (checkpoint_leaves c (stored_entries B t db)) else full)"

lemma checkpoint_leaves_kept:
  "k \<notin> RecordID ` set es \<Longrightarrow> map_of (checkpoint_leaves c es) k = map_of (cp_LeafMap c) k"
proof -
  have "k \<notin> RecordID ` set es \<Longrightarrow> map_of (foldl (\<lambda>leafMap entry. if cp_SequenceNum c < SequenceNum entry
        then AList.update (RecordID entry) (DataHash entry) leafMap else leafMap) m es) k = map_of m k" for m
    by (induction es arbitrary: m) (auto simp: update_conv')
  then show "k \<notin> RecordID ` set es \<Longrightarrow> map_of (checkpoint_leaves c es) k = map_of (cp_LeafMap c) k"
    by (simp add: checkpoint_leaves_def)
qed

lemma checkpoint_leaves_not_Nil: "cp_LeafMap c \<noteq> [] \<Longrightarrow> checkpoint_leaves c es \<noteq> []"
proof -
  have ne: "AList.update k x m \<noteq> []" for k x and m :: "(string, string) gomap" by (cases m) auto
  have "m \<noteq> [] \<Longrightarrow> foldl (\<lambda>leafMap entry. if cp_SequenceNum c < SequenceNum entry
        then AList.update (RecordID entry) (DataHash entry) leafMap else leafMap) m es \<noteq> []" for m
    by (induction es arbitrary: m) (simp_all add: ne)
  then show "cp_LeafMap c \<noteq> [] \<Longrightarrow> checkpoint_leaves c es \<noteq> []" by (simp add: checkpoint_leaves_def)
qed

lemma bolt_root_eq:
  "calculateMerkleRootFromBoltDB B H t db =
     Some (Inr (MerkleTree_GetRoot H \<lparr>mt_leaves = expected_leaves B t db\<rparr>, int (length (expected_leaves B t db))))"
proof -
  let ?es = "stored_entries B t db"
  have full: "(if ?es = [] then Some (Inr ([], 0))
     else map_option (\<lambda>built. case built of
        Inl err \<Rightarrow> Inl (Wrapf ''failed to build Merkle Tree from BoltDB'' err)
      | Inr builder \<Rightarrow> Inr (Builder_GetRoot builder, int (length ?es)))
        (Builder_Build H (add_leaf_hashes (map (\<lambda>e. (RecordID e, DataHash e)) ?es)))) =
     Some (Inr (MerkleTree_GetRoot H \<lparr>mt_leaves = map DataHash ?es\<rparr>, int (length ?es)))"
  proof (cases "?es = []")
    case True
    then show ?thesis by (simp add: MerkleTree_GetRoot_def)
  next
    case False
    have "leaves (add_leaf_hashes (map (\<lambda>e. (RecordID e, DataHash e)) ?es)) = map DataHash ?es"
      by (simp add: leaves_add_leaf_hashes comp_def)
    from Build_root [OF this, of H] False show ?thesis by auto
  qed
  have cp: "calculateMerkleRootFromCheckpoint B H t c db =
      Some (Inr (MerkleTree_GetRoot H \<lparr>mt_leaves = map snd (checkpoint_leaves c ?es)\<rparr>, int (length (checkpoint_leaves c ?es))))"
    if "cp_LeafMap c \<noteq> []" for c
    using Build_root [OF leaves_add_leaf_hashes [of "checkpoint_leaves c ?es"], of H] checkpoint_leaves_not_Nil [OF that, of ?es]
    by (auto simp: calculateMerkleRootFromCheckpoint_def GetAllHashEntries_def Let_def)
  show ?thesis
  proof (cases "GetLatestMerkleCheckpoint B t db")
    case (Inl err)
    then show ?thesis
      using full by (simp add: calculateMerkleRootFromBoltDB_def GetAllHashEntries_def expected_leaves_def)
  next
    case (Inr c)
    then show ?thesis
      using full cp by (cases "cp_LeafMap c = []")
        (simp_all add: calculateMerkleRootFromBoltDB_def GetAllHashEntries_def expected_leaves_def)
  qed
qed

section \<open>What is reported\<close>

lemma id_set_assign_all: "id_set (assign_all (ids_of kvs) []) k \<longleftrightarrow> k \<in> fst ` set kvs"
proof -
  have "map_of (rev (ids_of kvs)) k = (if k \<in> fst ` set kvs then Some True else None)"
  proof (cases "k \<in> fst ` set kvs")
    case True
    then have "map_of (rev (ids_of kvs)) k \<noteq> None"
      by (simp add: map_of_eq_None_iff)
    then obtain b where b: "map_of (rev (ids_of kvs)) k = Some b" by blast
    then have "(k, b) \<in> set (rev (ids_of kvs))" by (rule map_of_SomeD)
    then show ?thesis using b True by (auto simp: ids_of_def)
  qed (simp add: map_of_eq_None_iff)
  then show ?thesis by (simp add: id_set_def map_of_assign_all)
qed

lemma set_keys_assign_all: "set (map fst (assign_all (ids_of kvs) [])) = fst ` set kvs"
  by (simp add: keys_assign_all)

lemma dom_assign_all: "dom (map_of (assign_all kvs [])) = fst ` set kvs"
  by (simp add: dom_map_of_conv_image_fst keys_assign_all)

lemma map_of_filter_fst: "map_of (filter (\<lambda>(k, x). P k) m) k = (if P k then map_of m k else None)"
  by (induction m) auto

lemma modified_lines:
  assumes ok: "gomap_ok e" "gomap_ok a"
    and P: "P = dom (map_of a) - dom (map_of e)" and D: "D = dom (map_of e) - dom (map_of a)"
  shows "length (filter (\<lambda>d. diff_RecordID d \<notin> P \<and> diff_RecordID d \<notin> D \<and> diff_Type d = ''modified'')
      (CompareLeafMaps (filter (\<lambda>(i, h). i \<notin> D) e) (filter (\<lambda>(i, h). i \<notin> P) a))) =
    card {k. k \<in> dom (map_of e) \<inter> dom (map_of a) \<and> map_of e k \<noteq> map_of a k}"
    (is "length (filter ?Q (CompareLeafMaps ?ae ?aa)) = card ?S")
proof -
  have ok': "gomap_ok ?ae" "gomap_ok ?aa" using ok by (simp_all add: distinct_map_filter)
  have mem: "d \<in> set (filter ?Q (CompareLeafMaps ?ae ?aa)) \<longleftrightarrow>
      (\<exists>k h h'. map_of e k = Some h \<and> map_of a k = Some h' \<and> h \<noteq> h' \<and> d = modified k h h')" for d
    unfolding set_filter mem_Collect_eq CompareLeafMaps_set [OF ok'] map_of_filter_fst
    using P D by (auto simp: dom_def)
  have "set (map diff_RecordID (filter ?Q (CompareLeafMaps ?ae ?aa))) = ?S"
  proof (intro set_eqI iffI)
    fix k assume "k \<in> set (map diff_RecordID (filter ?Q (CompareLeafMaps ?ae ?aa)))"
    then obtain d where d: "d \<in> set (filter ?Q (CompareLeafMaps ?ae ?aa))" "k = diff_RecordID d"
      unfolding set_map by blast
    from d(1)[unfolded mem] d(2) show "k \<in> ?S" by auto
  next
    fix k assume "k \<in> ?S"
    then obtain h h' where "map_of e k = Some h" "map_of a k = Some h'" "h \<noteq> h'" by auto
    then have "modified k h h' \<in> set (filter ?Q (CompareLeafMaps ?ae ?aa))" unfolding mem by blast
    from imageI [OF this, of diff_RecordID]
    show "k \<in> set (map diff_RecordID (filter ?Q (CompareLeafMaps ?ae ?aa)))" by simp
  qed
  moreover have "distinct (map diff_RecordID (filter ?Q (CompareLeafMaps ?ae ?aa)))"
    using CompareLeafMaps_distinct [OF ok'] by (rule distinct_map_filter)
  then have "length (map diff_RecordID (filter ?Q (CompareLeafMaps ?ae ?aa))) =
      card (set (map diff_RecordID (filter ?Q (CompareLeafMaps ?ae ?aa))))" by (rule distinct_card [symmetric])
  ultimately show ?thesis by (simp only: length_map)
qed

lemma card_differences:
  assumes "finite (dom e)" "finite (dom a)"
  shows "card {k. e k \<noteq> a k} =
    card (dom a - dom e) + (card (dom e - dom a) + card {k. k \<in> dom e \<inter> dom a \<and> e k \<noteq> a k})"
proof -
  let ?S = "{k. k \<in> dom e \<inter> dom a \<and> e k \<noteq> a k}"
  have "{k. e k \<noteq> a k} = (dom a - dom e) \<union> ((dom e - dom a) \<union> ?S)"
  proof (rule set_eqI)
    fix k
    show "k \<in> {k. e k \<noteq> a k} \<longleftrightarrow> k \<in> (dom a - dom e) \<union> ((dom e - dom a) \<union> ?S)"
      by (cases "e k"; cases "a k") (auto simp: dom_def)
  qed
  moreover have "finite ?S" using assms by (auto intro: finite_subset [of _ "dom e"])
  ultimately show ?thesis
    using assms by (simp add: card_Un_disjoint disjoint_iff)
qed

text \<open>
  For the maps and key sets that are built from the same pairs, the report has one line for
  each key of one side only and for each key with two different hashes.
\<close>

lemma tamperedRecords_length:
  "length (tamperedRecords (assign_all eps []) (assign_all (ids_of eps) []) (assign_all aps []) (assign_all (ids_of aps) [])) =
     card {k. map_of (assign_all eps []) k \<noteq> map_of (assign_all aps []) k}"
proof -
  let ?e = "assign_all eps []" and ?a = "assign_all aps []"
  let ?phantom = "filter (\<lambda>i. \<not> id_set (assign_all (ids_of eps) []) i) (map fst (assign_all (ids_of aps) []))"
  let ?deleted = "filter (\<lambda>i. \<not> id_set (assign_all (ids_of aps) []) i) (map fst (assign_all (ids_of eps) []))"
  have sp: "set ?phantom = dom (map_of ?a) - dom (map_of ?e)"
    unfolding dom_assign_all set_filter set_keys_assign_all id_set_assign_all by auto
  have sd: "set ?deleted = dom (map_of ?e) - dom (map_of ?a)"
    unfolding dom_assign_all set_filter set_keys_assign_all id_set_assign_all by auto
  have "distinct ?phantom" "distinct ?deleted" by (simp_all add: gomap_ok_assign_all)
  then have cards: "length ?phantom = card (dom (map_of ?a) - dom (map_of ?e))"
    "length ?deleted = card (dom (map_of ?e) - dom (map_of ?a))"
    unfolding sp [symmetric] sd [symmetric] by (simp_all only: distinct_card)
  have "gomap_ok ?e" "gomap_ok ?a" by (simp_all add: gomap_ok_assign_all)
  note mods = modified_lines [OF this sp sd]
  show ?thesis
    unfolding tamperedRecords_def Let_def length_append length_map mods cards
    by (rule card_differences [symmetric]) (simp_all add: finite_dom_map_of)
qed

lemma tamperedRecords_Nil_iff:
  "tamperedRecords (assign_all eps []) (assign_all (ids_of eps) []) (assign_all aps []) (assign_all (ids_of aps) []) = []
    \<longleftrightarrow> map_of (assign_all eps []) = map_of (assign_all aps [])"
proof -
  let ?e = "map_of (assign_all eps [])" and ?a = "map_of (assign_all aps [])"
  have "{k. ?e k \<noteq> ?a k} \<subseteq> dom ?e \<union> dom ?a" by (auto simp: dom_def)
  then have "finite {k. ?e k \<noteq> ?a k}" by (rule finite_subset) (simp add: finite_dom_map_of)
  then show ?thesis
    unfolding length_0_conv [symmetric] tamperedRecords_length by (auto simp: fun_eq_iff)
qed

section \<open>The verdict\<close>

definition bolt_leaf_map :: "'db bolt \<Rightarrow> string \<Rightarrow> 'db \<Rightarrow> string \<rightharpoonup> string" where
  "bolt_leaf_map B t db = map_of (assign_all (bolt_leaf_pairs (stored_entries B t db)) [])"

definition pg_leaf_map :: "(string \<Rightarrow> string) \<Rightarrow> (string \<times> goval) list list \<Rightarrow> string \<rightharpoonup> string" where
  "pg_leaf_map H rs = map_of (assign_all (pg_leaf_pairs H rs) [])"

definition roots_agree :: "'db bolt \<Rightarrow> (string \<Rightarrow> string) \<Rightarrow> string \<Rightarrow> (string \<times> goval) list list \<Rightarrow> 'db \<Rightarrow> bool" where
  "roots_agree B H t rs db \<longleftrightarrow> length rs = length (expected_leaves B t db)
     \<and> MerkleTree_GetRoot H \<lparr>mt_leaves = map (row_hash H) rs\<rparr> = MerkleTree_GetRoot H \<lparr>mt_leaves = expected_leaves B t db\<rparr>"

lemma performDetailedVerification_eq:
  assumes "query_table v pg t = Inr (map Inr rs)"
  shows "\<exists>recs. length recs = card {k. bolt_leaf_map B t db k \<noteq> pg_leaf_map H rs k} \<and>
    performDetailedVerification B H alg now v pg t db =
      Some (if bolt_leaf_map B t db = pg_leaf_map H rs
            then createCheckpoint B alg now v t (MerkleTree_GetRoot H \<lparr>mt_leaves = map (row_hash H) rs\<rparr>)
              (int (card (dom (pg_leaf_map H rs)))) db
            else (Inl (tampering_detected recs), db))"
proof -
  let ?eps = "bolt_leaf_pairs (stored_entries B t db)" and ?aps = "pg_leaf_pairs H rs"
  let ?recs = "tamperedRecords (assign_all ?eps []) (assign_all (ids_of ?eps) []) (assign_all ?aps []) (assign_all (ids_of ?aps) [])"
  have "gomap_ok (assign_all ?aps [])" by (simp add: gomap_ok_assign_all)
  then have len: "length (assign_all ?aps []) = card (dom (pg_leaf_map H rs))"
    unfolding pg_leaf_map_def dom_map_of_conv_image_fst by (metis distinct_card length_map list.set_map)
  have "performDetailedVerification B H alg now v pg t db =
      Some (if ?recs = [] then createCheckpoint B alg now v t (MerkleTree_GetRoot H \<lparr>mt_leaves = map (row_hash H) rs\<rparr>)
              (int (card (dom (pg_leaf_map H rs)))) db
            else (Inl (tampering_detected ?recs), db))"
    by (simp add: performDetailedVerification_def buildLeafMapFromBoltDB_eq pg_leaf_eq [OF assms] Let_def len)
  moreover have "length ?recs = card {k. bolt_leaf_map B t db k \<noteq> pg_leaf_map H rs k}"
    unfolding bolt_leaf_map_def pg_leaf_map_def by (rule tamperedRecords_length)
  moreover have "?recs = [] \<longleftrightarrow> bolt_leaf_map B t db = pg_leaf_map H rs"
    unfolding bolt_leaf_map_def pg_leaf_map_def by (rule tamperedRecords_Nil_iff)
  ultimately show ?thesis by (intro exI [of _ ?recs]) simp
qed

lemma VerifyTable_eq:
  assumes "query_table v pg1 t = Inr (map Inr rs1)" "query_table v pg2 t = Inr (map Inr rs2)"
  shows "\<exists>tree recs. length recs = card {k. bolt_leaf_map B t db k \<noteq> pg_leaf_map H rs2 k} \<and>
    rows_tree H rs1 tree \<and> VerifyTable B H alg now v pg1 pg2 t db =
      Some (if expected_leaves B t db = [] \<or> roots_agree B H t rs1 db
            then createCheckpointWithTree B alg now v t (MerkleTree_GetRoot H \<lparr>mt_leaves = map (row_hash H) rs1\<rparr>)
              (int (length rs1)) tree db
            else if bolt_leaf_map B t db = pg_leaf_map H rs2
            then createCheckpoint B alg now v t (MerkleTree_GetRoot H \<lparr>mt_leaves = map (row_hash H) rs2\<rparr>)
              (int (card (dom (pg_leaf_map H rs2)))) db
            else (Inl (tampering_detected recs), db))"
proof -
  obtain tree where tree: "rows_tree H rs1 tree" and r1: "calculateCurrentMerkleRootFromPG H v pg1 t =
     Some (Inr (MerkleTree_GetRoot H \<lparr>mt_leaves = map (row_hash H) rs1\<rparr>, int (length rs1), tree))"
    using pg_root_eq [OF assms(1)] by blast
  obtain recs where r2: "length recs = card {k. bolt_leaf_map B t db k \<noteq> pg_leaf_map H rs2 k}"
    "performDetailedVerification B H alg now v pg2 t db =
      Some (if bolt_leaf_map B t db = pg_leaf_map H rs2
            then createCheckpoint B alg now v t (MerkleTree_GetRoot H \<lparr>mt_leaves = map (row_hash H) rs2\<rparr>)
              (int (card (dom (pg_leaf_map H rs2)))) db
            else (Inl (tampering_detected recs), db))"
    using performDetailedVerification_eq [OF assms(2)] by blast
  have "VerifyTable B H alg now v pg1 pg2 t db =
      Some (if expected_leaves B t db = [] \<or> roots_agree B H t rs1 db
            then createCheckpointWithTree B alg now v t (MerkleTree_GetRoot H \<lparr>mt_leaves = map (row_hash H) rs1\<rparr>)
              (int (length rs1)) tree db
            else if bolt_leaf_map B t db = pg_leaf_map H rs2
            then createCheckpoint B alg now v t (MerkleTree_GetRoot H \<lparr>mt_leaves = map (row_hash H) rs2\<rparr>)
              (int (card (dom (pg_leaf_map H rs2)))) db
            else (Inl (tampering_detected recs), db))"
    unfolding VerifyTable_def r1 bolt_root_eq r2(2) by (simp add: roots_agree_def)
  with r2(1) tree show ?thesis by blast
qed

lemma createCheckpointWithTree_error:
  "fst (createCheckpointWithTree B alg now v t rt n tree db) = Inl err \<Longrightarrow> \<exists>msg e. err = Wrapf msg e"
  by (auto simp: createCheckpointWithTree_def Let_def wrap_def split: option.splits sum.splits if_splits prod.splits)

lemma tampering_not_Wrapf: "tampering_detected recs \<noteq> Wrapf msg e"
  by (simp only: tampering_detected_def goerror.distinct not_False_eq_True)

definition reports_tampering :: "(unit result \<times> 'db) option \<Rightarrow> bool" where
  "reports_tampering r \<longleftrightarrow> (\<exists>recs db. r = Some (Inl (tampering_detected recs), db))"

lemma createCheckpoint_reports:
  "\<not> reports_tampering (Some (createCheckpointWithTree B alg now v t rt n tree db))"
  "\<not> reports_tampering (Some (createCheckpoint B alg now v t rt n db))"
proof -
  show no: "\<not> reports_tampering (Some (createCheckpointWithTree B alg now v t rt n tree db))" for tree
  proof
    assume "reports_tampering (Some (createCheckpointWithTree B alg now v t rt n tree db))"
    then obtain recs where "fst (createCheckpointWithTree B alg now v t rt n tree db) = Inl (tampering_detected recs)"
      by (auto simp: reports_tampering_def)
    from createCheckpointWithTree_error [OF this] show False by (simp add: tampering_not_Wrapf)
  qed
  show "\<not> reports_tampering (Some (createCheckpoint B alg now v t rt n db))"
    unfolding createCheckpoint_def by (rule no)
qed

text \<open>
  The verdict in terms of what was read: tampering is reported exactly if something is
  expected, the roots or the numbers of leaves differ, and the leaf maps differ.
\<close>

lemma VerifyTable_reports:
  assumes "query_table v pg1 t = Inr (map Inr rs1)" "query_table v pg2 t = Inr (map Inr rs2)"
  shows "reports_tampering (VerifyTable B H alg now v pg1 pg2 t db) \<longleftrightarrow>
    expected_leaves B t db \<noteq> [] \<and> \<not> roots_agree B H t rs1 db \<and> bolt_leaf_map B t db \<noteq> pg_leaf_map H rs2"
proof -
  obtain tree recs where eq: "VerifyTable B H alg now v pg1 pg2 t db =
      Some (if expected_leaves B t db = [] \<or> roots_agree B H t rs1 db
            then createCheckpointWithTree B alg now v t (MerkleTree_GetRoot H \<lparr>mt_leaves = map (row_hash H) rs1\<rparr>)
              (int (length rs1)) tree db
            else if bolt_leaf_map B t db = pg_leaf_map H rs2
            then createCheckpoint B alg now v t (MerkleTree_GetRoot H \<lparr>mt_leaves = map (row_hash H) rs2\<rparr>)
              (int (card (dom (pg_leaf_map H rs2)))) db
            else (Inl (tampering_detected recs), db))"
    using VerifyTable_eq [OF assms] by blast
  have "reports_tampering (Some (Inl (tampering_detected recs), db))" by (auto simp: reports_tampering_def)
  then show ?thesis unfolding eq by (simp add: createCheckpoint_reports split: if_split)
qed

lemma row_hash_width: "fixed_width H w \<Longrightarrow> length (row_hash H row) = w"
  by (simp add: row_hash_def CalculateDataHash_def fixed_width.length_H)

lemma roots_agree_mset:
  assumes "fixed_width H w" "list_all (\<lambda>l. length l = w) (expected_leaves B t db)"
    and "inj_on H (set (root_inputs H (sort (map (row_hash H) rs))) \<union> set (root_inputs H (sort (expected_leaves B t db))))"
  shows "roots_agree B H t rs db \<longleftrightarrow> mset (map (row_hash H) rs) = mset (expected_leaves B t db)"
proof
  assume ra: "roots_agree B H t rs db"
  show "mset (map (row_hash H) rs) = mset (expected_leaves B t db)"
  proof (rule fixed_width.GetRoot_binds [OF assms(1) _ _ assms(2,3)])
    show "list_all (\<lambda>h. length h = w) (map (row_hash H) rs)"
      using row_hash_width [OF assms(1)] by (simp add: list_all_iff)
  qed (use ra in \<open>simp_all add: roots_agree_def\<close>)
next
  assume eq: "mset (map (row_hash H) rs) = mset (expected_leaves B t db)"
  then have "length (map (row_hash H) rs) = length (expected_leaves B t db)" by (rule mset_eq_length)
  with MerkleTree_GetRoot_perm [OF eq] show "roots_agree B H t rs db" by (simp add: roots_agree_def)
qed

section \<open>From insertion to verification\<close>

lemma map_of_assign_all_iff:
  assumes "inj_on fst (set kvs)"
  shows "map_of (assign_all kvs []) k = Some x \<longleftrightarrow> (k, x) \<in> set kvs"
proof
  assume "map_of (assign_all kvs []) k = Some x"
  then have "map_of (rev kvs) k = Some x" by (simp add: map_of_assign_all)
  then show "(k, x) \<in> set kvs" by (auto dest: map_of_SomeD)
next
  assume kx: "(k, x) \<in> set kvs"
  then have "k \<in> fst ` set (rev kvs)" by force
  then have "map_of (rev kvs) k \<noteq> None" by (simp add: map_of_eq_None_iff)
  then obtain y where y: "map_of (rev kvs) k = Some y" by blast
  then have "(k, y) \<in> set kvs" by (auto dest: map_of_SomeD)
  from inj_onD [OF assms _ this kx] have "y = x" by simp
  with y show "map_of (assign_all kvs []) k = Some x" by (simp add: map_of_assign_all)
qed

lemma map_of_assign_all_cong:
  assumes "inj_on fst (set kvs)" "set kvs = set kvs'"
  shows "map_of (assign_all kvs []) = map_of (assign_all kvs' [])"
proof (intro ext option.expand)
  fix k
  have "map_of (assign_all kvs []) k = Some x \<longleftrightarrow> map_of (assign_all kvs' []) k = Some x" for x
    using assms by (simp add: map_of_assign_all_iff)
  then have "map_of (assign_all kvs []) k = map_of (assign_all kvs' []) k" by (metis option.exhaust)
  then show "(map_of (assign_all kvs []) k = None) = (map_of (assign_all kvs' []) k = None)"
    and "the (map_of (assign_all kvs []) k) = the (map_of (assign_all kvs' []) k)" by simp_all
qed

text \<open>
  An event captures a row: its key renders to a record id from which the row's id is
  extracted, and its data hashes like the row.
\<close>

definition captured :: "(string \<Rightarrow> string) \<Rightarrow> gotime \<times> ChangeEvent \<Rightarrow> (string \<times> goval) list \<Rightarrow> bool" where
  "captured H e row \<longleftrightarrow> extractIDFromRecordID (fmt_v_map (ev_PrimaryKey (snd e))) = row_id row
     \<and> CalculateDataHash H (ev_NewData (snd e)) = row_hash H row"

lemma stream_pairs:
  assumes "list_all2 (captured H) events rs"
  shows "bolt_leaf_pairs (stream_entries H events) = pg_leaf_pairs H rs"
proof (rule nth_equalityI)
  show "length (bolt_leaf_pairs (stream_entries H events)) = length (pg_leaf_pairs H rs)"
    using assms by (simp add: bolt_leaf_pairs_def pg_leaf_pairs_def list_all2_lengthD)
  fix i assume "i < length (bolt_leaf_pairs (stream_entries H events))"
  then have i: "i < length events" by (simp add: bolt_leaf_pairs_def)
  then have "captured H (events ! i) (rs ! i)" using assms by (rule list_all2_nthD [rotated])
  with i show "bolt_leaf_pairs (stream_entries H events) ! i = pg_leaf_pairs H rs ! i"
    using list_all2_lengthD [OF assms]
    by (simp add: bolt_leaf_pairs_def pg_leaf_pairs_def stream_entries_def make_entry_def captured_def)
qed

lemma surviving_all: "length es \<le> 10 \<Longrightarrow> surviving es = set es"
proof -
  assume le: "length es \<le> 10"
  show ?thesis
  proof (cases "length es \<le> 9")
    case True
    then show ?thesis by (simp add: surviving_def)
  next
    case False
    with le have len: "length es = Suc 9" by simp
    then have "butlast es = take 9 es" by (simp add: butlast_conv_take)
    moreover have "es \<noteq> []" using len by auto
    ultimately have "set (take 9 es @ [last es]) = set es" by (metis append_butlast_last_id)
    with len show ?thesis by (simp add: surviving_def)
  qed
qed

lemma set_bolt_leaf_pairs: "set (bolt_leaf_pairs es) = (\<lambda>e. (extractIDFromRecordID (RecordID e), DataHash e)) ` set es"
  by (simp add: bolt_leaf_pairs_def)

lemma inj_on_pg_leaf_pairs: "distinct (map row_id rs) \<Longrightarrow> inj_on fst (set (pg_leaf_pairs H rs))"
  by (auto simp: pg_leaf_pairs_def inj_on_def distinct_map)

context bolt_store
begin

lemma SaveHashEntry_checkpoint:
  "SaveHashEntry B e db = Inr db' \<Longrightarrow> GetLatestMerkleCheckpoint B t db' = GetLatestMerkleCheckpoint B t db"
proof -
  assume "SaveHashEntry B e db = Inr db'"
  then have "bolt_get B db' MerkleCheckpointBucket = bolt_get B db MerkleCheckpointBucket"
    using SaveHashEntry_get by (auto simp: HashChainBucket_def MerkleCheckpointBucket_def)
  from pairs_cong [OF this] show ?thesis by (simp add: GetLatestMerkleCheckpoint_def)
qed

lemma handle_all_checkpoint:
  "handle_all B H h events db = Inr db' \<Longrightarrow> GetLatestMerkleCheckpoint B t db' = GetLatestMerkleCheckpoint B t db"
proof (induction events arbitrary: db)
  case (Cons e events)
  obtain now ev where e: "e = (now, ev)" by force
  with Cons.prems obtain db1 where db1: "Handler_HandleChange B H now h ev db = Inr db1" "handle_all B H h events db1 = Inr db'"
    by (auto simp: bind_res_eq_Inr_iff)
  then have "GetLatestMerkleCheckpoint B t db1 = GetLatestMerkleCheckpoint B t db"
    using SaveHashEntry_checkpoint by (auto simp: Handler_HandleChange_def split: option.splits if_splits)
  with Cons.IH [OF db1(2)] show ?case by simp
qed simp

end

text \<open>The map from ids to hashes determines the hashes, and does not depend on the order of the rows.\<close>

lemma pg_leaf_map_set:
  assumes "distinct (map row_id rs)"
  shows "pg_leaf_map H rs k = Some x \<longleftrightarrow> (k, x) \<in> set (pg_leaf_pairs H rs)"
  unfolding pg_leaf_map_def by (rule map_of_assign_all_iff [OF inj_on_pg_leaf_pairs [OF assms]])

lemma pg_leaf_map_perm: "mset rs = mset rs' \<Longrightarrow> distinct (map row_id rs) \<Longrightarrow> pg_leaf_map H rs' = pg_leaf_map H rs"
proof -
  assume a: "mset rs = mset rs'" "distinct (map row_id rs)"
  then have "set (pg_leaf_pairs H rs) = set (pg_leaf_pairs H rs')" using mset_eq_setD [OF a(1)] by (simp add: pg_leaf_pairs_def)
  from map_of_assign_all_cong [OF inj_on_pg_leaf_pairs [OF a(2)] this] show ?thesis by (simp add: pg_leaf_map_def)
qed

context bolt_store
begin

text \<open>
  What verification sees after a stream of captured insertions into an empty chain: up to
  ten of them the leaf maps agree; beyond that entries are missing.
\<close>

lemma captured_leaf_maps:
  assumes "handler_inv h" "store_inv B db" "stored_entries B t db = []" "table_ok t"
    and "list_all (insertion H h t) events" "handle_all B H h events db = Inr db'"
    and "list_all2 (captured H) events rs" "distinct (map row_id rs)" "mset rs2 = mset rs"
  shows "bolt_leaf_map B t db' = pg_leaf_map H rs2 \<longleftrightarrow> length events \<le> 10"
proof -
  note contents = insertions_contents [OF assms(1-3,5,6,4)]
  have pairs: "set (bolt_leaf_pairs (stream_entries H events)) = set (pg_leaf_pairs H rs2)"
    using stream_pairs [OF assms(7)] mset_eq_setD [OF assms(9)] by (simp add: pg_leaf_pairs_def)
  have ids2: "distinct (map row_id rs2)"
    using assms(8,9) by (metis mset_eq_imp_distinct_iff mset_map)
  show ?thesis
  proof
    assume le: "length events \<le> 10"
    then have "set (stored_entries B t db') = set (stream_entries H events)"
      using contents surviving_all [of "stream_entries H events"] by simp
    then have eq: "set (bolt_leaf_pairs (stored_entries B t db')) = set (pg_leaf_pairs H rs2)"
      using pairs by (simp only: set_bolt_leaf_pairs)
    show "bolt_leaf_map B t db' = pg_leaf_map H rs2"
      unfolding bolt_leaf_map_def pg_leaf_map_def
      by (rule map_of_assign_all_cong [OF _ eq]) (simp only: eq inj_on_pg_leaf_pairs [OF ids2])
  next
    assume eq: "bolt_leaf_map B t db' = pg_leaf_map H rs2"
    have "length events = length rs2"
      using list_all2_lengthD [OF assms(7)] mset_eq_length [OF assms(9)] by simp
    also have "\<dots> = card (row_id ` set rs2)" using distinct_card [OF ids2] by simp
    also have "\<dots> = card (dom (pg_leaf_map H rs2))"
      by (simp add: pg_leaf_map_def dom_assign_all pg_leaf_pairs_def image_image)
    also have "\<dots> = card (dom (bolt_leaf_map B t db'))" using eq by simp
    also have "\<dots> \<le> length (stored_entries B t db')"
      by (simp add: bolt_leaf_map_def dom_assign_all set_bolt_leaf_pairs)
        (meson card_image_le card_length finite_imageI le_trans List.finite_set)
    finally show "length events \<le> 10" using contents by simp
  qed
qed

end

text \<open>The hash of a record is hexadecimal, so that it can be stored as it is.\<close>

lemma byte_hex_digit: "n < 16 \<Longrightarrow> byte (hex_digit n) < 128"
  by (simp add: of_char_hex_digit)

lemma hex_encode_ascii: "c \<in> set (hex_encode bs) \<Longrightarrow> byte c < 128"
proof (induction bs)
  case (Cons b bs)
  have "(of_char b :: nat) < 256" by (rule of_char_less_256)
  then have "(of_char b :: nat) div 16 < 16" by (intro less_mult_imp_div_less) simp
  then have "byte (hex_digit (of_char b div 16)) < 128" "byte (hex_digit (of_char b mod 16)) < 128"
    by (auto intro: byte_hex_digit)
  with Cons show ?case by auto
qed simp

lemma utf8_Hasher_Hash: "valid_utf8 (Hasher_Hash ds g x)"
  by (cases g) (auto intro!: valid_utf8_ascii dest: hex_encode_ascii)

lemma valid_utf8_Hasher: "valid_utf8 (CalculateDataHash (Hasher_Hash ds g) m)"
  unfolding CalculateDataHash_def by (rule utf8_Hasher_Hash)

section \<open>Properties\<close>

text \<open>Databases that answer every query with given rows.\<close>

definition sample_pg :: "(string \<times> goval) list list \<Rightarrow> pg" where
  "sample_pg rs = \<lparr>pg_Connect = (\<lambda>_. Inr ()), pg_Query = (\<lambda>_. Inr (map Inr rs))\<rparr>"

definition sample_row :: "nat \<Rightarrow> (string \<times> goval) list" where
  "sample_row n = [(''id'', GString (replicate n (CHR ''1'')))]"

lemma query_sample: "query_table v (sample_pg rs) t = Inr (map Inr rs)"
  by (simp add: query_table_def sample_pg_def)

lemma row_sample: "row_id (sample_row n) = replicate n (CHR ''1'')"
  "fst (row_record (sample_row n)) = [(''id'', GString (replicate n (CHR ''1'')))]"
  by (simp_all add: row_id_def row_record_def sample_row_def)

lemma distinct_singleton: "distinct xs \<Longrightarrow> set xs = {x} \<Longrightarrow> xs = [x]"
  by (cases xs; cases "tl xs") auto

lemma find_id_map: "find_id (''map['' @ ''id:'' @ rest) = (if rest = [] then None else Some rest)"
  by (cases rest) simp_all

lemma extractID_single:
  assumes "CHR '']'' \<notin> set (fmt_v val)" "CHR '' '' \<notin> set (fmt_v val)"
  shows "extractIDFromRecordID (fmt_v_map [(''id'', val)]) = fmt_v val"
proof -
  have m: "fmt_v_map [(''id'', val)] = ''map['' @ ''id:'' @ fmt_v val @ '']''" by (simp add: fmt_v_map_def)
  have "takeWhile (\<lambda>c. c \<noteq> CHR '']'' \<and> c \<noteq> CHR '' '') (fmt_v val @ '']'') = fmt_v val"
    using assms by (subst takeWhile_append2) auto
  then show ?thesis
    unfolding extractIDFromRecordID_def m find_id_map by simp
qed

lemma captured_sample: "captured H (sample_insert n) (sample_row n)"
  using extractID_single [of "GString (replicate n (CHR ''1''))"]
  by (simp add: captured_def sample_insert_def row_sample row_hash_def)

text \<open>
  A reading of the table: its rows, or the error of connecting, of the query, or of the first
  row that cannot be scanned.
\<close>

fun scan_rows :: "pg_row list \<Rightarrow> (string \<times> goval) list list result" where
  "scan_rows [] = Inr []"
| "scan_rows (Inl err # rows) = Inl (Wrapf ''failed to scan row'' err)"
| "scan_rows (Inr row # rows) = bind_res (scan_rows rows) (\<lambda>rs. Inr (row # rs))"

definition table_read :: "'db MerkleVerifier \<Rightarrow> pg \<Rightarrow> string \<Rightarrow> (string \<times> goval) list list result" where
  "table_read v pg t = bind_res (query_table v pg t) scan_rows"

lemma scan_rows_Inr: "scan_rows rows = Inr rs \<Longrightarrow> rows = map Inr rs"
  by (induction rows arbitrary: rs rule: scan_rows.induct) (auto simp: bind_res_eq_Inr_iff)

lemma scan_rows_Inl:
  assumes "scan_rows rows = Inl err"
  shows "pg_root_loop H rows b n = Inl err" "pg_leaf_loop H rows acc = Inl err"
proof -
  have "\<forall>b n acc. pg_root_loop H rows b n = Inl err \<and> pg_leaf_loop H rows acc = Inl err"
    using assms
  proof (induction rows rule: scan_rows.induct)
    case (3 row rows)
    then have "scan_rows rows = Inl err" by (cases "scan_rows rows") auto
    with "3.IH" show ?case by (auto simp: Let_def split: prod.splits)
  qed simp_all
  then show "pg_root_loop H rows b n = Inl err" "pg_leaf_loop H rows acc = Inl err" by blast+
qed

lemma table_read_Inr: "table_read v pg t = Inr rs \<Longrightarrow> query_table v pg t = Inr (map Inr rs)"
  using scan_rows_Inr by (auto simp: table_read_def bind_res_eq_Inr_iff)

lemma table_read_Inl:
  assumes "table_read v pg t = Inl err"
  shows "calculateCurrentMerkleRootFromPG H v pg t = Some (Inl err)" "buildLeafMapFromPostgreSQL H v pg t = Some (Inl err)"
  using assms scan_rows_Inl
  by (cases "query_table v pg t"; force simp: table_read_def calculateCurrentMerkleRootFromPG_def buildLeafMapFromPostgreSQL_def)+

text \<open>
  What is stored after a verification without alarm: a checkpoint with the number of the latest
  entry of the table, zero if there is none; and how it is stored: through Raft by a node that
  leads, in the local store by any other.
\<close>

definition checkpoint_with ::
    "'db bolt \<Rightarrow> string \<Rightarrow> gotime \<Rightarrow> string \<Rightarrow> string \<Rightarrow> nat \<Rightarrow> (string \<rightharpoonup> string) \<Rightarrow> 'db \<Rightarrow> MerkleCheckpoint \<Rightarrow> bool" where
  "checkpoint_with B alg now t rt n leafs db c \<longleftrightarrow>
     cp_TableName c = t \<and> cp_HashAlgorithm c = alg \<and> cp_Timestamp c = now
     \<and> (\<forall>e. GetLatestHashEntry B t db = Inr e \<longrightarrow> cp_SequenceNum c = SequenceNum e)
     \<and> ((\<exists>err. GetLatestHashEntry B t db = Inl err) \<longrightarrow> cp_SequenceNum c = 0)
     \<and> cp_MerkleRoot c = rt \<and> cp_RecordCount c = int n \<and> map_of (cp_LeafMap c) = leafs"

definition checkpoint_saved ::
    "'db bolt \<Rightarrow> 'db MerkleVerifier \<Rightarrow> MerkleCheckpoint \<Rightarrow> 'db \<Rightarrow> unit result \<Rightarrow> 'db \<Rightarrow> bool" where
  "checkpoint_saved B v c db res db' \<longleftrightarrow>
     (if \<exists>node. mv_raftNode v = Some node \<and> rn_IsLeader node db
      then \<exists>r. rn_ApplyCheckpoint (the (mv_raftNode v)) c db = (r, db')
        \<and> res = wrap ''failed to replicate checkpoint via Raft'' r
      else (res = Inr () \<and> SaveMerkleCheckpoint B c db = Inr db')
        \<or> (\<exists>err. SaveMerkleCheckpoint B c db = Inl err \<and> res = Inl (Wrapf ''failed to save checkpoint'' err) \<and> db' = db))"

lemma createCheckpoint_saved:
  assumes "createCheckpointWithTree B alg now v t rt (int n) tree db = (res, db')"
    and "leafs = (case tree of None \<Rightarrow> Map.empty | Some b \<Rightarrow> map_of (leafDataMap b))"
  shows "\<exists>c. checkpoint_with B alg now t rt n leafs db c \<and> checkpoint_saved B v c db res db'"
proof (intro exI conjI)
  let ?c = "new_checkpoint B alg now t rt (int n) tree db"
  show "checkpoint_with B alg now t rt n leafs db ?c"
    unfolding assms(2) by (auto simp: checkpoint_with_def new_checkpoint_def GetLeafMap_def split: option.split)
  show "checkpoint_saved B v ?c db res db'"
    using assms(1) by (cases "mv_raftNode v")
      (auto simp: createCheckpointWithTree_def checkpoint_saved_def Let_def wrap_def split: sum.splits if_splits prod.splits)
qed

lemma rows_tree_leafs:
  "rows_tree H rs tree \<Longrightarrow> pg_leaf_map H rs = (case tree of None \<Rightarrow> Map.empty | Some b \<Rightarrow> map_of (leafDataMap b))"
  by (auto simp: rows_tree_def pg_leaf_map_def pg_leaf_pairs_def split: option.splits)

text \<open>
  C18. What VerifyTable returns and stores, for every outcome of its readings.
  A failed reading is returned as an error and stores nothing. When nothing is expected, or
  the first reading has the expected root and count, a checkpoint of that reading is stored:
  its root, its count, its map from ids to hashes. Otherwise the second reading is compared
  with the entries: if their maps agree, a checkpoint with its root and without leaves is
  stored; if not, tampering is reported with as many records as the maps differ in, and
  nothing is stored. In every case the call returns.
\<close>

theorem VerifyTable_effect:
  "\<exists>res db'. VerifyTable B H alg now v pg1 pg2 t db = Some (res, db') \<and>
    (case table_read v pg1 t of
       Inl err \<Rightarrow> res = Inl (Wrapf ''failed to calculate actual Merkle Root from PostgreSQL'' err) \<and> db' = db
     | Inr rs1 \<Rightarrow>
         if expected_leaves B t db = [] \<or> roots_agree B H t rs1 db then
           (\<exists>c. checkpoint_with B alg now t (MerkleTree_GetRoot H \<lparr>mt_leaves = map (row_hash H) rs1\<rparr>) (length rs1)
                 (pg_leaf_map H rs1) db c \<and> checkpoint_saved B v c db res db')
         else
           (case table_read v pg2 t of
              Inl err \<Rightarrow> res = Inl (Wrapf ''failed to build actual leaf map'' err) \<and> db' = db
            | Inr rs2 \<Rightarrow>
                if bolt_leaf_map B t db = pg_leaf_map H rs2 then
                  (\<exists>c. checkpoint_with B alg now t (MerkleTree_GetRoot H \<lparr>mt_leaves = map (row_hash H) rs2\<rparr>)
                        (card (dom (pg_leaf_map H rs2))) Map.empty db c \<and> checkpoint_saved B v c db res db')
                else (\<exists>recs. length recs = card {k. bolt_leaf_map B t db k \<noteq> pg_leaf_map H rs2 k}
                        \<and> res = Inl (tampering_detected recs)) \<and> db' = db))"
proof (cases "table_read v pg1 t")
  case (Inl err)
  then show ?thesis using table_read_Inl(1) [OF Inl] by (simp add: VerifyTable_def)
next
  case read1: (Inr rs1)
  obtain tree where tree: "rows_tree H rs1 tree" and r1: "calculateCurrentMerkleRootFromPG H v pg1 t =
     Some (Inr (MerkleTree_GetRoot H \<lparr>mt_leaves = map (row_hash H) rs1\<rparr>, int (length rs1), tree))"
    using pg_root_eq [OF table_read_Inr [OF read1]] by blast
  show ?thesis
  proof (cases "expected_leaves B t db = [] \<or> roots_agree B H t rs1 db")
    case True
    obtain res db' where cc: "createCheckpointWithTree B alg now v t (MerkleTree_GetRoot H \<lparr>mt_leaves = map (row_hash H) rs1\<rparr>)
      (int (length rs1)) tree db = (res, db')" by force
    have "VerifyTable B H alg now v pg1 pg2 t db = Some (res, db')"
      unfolding VerifyTable_def r1 bolt_root_eq using True cc by (auto simp: roots_agree_def)
    with createCheckpoint_saved [OF cc rows_tree_leafs [OF tree]] True read1 show ?thesis by auto
  next
    case False
    then have eq: "VerifyTable B H alg now v pg1 pg2 t db = performDetailedVerification B H alg now v pg2 t db"
      unfolding VerifyTable_def r1 bolt_root_eq by (auto simp: roots_agree_def)
    show ?thesis
    proof (cases "table_read v pg2 t")
      case (Inl err)
      then show ?thesis using False read1 table_read_Inl(2) [OF Inl]
        by (simp add: eq performDetailedVerification_def buildLeafMapFromBoltDB_eq)
    next
      case read2: (Inr rs2)
      obtain recs where recs: "length recs = card {k. bolt_leaf_map B t db k \<noteq> pg_leaf_map H rs2 k}"
        "performDetailedVerification B H alg now v pg2 t db =
          Some (if bolt_leaf_map B t db = pg_leaf_map H rs2
            then createCheckpoint B alg now v t (MerkleTree_GetRoot H \<lparr>mt_leaves = map (row_hash H) rs2\<rparr>)
              (int (card (dom (pg_leaf_map H rs2)))) db
            else (Inl (tampering_detected recs), db))"
        using performDetailedVerification_eq [OF table_read_Inr [OF read2]] by blast
      obtain res db' where cc: "createCheckpoint B alg now v t (MerkleTree_GetRoot H \<lparr>mt_leaves = map (row_hash H) rs2\<rparr>)
              (int (card (dom (pg_leaf_map H rs2)))) db = (res, db')" by force
      from createCheckpoint_saved [OF this [unfolded createCheckpoint_def], of Map.empty] show ?thesis
        using False read1 read2 recs cc unfolding eq by (cases "bolt_leaf_map B t db = pg_leaf_map H rs2") auto
    qed
  qed
qed

text \<open>
  C7. VerifyTable reports tampering exactly if hashes are on record for
  the table, the hashes of the rows it reads first are not the expected ones up to order,
  and the map from ids to hashes of the rows it reads then is not the recorded one. The only
  exception is a collision of the hash function on something it was given.
\<close>

theorem VerifyTable_verdict:
  assumes "digest_sizes ds" "H = Hasher_Hash ds h"
    and "query_table v pg1 t = Inr (map Inr rs1)" "query_table v pg2 t = Inr (map Inr rs2)"
    and "list_all (\<lambda>l. length l = hash_width h) (expected_leaves B t db)"
    and "inj_on H (set (root_inputs H (sort (map (row_hash H) rs1))) \<union> set (root_inputs H (sort (expected_leaves B t db))))"
  shows "reports_tampering (VerifyTable B H alg now v pg1 pg2 t db) \<longleftrightarrow>
    expected_leaves B t db \<noteq> [] \<and> mset (map (row_hash H) rs1) \<noteq> mset (expected_leaves B t db)
      \<and> bolt_leaf_map B t db \<noteq> pg_leaf_map H rs2"
proof -
  have "fixed_width H (hash_width h)" unfolding assms(2) by (rule fixed_width_Hasher [OF assms(1)])
  from roots_agree_mset [OF this assms(5,6)] VerifyTable_reports [OF assms(3,4)] show ?thesis by simp
qed

text \<open>A recorded row that is gone is reported.\<close>

theorem VerifyTable_verdict_witness:
  "\<exists>db. SaveHashEntry mem_bolt (sample_entry\<lparr>DataHash := sample_leaf (CHR ''0'')\<rparr>) [] = Inr db
     \<and> reports_tampering (VerifyTable mem_bolt (Hasher_Hash sample_digests sha256Hasher) ''sha256'' ''2024''
         (NewMerkleVerifier ''pg'') (sample_pg []) (sample_pg []) ''logs'' db)"
proof -
  let ?e = "sample_entry\<lparr>DataHash := sample_leaf (CHR ''0'')\<rparr>" and ?H = "Hasher_Hash sample_digests sha256Hasher"
  have ok: "entry_ok ?e"
    by (simp add: sample_entry_def entry_ok_def entry_utf8_def table_ok_def sample_leaf_def valid_utf8_literal
        list_all_iff set_replicate_conv_if)
  have "\<exists>db. SaveHashEntry mem_bolt ?e [] = Inr db"
    by (rule mem.SaveHashEntry_ok) (simp_all add: sample_entry_def entry_size_def sample_leaf_def)
  then obtain db where s: "SaveHashEntry mem_bolt ?e [] = Inr db" by blast
  have t: "table_ok ''logs''" "TableName ?e = ''logs''" by (simp_all add: table_ok_def sample_entry_def)
  have inv: "store_inv mem_bolt db" by (rule mem.SaveHashEntry_inv [OF store_inv_empty ok s])
  have es: "set (stored_entries mem_bolt ''logs'' db) = {?e}"
    using mem.stored_entries_save [OF store_inv_empty ok s t(1)] t(2) stored_entries_empty by simp
  have "distinct (stored_entries mem_bolt ''logs'' db)" by (rule mem.store.entries_distinct(2) [OF inv t(1)])
  then have es': "stored_entries mem_bolt ''logs'' db = [?e]" using es
    by (rule distinct_singleton)
  have "GetLatestMerkleCheckpoint mem_bolt ''logs'' [] = Inl (Errorf (''no checkpoints found for table '' @ ''logs''))"
    by (simp add: GetLatestMerkleCheckpoint_def mem_bolt_def mem_bucket_def scan_prefix_def)
  then have ex: "expected_leaves mem_bolt ''logs'' db = [sample_leaf (CHR ''0'')]"
    using mem.SaveHashEntry_checkpoint [OF s, of "''logs''"] es' by (simp add: expected_leaves_def Let_def)
  have "bolt_leaf_map mem_bolt ''logs'' db \<noteq> pg_leaf_map ?H []"
    by (simp add: bolt_leaf_map_def pg_leaf_map_def es' bolt_leaf_pairs_def pg_leaf_pairs_def fun_eq_iff)
  moreover have "reports_tampering (VerifyTable mem_bolt ?H ''sha256'' ''2024''
      (NewMerkleVerifier ''pg'') (sample_pg []) (sample_pg []) ''logs'' db) \<longleftrightarrow>
    expected_leaves mem_bolt ''logs'' db \<noteq> [] \<and> mset (map (row_hash ?H) []) \<noteq> mset (expected_leaves mem_bolt ''logs'' db)
      \<and> bolt_leaf_map mem_bolt ''logs'' db \<noteq> pg_leaf_map ?H []"
    by (rule VerifyTable_verdict [OF digest_sizes_sample refl query_sample query_sample])
      (simp_all add: ex sample_leaf_def)
  ultimately show ?thesis using s ex by auto
qed



text \<open>
  Rows that only the latest checkpoint knows are not compared one by one: when such rows are
  gone, and what remains in the table is what the entries record, VerifyTable reports nothing,
  although the hashes of these rows are among those it expects.
\<close>

theorem checkpoint_rows_unchecked:
  assumes "query_table v pg1 t = Inr (map Inr rs1)" "query_table v pg2 t = Inr (map Inr rs2)"
    and "GetLatestMerkleCheckpoint B t db = Inr c" "map_of (cp_LeafMap c) k = Some x" "pg_leaf_map H rs2 k = None"
    and "k \<notin> RecordID ` set (stored_entries B t db)" "bolt_leaf_map B t db = pg_leaf_map H rs2"
  shows "x \<in> set (expected_leaves B t db) \<and> \<not> reports_tampering (VerifyTable B H alg now v pg1 pg2 t db)"
proof
  have "map_of (checkpoint_leaves c (stored_entries B t db)) k = Some x"
    using checkpoint_leaves_kept [OF assms(6)] assms(4) by simp
  then show "x \<in> set (expected_leaves B t db)"
    using assms(3,4) by (force simp: expected_leaves_def Let_def dest: map_of_SomeD)
  show "\<not> reports_tampering (VerifyTable B H alg now v pg1 pg2 t db)"
    using VerifyTable_reports [OF assms(1,2)] assms(7) by blast
qed

text \<open>A checkpoint of two rows, no entries, and an emptied table.\<close>

theorem checkpoint_rows_unchecked_witness:
  "\<exists>db c. SaveMerkleCheckpoint mem_bolt sample_checkpoint [] = Inr db
     \<and> GetLatestMerkleCheckpoint mem_bolt ''logs'' db = Inr c \<and> map_of (cp_LeafMap c) ''1'' = Some ''aa''
     \<and> \<not> reports_tampering (VerifyTable mem_bolt sample_hash ''sha256'' ''2024'' (NewMerkleVerifier ''pg'')
          (sample_pg []) (sample_pg []) ''logs'' db)"
proof -
  obtain db where s: "SaveMerkleCheckpoint mem_bolt sample_checkpoint [] = Inr db" using sample_checkpoint_saved by blast
  have t: "cp_TableName sample_checkpoint = ''logs''" by (simp add: sample_checkpoint_def)
  have "GetLatestMerkleCheckpoint mem_bolt (cp_TableName sample_checkpoint) db = Inr (checkpoint_norm sample_checkpoint)"
    by (rule saved_checkpoint_latest [OF mem.bolt_store_axioms sample_checkpoint_ok s]) (simp add: mem_bolt_def mem_bucket_def)
  then have c: "GetLatestMerkleCheckpoint mem_bolt ''logs'' db = Inr (checkpoint_norm sample_checkpoint)" by (simp add: t)
  have "bolt_get mem_bolt db HashChainBucket = bolt_get mem_bolt [] HashChainBucket"
    using s mem.Update_put_get by (auto simp: SaveMerkleCheckpoint_def HashChainBucket_def MerkleCheckpointBucket_def fun_eq_iff)
  from mem.pairs_cong [OF this] have es: "stored_entries mem_bolt ''logs'' db = []"
    using stored_entries_empty [of "''logs''"] by (simp add: stored_entries_def)
  have maps: "bolt_leaf_map mem_bolt ''logs'' db = pg_leaf_map sample_hash []"
    by (simp add: es bolt_leaf_map_def pg_leaf_map_def bolt_leaf_pairs_def pg_leaf_pairs_def)
  have k: "map_of (cp_LeafMap (checkpoint_norm sample_checkpoint)) ''1'' = Some ''aa''"
    by (simp add: checkpoint_norm_def sample_checkpoint_def map_of_sort_key)
  have none: "pg_leaf_map sample_hash [] ''1'' = None" by (simp add: pg_leaf_map_def pg_leaf_pairs_def)
  have only: "''1'' \<notin> RecordID ` set (stored_entries mem_bolt ''logs'' db)" using es by simp
  from checkpoint_rows_unchecked [OF query_sample query_sample c k none only maps] s c k show ?thesis by blast
qed

text \<open>
  From the record id of an insertion whose primary key is the single
  column id, extractIDFromRecordID gives back the value of the key, if its text has no space
  and no closing bracket.
\<close>

theorem extractID_roundtrip:
  assumes "CHR '']'' \<notin> set (fmt_v val)" "CHR '' '' \<notin> set (fmt_v val)" "ev_PrimaryKey event = [(''id'', val)]"
  shows "extractIDFromRecordID (RecordID (make_entry H now event n)) = fmt_v val"
  using extractID_single [OF assms(1,2)] assms(3) by (simp add: make_entry_def)

theorem extractID_roundtrip_witness:
  "extractIDFromRecordID (RecordID (make_entry sample_hash ''2024'' (snd (sample_insert 2)) 1)) = ''11''"
  using extractID_roundtrip [of "GString ''11''" "snd (sample_insert 2)" sample_hash "''2024''" 1]
  by (simp add: sample_insert_def numeral_2_eq_2)

text \<open>
  The search takes the first column whose name ends in id: of a
  primary key with the columns a_id and id it is the value of a_id that is extracted, not
  that of id, by which the rows of the table are identified.
\<close>

theorem extractID_first_match:
  assumes "CHR '']'' \<notin> set (fmt_v u)" "CHR '' '' \<notin> set (fmt_v u)"
  shows "extractIDFromRecordID (fmt_v_map [(''id'', val), (''a_id'', u)]) = fmt_v u"
proof -
  have "sort_key fst [(''id'', val), (''a_id'', u)] = [(''a_id'', u), (''id'', val)]"
    by (simp add: less_char_def)
  then have m: "fmt_v_map [(''id'', val), (''a_id'', u)] =
      ''map[a_'' @ ''id:'' @ fmt_v u @ CHR '' '' # ''id:'' @ fmt_v val @ '']''" by (simp add: fmt_v_map_def)
  have "takeWhile (\<lambda>c. c \<noteq> CHR '']'' \<and> c \<noteq> CHR '' '') (fmt_v u @ CHR '' '' # ''id:'' @ fmt_v val @ '']'') = fmt_v u"
    using assms by (subst takeWhile_append2) auto
  then show ?thesis unfolding extractIDFromRecordID_def m by simp
qed

theorem extractID_first_match_witness:
  "extractIDFromRecordID (fmt_v_map [(''id'', GString ''7''), (''a_id'', GString ''x'')]) = ''x''"
  using extractID_first_match [of "GString ''x''" "GString ''7''"] by simp

end
