(* ===== verification/Monitor.thy ===== *)
theory Monitor
  imports Verifier
begin

text \<open>
  The handler of handler.go and the verifier of merkle_verifier.go at work on the same store:
  a table is verified once when it holds the rows \<open>base\<close>, and from then on rows are inserted
  and captured, the table is verified again from time to time, and the same goes on for other
  tables. The reachable states are those of the inductive predicate \<open>monitored\<close>; by rule
  induction the latest checkpoint and the entries after it describe the table exactly, as
  long as at most nine rows have been captured. From there on the numbering of entries fails
  (theory Handler).
\<close>

section \<open>Runs\<close>

text \<open>Nothing is stored for the table yet.\<close>

definition fresh_table :: "'db bolt \<Rightarrow> string \<Rightarrow> 'db \<Rightarrow> bool" where
  "fresh_table B t db \<longleftrightarrow> store_inv B db \<and> stored_entries B t db = []
     \<and> (\<forall>k val. bolt_get B db MerkleCheckpointBucket k = Some val \<longrightarrow> \<not> has_prefix (t @ '':'') k)"

text \<open>The id of a row is text that no rendering of a primary key can be confused with.\<close>

definition id_ok :: "(string \<times> goval) list \<Rightarrow> bool" where
  "id_ok row \<longleftrightarrow> valid_utf8 (row_id row) \<and> take 4 (row_id row) \<noteq> ''map[''"

text \<open>The verifier stores its checkpoints itself: there is no Raft node, or it never leads.\<close>

definition local_checkpoints :: "'db MerkleVerifier \<Rightarrow> bool" where
  "local_checkpoints v \<longleftrightarrow> (case mv_raftNode v of None \<Rightarrow> True | Some node \<Rightarrow> \<forall>db. \<not> rn_IsLeader node db)"

text \<open>Both reads of the table find the given rows, in any order.\<close>

definition reads_rows :: "'db MerkleVerifier \<Rightarrow> pg \<Rightarrow> pg \<Rightarrow> string \<Rightarrow> (string \<times> goval) list list \<Rightarrow> bool" where
  "reads_rows v pg1 pg2 t rs \<longleftrightarrow>
     (\<exists>rs1 rs2. query_table v pg1 t = Inr (map Inr rs1) \<and> mset rs1 = mset rs
        \<and> query_table v pg2 t = Inr (map Inr rs2) \<and> mset rs2 = mset rs)"

inductive monitored ::
    "'db bolt \<Rightarrow> (string \<Rightarrow> string) \<Rightarrow> string \<Rightarrow> HashChainHandler \<Rightarrow> 'db MerkleVerifier \<Rightarrow> string \<Rightarrow>
     (string \<times> goval) list list \<Rightarrow> 'db \<Rightarrow> (string \<times> goval) list list \<Rightarrow> bool"
  for B H alg h v t base where
  start: "fresh_table B t db \<Longrightarrow> list_all id_ok base \<Longrightarrow> distinct (map row_id base) \<Longrightarrow> length base < 2 ^ 62 \<Longrightarrow>
    valid_utf8 now \<Longrightarrow> reads_rows v pg1 pg2 t base \<Longrightarrow>
    VerifyTable B H alg now v pg1 pg2 t db = Some (Inr (), db') \<Longrightarrow> monitored B H alg h v t base db' []"
| insert: "monitored B H alg h v t base db rs \<Longrightarrow>
    insertion H h t (now, event) \<Longrightarrow> captured H (now, event) row \<Longrightarrow> id_ok row \<Longrightarrow>
    row_id row \<notin> row_id ` set (base @ rs) \<Longrightarrow>
    Handler_HandleChange B H now h event db = Inr db' \<Longrightarrow> monitored B H alg h v t base db' (rs @ [row])"
| verify: "monitored B H alg h v t base db rs \<Longrightarrow>
    valid_utf8 now \<Longrightarrow> reads_rows v pg1 pg2 t (base @ rs) \<Longrightarrow>
    VerifyTable B H alg now v pg1 pg2 t db = Some (r, db') \<Longrightarrow> monitored B H alg h v t base db' rs"
| insert_other: "monitored B H alg h v t base db rs \<Longrightarrow> t' \<noteq> t \<Longrightarrow>
    insertion H h t' (now, event) \<Longrightarrow>
    Handler_HandleChange B H now h event db = Inr db' \<Longrightarrow> monitored B H alg h v t base db' rs"
| verify_other: "monitored B H alg h v t base db rs \<Longrightarrow> t' \<noteq> t \<Longrightarrow> table_ok t' \<Longrightarrow>
    VerifyTable B H alg now v pg1 pg2 t' db = Some (r, db') \<Longrightarrow> monitored B H alg h v t base db' rs"

section \<open>Leaf maps\<close>

lemma checkpoint_leaves_assign:
  "checkpoint_leaves c es =
     assign_all (map (\<lambda>e. (RecordID e, DataHash e)) (filter (\<lambda>e. cp_SequenceNum c < SequenceNum e) es)) (cp_LeafMap c)"
proof -
  have "foldl (\<lambda>leafMap entry. if cp_SequenceNum c < SequenceNum entry
        then AList.update (RecordID entry) (DataHash entry) leafMap else leafMap) m es =
      assign_all (map (\<lambda>e. (RecordID e, DataHash e)) (filter (\<lambda>e. cp_SequenceNum c < SequenceNum e) es)) m" for m
    by (induction es arbitrary: m) simp_all
  then show ?thesis by (simp add: checkpoint_leaves_def)
qed

lemma assign_rows:
  "distinct (map row_id rs) \<Longrightarrow> assign_all (pg_leaf_pairs H rs) [] = pg_leaf_pairs H rs"
  by (subst assign_all_fresh) (simp_all add: pg_leaf_pairs_def comp_def)

lemma stream_after:
  "length events \<le> 10 \<Longrightarrow> filter (\<lambda>e. m < unat (SequenceNum e)) (stream_entries H events) = drop m (stream_entries H events)"
proof (induction events rule: rev_induct)
  case (snoc e events)
  then have "unat (of_nat (chain_number (Suc (length events))) :: 64 word) = Suc (length events)"
    by (simp only: unat_chain_number) (simp add: chain_number_def)
  with snoc show ?case by (auto simp: stream_entries_snoc make_entry_def)
qed (simp add: stream_entries_def)

lemma stream_hashes:
  "list_all2 (captured H) events rs \<Longrightarrow> map DataHash (stream_entries H events) = map (row_hash H) rs"
  using arg_cong [OF stream_pairs, of H events rs "map snd"] by (simp add: bolt_leaf_pairs_def pg_leaf_pairs_def comp_def)

lemma stream_ids:
  assumes "list_all2 (captured H) events rs" "distinct (map row_id rs)"
  shows "distinct (map RecordID (stream_entries H events))"
proof -
  have "map extractIDFromRecordID (map RecordID (stream_entries H events)) = map row_id rs"
    using arg_cong [OF stream_pairs [OF assms(1)], of "map fst"] by (simp add: bolt_leaf_pairs_def pg_leaf_pairs_def comp_def)
  then show ?thesis using assms(2) by (metis distinct_map)
qed

lemma stream_id_prefix: "e \<in> set (stream_entries H events) \<Longrightarrow> take 4 (RecordID e) = ''map[''"
  by (auto simp: stream_entries_def make_entry_def fmt_v_map_def)

section \<open>What is expected\<close>

context bolt_store
begin

lemma chain_mset:
  assumes "chain_of H t events db" "table_ok t" "length events \<le> 10"
  shows "mset (stored_entries B t db) = mset (stream_entries H events)"
proof -
  have inv: "store_inv B db" using assms(1) by (simp add: chain_of_def)
  have set_eq: "set (stored_entries B t db) = set (stream_entries H events)"
    using assms(1,3) surviving_all [of "stream_entries H events"] by (simp add: chain_of_def)
  have dist: "distinct (stored_entries B t db)" by (rule store.entries_distinct(2) [OF inv assms(2)])
  have "length (stored_entries B t db) = length (stream_entries H events)"
    using store.card_numbers [OF inv assms(2)] assms(1,3) by (simp add: chain_of_def)
  with set_eq dist have "distinct (stream_entries H events)" by (metis card_distinct distinct_card)
  with set_eq dist show ?thesis using set_eq_iff_mset_eq_distinct by blast
qed

text \<open>
  The latest checkpoint has the rows of some moment before, and its number is the number of
  rows that had been captured then.
\<close>

definition checkpoint_of ::
    "(string \<Rightarrow> string) \<Rightarrow> string \<Rightarrow> (string \<times> goval) list list \<Rightarrow> (string \<times> goval) list list \<Rightarrow> 'db \<Rightarrow> bool" where
  "checkpoint_of H t base rs db \<longleftrightarrow>
     (\<forall>k val. bolt_get B db MerkleCheckpointBucket k = Some val \<and> has_prefix (t @ '':'') k \<longrightarrow> (\<exists>n \<le> length rs. k = seq_key t n))
     \<and> (\<exists>c. GetLatestMerkleCheckpoint B t db = Inr c \<and> unat (cp_SequenceNum c) \<le> length rs
          \<and> mset (cp_LeafMap c) = mset (pg_leaf_pairs H (base @ take (unat (cp_SequenceNum c)) rs)))"

definition mon_inv ::
    "(string \<Rightarrow> string) \<Rightarrow> string \<Rightarrow> (string \<times> goval) list list \<Rightarrow> 'db \<Rightarrow> (string \<times> goval) list list \<Rightarrow> bool" where
  "mon_inv H t base db rs \<longleftrightarrow>
     (\<exists>events. chain_of H t events db \<and> list_all2 (captured H) events rs)
     \<and> list_all id_ok (base @ rs) \<and> distinct (map row_id (base @ rs)) \<and> length base < 2 ^ 62
     \<and> checkpoint_of H t base rs db"

lemma checkpoint_leaves_mset:
  assumes "mset es = mset (stream_entries H events)" "length events \<le> 10" "list_all2 (captured H) events rs"
    and "list_all id_ok base" "distinct (map row_id rs)"
    and "mset (cp_LeafMap c) = mset (pg_leaf_pairs H base)" "distinct (map row_id base)"
  shows "mset (map snd (checkpoint_leaves c es)) =
    mset (map (row_hash H) base) + mset (drop (unat (cp_SequenceNum c)) (map (row_hash H) rs))"
proof -
  let ?P = "\<lambda>e. cp_SequenceNum c < SequenceNum e" and ?kv = "\<lambda>e. (RecordID e, DataHash e)"
  have "mset (map RecordID es) = mset (map RecordID (stream_entries H events))" using assms(1) by simp
  then have "distinct (map RecordID es)"
    using stream_ids [OF assms(3,5)] mset_eq_imp_distinct_iff by blast
  then have "distinct (map fst (map ?kv (filter ?P es)))" by (simp add: comp_def distinct_map_filter)
  moreover have "fst ` set (map ?kv (filter ?P es)) \<inter> fst ` set (cp_LeafMap c) = {}"
  proof -
    have "take 4 k = ''map[''" if "k \<in> fst ` set (map ?kv (filter ?P es))" for k
      using that stream_id_prefix [of _ H events] mset_eq_setD [OF assms(1)] by auto
    moreover have "take 4 k \<noteq> ''map[''" if "k \<in> fst ` set (cp_LeafMap c)" for k
      using that assms(4) mset_eq_setD [OF assms(6)] by (auto simp: pg_leaf_pairs_def list_all_iff id_ok_def)
    ultimately show ?thesis by blast
  qed
  moreover have "gomap_ok (cp_LeafMap c)"
  proof -
    have "mset (map fst (cp_LeafMap c)) = mset (map row_id base)"
      using arg_cong [OF assms(6), of "image_mset fst"] by (simp add: pg_leaf_pairs_def multiset.map_comp comp_def)
    from mset_eq_imp_distinct_iff [OF this] assms(7) show ?thesis by simp
  qed
  ultimately have "checkpoint_leaves c es = cp_LeafMap c @ map ?kv (filter ?P es)"
    unfolding checkpoint_leaves_assign by (intro assign_all_fresh) (simp add: Int_commute del: map_map)
  moreover have "mset (map snd (cp_LeafMap c)) = mset (map (row_hash H) base)"
    using arg_cong [OF assms(6), of "image_mset snd"] by (simp add: pg_leaf_pairs_def multiset.map_comp comp_def)
  moreover have "mset (filter ?P es) = mset (filter ?P (stream_entries H events))" using assms(1) by simp
  then have "mset (filter ?P es) = mset (drop (unat (cp_SequenceNum c)) (stream_entries H events))"
    unfolding word_less_nat_alt stream_after [OF assms(2)] .
  from arg_cong [OF this, of "image_mset DataHash"]
  have "mset (map DataHash (filter ?P es)) = mset (drop (unat (cp_SequenceNum c)) (map (row_hash H) rs))"
    by (simp only: mset_map [symmetric] drop_map [symmetric] stream_hashes [OF assms(3)])
  ultimately show ?thesis by (simp add: comp_def)
qed

lemma mon_expected:
  assumes "mon_inv H t base db rs" "table_ok t" "length rs \<le> 10"
  shows "mset (expected_leaves B t db) = mset (map (row_hash H) (base @ rs))"
proof -
  obtain events where ev: "chain_of H t events db" "list_all2 (captured H) events rs"
    and ids: "list_all id_ok (base @ rs)" "distinct (map row_id (base @ rs))"
    and cp: "checkpoint_of H t base rs db" using assms(1) by (auto simp: mon_inv_def)
  obtain c where c: "GetLatestMerkleCheckpoint B t db = Inr c"
    "mset (cp_LeafMap c) = mset (pg_leaf_pairs H (base @ take (unat (cp_SequenceNum c)) rs))"
    "unat (cp_SequenceNum c) \<le> length rs"
    using cp by (auto simp: checkpoint_of_def)
  let ?m = "unat (cp_SequenceNum c)"
  have len: "length events \<le> 10" using list_all2_lengthD [OF ev(2)] assms(3) by simp
  note es = chain_mset [OF ev(1) assms(2) len]
  show ?thesis
  proof (cases "cp_LeafMap c = []")
    case True
    then have "base = []" using c(2) by (simp add: pg_leaf_pairs_def)
    moreover have "expected_leaves B t db = map DataHash (stored_entries B t db)" using c(1) True by (simp add: expected_leaves_def Let_def)
    moreover have "mset (map DataHash (stored_entries B t db)) = mset (map (row_hash H) rs)"
      using arg_cong [OF es, of "image_mset DataHash"] by (simp only: mset_map [symmetric] stream_hashes [OF ev(2)])
    ultimately show ?thesis by simp
  next
    case False
    have ids': "list_all id_ok (base @ take ?m rs)" "distinct (map row_id rs)"
      using ids by (auto simp: list_all_iff dest: in_set_takeD)
    have "base @ take ?m rs = take (length base + ?m) (base @ rs)" by simp
    then have dist: "distinct (map row_id (base @ take ?m rs))" using ids(2) by (simp only: take_map [symmetric] distinct_take)
    have "expected_leaves B t db = map snd (checkpoint_leaves c (stored_entries B t db))"
      using c(1) False by (simp add: expected_leaves_def Let_def)
    moreover have "mset (map (row_hash H) (base @ take ?m rs)) + mset (drop ?m (map (row_hash H) rs)) = mset (map (row_hash H) (base @ rs))"
      by (simp add: drop_map take_map flip: mset_append) 
        (metis append_take_drop_id map_append mset_append mset_map union_assoc)
    ultimately show ?thesis
      using checkpoint_leaves_mset [OF es len ev(2) ids' c(2) dist] by simp
  qed
qed

end

section \<open>What is stored\<close>

lemma utf8_path: "(\<And>c. c \<in> set path \<Longrightarrow> byte c < 128) \<Longrightarrow> valid_utf8 path"
  by (rule valid_utf8_ascii)

lemma smap_utf8_update: "smap_utf8 m \<Longrightarrow> valid_utf8 k \<Longrightarrow> valid_utf8 x \<Longrightarrow> smap_utf8 (AList.update k x m)"
  using set_update_subset [of k x m] by (auto simp: smap_utf8_def list_all_iff)

lemma utf8_node:
  "wf_node H r \<Longrightarrow> (\<And>x. valid_utf8 (H x)) \<Longrightarrow> (\<And>l. l \<in> set (leaves_of r) \<Longrightarrow> valid_utf8 l) \<Longrightarrow> valid_utf8 (node_Hash r)"
  by (cases r) auto

lemma utf8_internal:
  assumes "\<And>x. valid_utf8 (H x)"
  shows "wf_node H r \<Longrightarrow> (\<And>l. l \<in> set (leaves_of r) \<Longrightarrow> valid_utf8 l) \<Longrightarrow> (\<And>c. c \<in> set path \<Longrightarrow> byte c < 128) \<Longrightarrow>
    smap_utf8 m \<Longrightarrow> smap_utf8 (collectInternalNodes r path m)"
proof (induction r arbitrary: path m)
  case (Leaf h)
  then show ?case by (simp add: smap_utf8_update utf8_path)
next
  case (Pair h l r)
  have "smap_utf8 (AList.update path h m)" using Pair.prems assms by (intro smap_utf8_update) (auto intro: utf8_path)
  then have "smap_utf8 (collectInternalNodes l (path @ ''/L'') (AList.update path h m))"
    using Pair.prems by (intro Pair.IH(1)) auto
  then have "smap_utf8 (collectInternalNodes r (path @ ''/R'') (collectInternalNodes l (path @ ''/L'') (AList.update path h m)))"
    using Pair.prems by (intro Pair.IH(2)) auto
  then show ?case by simp
next
  case (Twin h c)
  have "smap_utf8 (AList.update path h m)" using Twin.prems assms by (intro smap_utf8_update) (auto intro: utf8_path)
  then have "smap_utf8 (collectInternalNodes c (path @ ''/L'') (AList.update path h m))"
    using Twin.prems by (intro Twin.IH) auto
  then show ?case by simp
qed

lemma gomap_ok_internal: "gomap_ok m \<Longrightarrow> gomap_ok (collectInternalNodes r path m)"
  by (induction r arbitrary: path m) (simp_all add: distinct_update)

lemma GetInternalNodes_ok:
  assumes "\<And>x. valid_utf8 (H x)" "builder_built H b" "\<And>l. l \<in> set (leaves b) \<Longrightarrow> valid_utf8 l"
  shows "smap_utf8 (GetInternalNodes b)" "gomap_ok (GetInternalNodes b)"
proof -
  obtain r where r: "root b = Some r" "wf_node H r" "leaves_of r = sort (leaves b)"
    using assms(2) by (auto simp: builder_built_def)
  have "byte c < 128" if "c \<in> set ''root''" for c using that by auto
  then have "smap_utf8 (collectInternalNodes r ''root'' [])"
    using r assms(3) by (intro utf8_internal [OF assms(1) r(2)]) (auto simp: smap_utf8_def)
  then show "smap_utf8 (GetInternalNodes b)" by (simp add: GetInternalNodes_def r(1))
  show "gomap_ok (GetInternalNodes b)" by (simp add: GetInternalNodes_def r(1) gomap_ok_internal)
qed

text \<open>The checkpoint of the rows that were read can be stored as it is.\<close>

lemma new_checkpoint_ok:
  assumes utf8: "\<And>x. valid_utf8 (H x)" "valid_utf8 t" "valid_utf8 alg" "valid_utf8 now"
    and rows: "rows_tree H rs tree" "list_all id_ok rs" "distinct (map row_id rs)" "length rs < 2 ^ 63"
  shows "checkpoint_ok (new_checkpoint B alg now t (MerkleTree_GetRoot H \<lparr>mt_leaves = map (row_hash H) rs\<rparr>) (int (length rs)) tree db)"
    and "cp_LeafMap (new_checkpoint B alg now t rt n tree db) = pg_leaf_pairs H rs"
proof -
  have hash: "valid_utf8 (row_hash H row)" for row using utf8(1) by (simp add: row_hash_def CalculateDataHash_def)
  have "int (length rs) < 2 ^ 63" using rows(4) by (metis of_nat_less_iff of_nat_numeral of_nat_power)
  have nodes: "smap_utf8 (GetInternalNodes b) \<and> gomap_ok (GetInternalNodes b)" if "tree = Some b" for b
    using GetInternalNodes_ok [of H b] rows(1) that hash utf8(1) by (auto simp: rows_tree_def)
  have root: "valid_utf8 (MerkleTree_GetRoot H \<lparr>mt_leaves = map (row_hash H) rs\<rparr>)"
  proof (cases "rs = []")
    case True
    then show ?thesis by (simp add: MerkleTree_GetRoot_def)
  next
    case False
    let ?b = "NewMerkleTreeBuilder\<lparr>leaves := map (row_hash H) rs\<rparr>"
    have "leaves ?b \<noteq> []" using False by simp
    from Builder_Build_correct [OF this, of H] obtain r where
      "wf_node H r" "leaves_of r = sort (map (row_hash H) rs)" "node_Hash r = calculateRoot H (sort (map (row_hash H) rs))" by auto
    then show ?thesis
      using False utf8_node [of H r] utf8(1) hash by (auto simp: MerkleTree_GetRoot_def)
  qed
  show lm: "cp_LeafMap (new_checkpoint B alg now t rt n tree db) = pg_leaf_pairs H rs" for rt n
  proof (cases tree)
    case None
    then show ?thesis using rows(1) by (simp add: new_checkpoint_def rows_tree_def pg_leaf_pairs_def)
  next
    case (Some b)
    then show ?thesis using rows(1) assign_rows [OF rows(3), of H] by (simp add: new_checkpoint_def rows_tree_def GetLeafMap_def)
  qed
  have "smap_utf8 (pg_leaf_pairs H rs)" "gomap_ok (pg_leaf_pairs H rs)"
    using rows(2,3) hash by (auto simp: pg_leaf_pairs_def smap_utf8_def list_all_iff id_ok_def comp_def)
  with lm [of "MerkleTree_GetRoot H \<lparr>mt_leaves = map (row_hash H) rs\<rparr>" "int (length rs)"] root nodes utf8 \<open>int (length rs) < 2 ^ 63\<close>
  show "checkpoint_ok (new_checkpoint B alg now t (MerkleTree_GetRoot H \<lparr>mt_leaves = map (row_hash H) rs\<rparr>) (int (length rs)) tree db)"
    unfolding checkpoint_ok_def by (auto simp: new_checkpoint_def smap_utf8_def split: option.splits)
qed

section \<open>The invariant is kept\<close>

lemma VerifyTable_store:
  assumes "local_checkpoints v" "VerifyTable B H alg now v pg1 pg2 t db = Some (r, db')"
  shows "db' = db \<or> (\<exists>c. cp_TableName c = t \<and> SaveMerkleCheckpoint B c db = Inr db')"
proof -
  have cc: "d = db \<or> (\<exists>c. cp_TableName c = t \<and> SaveMerkleCheckpoint B c db = Inr d)"
    if "createCheckpointWithTree B alg now v t rt n tree db = (x, d)" for rt n tree x d
    using that assms(1)
    by (auto simp: createCheckpointWithTree_def local_checkpoints_def Let_def new_checkpoint_def wrap_def
        split: option.splits sum.splits if_splits)
  have "d = db \<or> (\<exists>c. cp_TableName c = t \<and> SaveMerkleCheckpoint B c db = Inr d)"
    if "performDetailedVerification B H alg now v pg2 t db = Some (x, d)" for x d
    using that by (auto simp: performDetailedVerification_def createCheckpoint_def Let_def split: sum.splits if_splits dest!: cc)
  note pd = this
  obtain r1 where r1: "calculateCurrentMerkleRootFromPG H v pg1 t = Some r1" using pg_root_some by blast
  show ?thesis
  proof (cases r1)
    case (Inl err)
    with assms(2) r1 show ?thesis by (simp add: VerifyTable_def)
  next
    case (Inr x)
    obtain rt n tree where "x = (rt, n, tree)" by (metis prod.exhaust)
    with assms(2) r1 Inr show ?thesis by (auto simp: VerifyTable_def bolt_root_eq split: if_splits dest!: cc pd)
  qed
qed

context bolt_store
begin

lemma SaveMerkleCheckpoint_get:
  "SaveMerkleCheckpoint B c db = Inr db' \<Longrightarrow> bolt_get B db' b k =
     (if b = MerkleCheckpointBucket \<and> k = checkpoint_key c then Some (marshal_checkpoint c) else bolt_get B db b k)"
  unfolding SaveMerkleCheckpoint_def by (rule Update_put_get)

text \<open>A checkpoint does not touch the entries, and an entry does not touch the checkpoints.\<close>

lemma chain_cong:
  assumes "bolt_get B db' HashChainBucket = bolt_get B db HashChainBucket"
  shows "chain_of H t events db' = chain_of H t events db" "GetLatestHashEntry B t db' = GetLatestHashEntry B t db"
    "store_inv B db' = store_inv B db" "stored_entries B t db' = stored_entries B t db"
  using pairs_cong [OF assms] by (simp_all add: chain_of_def store_inv_def stored_entries_def store.numbers_def GetLatestHashEntry_def)

lemma SaveMerkleCheckpoint_chain:
  "SaveMerkleCheckpoint B c db = Inr db' \<Longrightarrow> bolt_get B db' HashChainBucket = bolt_get B db HashChainBucket"
  using SaveMerkleCheckpoint_get by (auto simp: HashChainBucket_def MerkleCheckpointBucket_def)

lemma SaveHashEntry_checkpoints:
  "SaveHashEntry B e db = Inr db' \<Longrightarrow> bolt_get B db' MerkleCheckpointBucket = bolt_get B db MerkleCheckpointBucket"
  using SaveHashEntry_get by (auto simp: HashChainBucket_def MerkleCheckpointBucket_def)

lemma checkpoint_of_cong:
  assumes "\<And>k. has_prefix (t @ '':'') k \<Longrightarrow> bolt_get B db' MerkleCheckpointBucket k = bolt_get B db MerkleCheckpointBucket k"
  shows "checkpoint_of H t base rs db' = checkpoint_of H t base rs db"
proof -
  have "scan_prefix (t @ '':'') (bolt_pairs B db' MerkleCheckpointBucket) = scan_prefix (t @ '':'') (bolt_pairs B db MerkleCheckpointBucket)"
    (is "?l' = ?l")
  proof (rule map_sorted_distinct_set_unique [where f = fst])
    show "inj_on fst (set ?l' \<union> set ?l)"
      using assms by (auto simp: inj_on_def scan_pairs in_pairs_iff)
    show "set ?l' = set ?l" using assms by (auto simp: scan_pairs in_pairs_iff)
    show "sorted (map fst ?l')" "sorted (map fst ?l)"
      by (simp_all add: scan_pairs sorted_fst_filter pairs_sorted)
    show "distinct (map fst ?l')" "distinct (map fst ?l)"
      using pairs_distinct by (simp_all add: scan_pairs distinct_map_filter)
  qed
  then have "GetLatestMerkleCheckpoint B t db' = GetLatestMerkleCheckpoint B t db" by (simp add: GetLatestMerkleCheckpoint_def)
  with assms show ?thesis unfolding checkpoint_of_def by metis
qed

end

lemma createCheckpoint_local:
  assumes "local_checkpoints v" "createCheckpointWithTree B alg now v t rt n tree db = (r, db')"
  shows "(\<exists>err. r = Inl err \<and> db' = db) \<or> (r = Inr () \<and> SaveMerkleCheckpoint B (new_checkpoint B alg now t rt n tree db) db = Inr db')"
  using assms by (auto simp: createCheckpointWithTree_def local_checkpoints_def Let_def wrap_def split: option.splits sum.splits if_splits)

lemma perm_rows:
  assumes "mset rs = mset rs'"
  shows "length rs = length rs'" "list_all P rs = list_all P rs'" "distinct (map f rs) = distinct (map f rs')"
    "mset (pg_leaf_pairs H rs) = mset (pg_leaf_pairs H rs')" "mset (map g rs) = mset (map g rs')"
proof -
  have "mset (map f rs) = mset (map f rs')" using assms by simp
  then show "distinct (map f rs) = distinct (map f rs')" by (rule mset_eq_imp_distinct_iff)
qed (use assms mset_eq_length [OF assms] mset_eq_setD [OF assms] in \<open>simp_all add: list_all_iff pg_leaf_pairs_def\<close>)

context bolt_store
begin

lemma chain_latest:
  assumes "chain_of H t events db" "table_ok t" "length events \<le> 9"
  shows "unat (cp_SequenceNum (new_checkpoint B alg now t rt n tree db)) = length events"
proof (cases "events = []")
  case True
  then have "stored_entries B t db = []" using assms(1) by (simp add: chain_of_def surviving_def stream_entries_def)
  then show ?thesis using True store.latest_entries [of t db] by (simp add: new_checkpoint_def)
next
  case False
  then have n: "1 \<le> length events" by (simp add: Suc_leI)
  have "store_inv B db" "store.numbers t db = {1..length events}" using assms(1,3) by (auto simp: chain_of_def)
  from store.latest_number [OF this(1) assms(2) this(2) n] obtain e where
    "GetLatestHashEntry B t db = Inr e" "unat (SequenceNum e) = min (length events) 9" using assms(3) by auto
  then show ?thesis using assms(3) by (simp add: new_checkpoint_def)
qed

text \<open>A round of verification that stores its checkpoint brings the invariant about.\<close>

lemma round_saved:
  assumes utf8: "\<And>x. valid_utf8 (H x)" "valid_utf8 t" "valid_utf8 alg" "valid_utf8 now" and t: "table_ok t"
    and chain: "chain_of H t events db" "list_all2 (captured H) events rs" "length rs \<le> 9"
    and rows: "list_all id_ok (base @ rs)" "distinct (map row_id (base @ rs))" "length base < 2 ^ 62"
    and below: "\<And>k val. bolt_get B db MerkleCheckpointBucket k = Some val \<Longrightarrow> has_prefix (t @ '':'') k \<Longrightarrow> \<exists>n \<le> length rs. k = seq_key t n"
    and reading: "rows_tree H rs1 tree" "mset rs1 = mset (base @ rs)"
    and save: "SaveMerkleCheckpoint B (new_checkpoint B alg now t (MerkleTree_GetRoot H \<lparr>mt_leaves = map (row_hash H) rs1\<rparr>)
      (int (length rs1)) tree db) db = Inr db'" (is "SaveMerkleCheckpoint B ?c db = _")
  shows "mon_inv H t base db' rs"
proof -
  note perm = perm_rows [OF reading(2)]
  have rs1: "list_all id_ok rs1" "distinct (map row_id rs1)" "length rs1 < 2 ^ 63"
    using rows chain(3) by (simp_all add: perm(1,2,3))
  have n: "length events = length rs" using chain(2) by (rule list_all2_lengthD)
  have num: "unat (cp_SequenceNum ?c) = length rs" using chain_latest [OF chain(1) t] chain(3) n by simp
  have name: "cp_TableName ?c = t" by (simp add: new_checkpoint_def)
  have "fmt_d m \<le> fmt_d (length rs)" if "m \<le> length rs" for m using that chain(3) by (simp add: fmt_d_le_small)
  with below have "\<forall>k v. bolt_get B db MerkleCheckpointBucket k = Some v \<and> has_prefix (cp_TableName ?c @ '':'') k \<longrightarrow>
      (\<exists>n. k = seq_key (cp_TableName ?c) n \<and> fmt_d n \<le> fmt_d (unat (cp_SequenceNum ?c)))" unfolding num name by blast
  from saved_checkpoint_latest [OF bolt_store_axioms new_checkpoint_ok(1) [OF utf8 reading(1) rs1] save this]
  have "GetLatestMerkleCheckpoint B t db' = Inr (checkpoint_norm ?c)" unfolding name .
  moreover have "mset (cp_LeafMap (checkpoint_norm ?c)) = mset (pg_leaf_pairs H (base @ rs))"
    by (simp add: checkpoint_norm_def new_checkpoint_ok(2) [OF utf8 reading(1) rs1] perm(4))
  moreover have "unat (cp_SequenceNum (checkpoint_norm ?c)) = length rs" using num by (simp add: checkpoint_norm_def)
  moreover have "\<exists>n \<le> length rs. k = seq_key t n"
    if "bolt_get B db' MerkleCheckpointBucket k = Some val" "has_prefix (t @ '':'') k" for k val
    using that below SaveMerkleCheckpoint_get [OF save] num name by (auto simp: checkpoint_key_def split: if_splits)
  ultimately have "checkpoint_of H t base rs db'" by (auto simp: checkpoint_of_def)
  moreover have "chain_of H t events db'" using chain_cong(1) [OF SaveMerkleCheckpoint_chain [OF save]] chain(1) by simp
  ultimately show ?thesis using chain(2) rows by (auto simp: mon_inv_def)
qed

end

context bolt_store
begin

lemma VerifyTable_round:
  assumes "local_checkpoints v" "query_table v pg1 t = Inr (map Inr rs1)" "query_table v pg2 t = Inr (map Inr rs2)"
    and "expected_leaves B t db = [] \<or> mset (map (row_hash H) rs1) = mset (expected_leaves B t db)"
    and "VerifyTable B H alg now v pg1 pg2 t db = Some (r, db')"
  shows "(\<exists>err. r = Inl err \<and> db' = db) \<or> (\<exists>tree. r = Inr () \<and> rows_tree H rs1 tree
    \<and> SaveMerkleCheckpoint B (new_checkpoint B alg now t (MerkleTree_GetRoot H \<lparr>mt_leaves = map (row_hash H) rs1\<rparr>)
        (int (length rs1)) tree db) db = Inr db')"
proof -
  have "expected_leaves B t db = [] \<or> roots_agree B H t rs1 db"
    using assms(4) MerkleTree_GetRoot_perm [of "map (row_hash H) rs1" "expected_leaves B t db" H]
      mset_eq_length [of "map (row_hash H) rs1" "expected_leaves B t db"] by (auto simp: roots_agree_def)
  then obtain tree where "rows_tree H rs1 tree" "createCheckpointWithTree B alg now v t
      (MerkleTree_GetRoot H \<lparr>mt_leaves = map (row_hash H) rs1\<rparr>) (int (length rs1)) tree db = (r, db')"
    using VerifyTable_eq [OF assms(2,3), where B = B and db = db and H = H and alg = alg and now = now] assms(5) by auto
  with createCheckpoint_local [OF assms(1)] show ?thesis by blast
qed

lemma fresh_expected:
  assumes "fresh_table B t db"
  shows "expected_leaves B t db = []"
proof -
  have "scan_prefix (t @ '':'') (bolt_pairs B db MerkleCheckpointBucket) = []"
    using assms by (auto simp: scan_pairs filter_empty_conv in_pairs_iff fresh_table_def)
  then show ?thesis
    using assms by (simp add: expected_leaves_def Let_def GetLatestMerkleCheckpoint_def fresh_table_def)
qed

lemma checkpoint_of_snoc: "checkpoint_of H t base rs db \<Longrightarrow> checkpoint_of H t base (rs @ [row]) db"
proof -
  assume cp: "checkpoint_of H t base rs db"
  then obtain c where "GetLatestMerkleCheckpoint B t db = Inr c" "unat (cp_SequenceNum c) \<le> length rs"
    "mset (cp_LeafMap c) = mset (pg_leaf_pairs H (base @ take (unat (cp_SequenceNum c)) rs))"
    by (auto simp: checkpoint_of_def)
  moreover have "\<exists>n \<le> length (rs @ [row]). k = seq_key t n"
    if "bolt_get B db MerkleCheckpointBucket k = Some val" "has_prefix (t @ '':'') k" for k val
  proof -
    obtain n where "n \<le> length rs" "k = seq_key t n" using cp \<open>bolt_get _ _ _ _ = _\<close> \<open>has_prefix _ _\<close> unfolding checkpoint_of_def by blast
    then show ?thesis by (intro exI [of _ n]) simp
  qed
  ultimately show ?thesis by (simp add: checkpoint_of_def)
qed

lemma mon_insert:
  assumes "handler_inv h" "table_ok t" "mon_inv H t base db rs"
    and "insertion H h t (now, event)" "captured H (now, event) row" "id_ok row" "row_id row \<notin> row_id ` set (base @ rs)"
    and step: "Handler_HandleChange B H now h event db = Inr db'"
  shows "mon_inv H t base db' (rs @ [row])"
proof -
  obtain events where ev: "chain_of H t events db" "list_all2 (captured H) events rs"
    and ids: "list_all id_ok (base @ rs)" "distinct (map row_id (base @ rs))" "length base < 2 ^ 62"
    and cp: "checkpoint_of H t base rs db" using assms(3) by (auto simp: mon_inv_def)
  have chain: "chain_of H t (events @ [(now, event)]) db'"
    using insertion_step [OF assms(1,2) ev(1) assms(4)] step by simp
  have "list_all2 (captured H) (events @ [(now, event)]) (rs @ [row])"
    using ev(2) assms(5) by (simp add: list_all2_appendI)
  moreover have "bolt_get B db' MerkleCheckpointBucket = bolt_get B db MerkleCheckpointBucket"
    using step HandleChange_insertion [OF assms(4), of B db] by (auto intro: SaveHashEntry_checkpoints)
  then have "checkpoint_of H t base rs db'" using cp checkpoint_of_cong [of t db' db] by simp
  then have "checkpoint_of H t base (rs @ [row]) db'" by (rule checkpoint_of_snoc)
  moreover have "list_all id_ok (base @ rs @ [row])" "distinct (map row_id (base @ rs @ [row]))"
    using ids assms(6,7) by auto
  ultimately show ?thesis using chain ids(3) unfolding mon_inv_def by blast
qed

lemma mon_other_insert:
  assumes "handler_inv h" "table_ok t" "mon_inv H t base db rs" "t' \<noteq> t" "insertion H h t' (now, event)"
    and "Handler_HandleChange B H now h event db = Inr db'"
  shows "mon_inv H t base db' rs"
proof -
  let ?x = "make_entry H now event (next_seq (GetLatestHashEntry B t' db))"
  have save: "SaveHashEntry B ?x db = Inr db'" using HandleChange_insertion [OF assms(5), of B db] assms(6) by simp
  have ok: "entry_ok ?x" "TableName ?x = t'" using make_entry_ok [OF assms(1,5)] by auto
  have inv: "store_inv B db" using assms(3) by (auto simp: mon_inv_def chain_of_def)
  have "set (stored_entries B t db') = set (stored_entries B t db)"
    using store.entries_save [OF inv ok(1) save assms(2)] ok(2) assms(4) by simp
  then have "chain_of H t events db \<Longrightarrow> chain_of H t events db'" for events
    using SaveHashEntry_inv [OF inv ok(1) save] by (auto simp: chain_of_def store.numbers_def)
  moreover have "checkpoint_of H t base rs db' = checkpoint_of H t base rs db"
    using SaveHashEntry_checkpoints [OF save] by (intro checkpoint_of_cong) simp
  ultimately show ?thesis using assms(3) by (auto simp: mon_inv_def)
qed

lemma mon_other_verify:
  assumes "table_ok t" "mon_inv H t base db rs" "t' \<noteq> t" "table_ok t'" "local_checkpoints v"
    and "VerifyTable B H alg now v pg1 pg2 t' db = Some (r, db')"
  shows "mon_inv H t base db' rs"
proof (cases "db' = db")
  case False
  then obtain c where c: "cp_TableName c = t'" "SaveMerkleCheckpoint B c db = Inr db'"
    using VerifyTable_store [OF assms(5,6)] by blast
  have "\<not> has_prefix (t @ '':'') (checkpoint_key c)"
    using assms(1,3,4) c(1) by (simp add: checkpoint_key_def has_prefix_seq_key table_ok_def)
  then have "bolt_get B db' MerkleCheckpointBucket k = bolt_get B db MerkleCheckpointBucket k" if "has_prefix (t @ '':'') k" for k
    using that SaveMerkleCheckpoint_get [OF c(2)] by auto
  then have "checkpoint_of H t base rs db' = checkpoint_of H t base rs db" by (rule checkpoint_of_cong)
  with assms(2) show ?thesis using chain_cong(1) [OF SaveMerkleCheckpoint_chain [OF c(2)]] by (simp add: mon_inv_def)
qed (use assms in simp)

text \<open>The invariant of every run with at most nine captured rows.\<close>

lemma monitored_inv:
  assumes "handler_inv h" "table_ok t" "local_checkpoints v"
    and utf8: "\<And>x. valid_utf8 (H x)" "valid_utf8 t" "valid_utf8 alg"
    and "monitored B H alg h v t base db rs"
  shows "length rs \<le> 9 \<Longrightarrow> mon_inv H t base db rs"
  using assms(7)
proof (induction rule: monitored.induct)
  case (start db now pg1 pg2 db')
  obtain rs1 rs2 where rs: "query_table v pg1 t = Inr (map Inr rs1)" "mset rs1 = mset base" "query_table v pg2 t = Inr (map Inr rs2)"
    using start.hyps by (auto simp: reads_rows_def)
  from VerifyTable_round [OF assms(3) rs(1,3) _ start.hyps(7)] fresh_expected [OF start.hyps(1)]
  obtain tree where "rows_tree H rs1 tree" "SaveMerkleCheckpoint B (new_checkpoint B alg now t
      (MerkleTree_GetRoot H \<lparr>mt_leaves = map (row_hash H) rs1\<rparr>) (int (length rs1)) tree db) db = Inr db'" by blast
  moreover have "chain_of H t [] db" using start.hyps(1) chain_of_empty by (simp add: fresh_table_def)
  moreover have "\<exists>n \<le> length []. k = seq_key t n"
    if "bolt_get B db MerkleCheckpointBucket k = Some val" "has_prefix (t @ '':'') k" for k val
    using that start.hyps(1) by (auto simp: fresh_table_def)
  ultimately show ?case
    using round_saved [where events = "[]" and rs = "[]" and base = base, OF utf8 start.hyps(5) assms(2)] start.hyps(2-4) rs(2) by simp
next
  case (insert db rs now event row db')
  then show ?case using mon_insert [OF assms(1,2)] by simp
next
  case (verify db rs now pg1 pg2 r db')
  then have inv: "mon_inv H t base db rs" by simp
  obtain rs1 rs2 where rs: "query_table v pg1 t = Inr (map Inr rs1)" "mset rs1 = mset (base @ rs)" "query_table v pg2 t = Inr (map Inr rs2)"
    using verify.hyps by (auto simp: reads_rows_def)
  have "mset (map (row_hash H) rs1) = mset (expected_leaves B t db)"
    using mon_expected [OF inv assms(2)] verify.prems perm_rows(5) [OF rs(2)] by simp
  from VerifyTable_round [OF assms(3) rs(1,3) _ verify.hyps(4)] this
  consider "db' = db" | tree where "rows_tree H rs1 tree" "SaveMerkleCheckpoint B (new_checkpoint B alg now t
      (MerkleTree_GetRoot H \<lparr>mt_leaves = map (row_hash H) rs1\<rparr>) (int (length rs1)) tree db) db = Inr db'" by blast
  then show ?case
  proof cases
    case 2
    obtain events where "chain_of H t events db" "list_all2 (captured H) events rs"
      and "list_all id_ok (base @ rs)" "distinct (map row_id (base @ rs))" "length base < 2 ^ 62"
      and cp: "checkpoint_of H t base rs db" using inv by (auto simp: mon_inv_def)
    note round = round_saved [OF utf8 verify.hyps(2) assms(2) this(1,2) verify.prems this(3-5)]
    show ?thesis by (rule round [OF _ 2(1) rs(2) 2(2)]) (use cp in \<open>auto simp: checkpoint_of_def\<close>)
  qed (use inv in simp)
next
  case (insert_other db rs t' now event db')
  then show ?case using mon_other_insert [OF assms(1,2)] by blast
next
  case (verify_other db rs t' now pg1 pg2 r db')
  then show ?case using mon_other_verify [OF assms(2) _ _ _ assms(3)] by blast
qed

end

context bolt_store
begin

lemma mon_leaf_map:
  assumes "mon_inv H t base db rs" "table_ok t" "length rs \<le> 10"
  shows "bolt_leaf_map B t db = pg_leaf_map H rs"
proof -
  obtain events where ev: "chain_of H t events db" "list_all2 (captured H) events rs"
    and ids: "distinct (map row_id (base @ rs))" using assms(1) by (auto simp: mon_inv_def)
  have "mset (stored_entries B t db) = mset (stream_entries H events)"
    using chain_mset [OF ev(1) assms(2)] list_all2_lengthD [OF ev(2)] assms(3) by simp
  from mset_eq_setD [OF this] have pairs: "set (bolt_leaf_pairs (stored_entries B t db)) = set (pg_leaf_pairs H rs)"
    unfolding set_bolt_leaf_pairs by (simp only: set_bolt_leaf_pairs [symmetric] stream_pairs [OF ev(2)])
  have "inj_on fst (set (pg_leaf_pairs H rs))" using ids by (intro inj_on_pg_leaf_pairs) simp
  then show ?thesis unfolding bolt_leaf_map_def pg_leaf_map_def using map_of_assign_all_cong pairs by metis
qed

end

lemma pg_leaf_map_eq_iff:
  assumes "distinct (map row_id rs)" "distinct (map row_id rs')"
  shows "pg_leaf_map H rs = pg_leaf_map H rs' \<longleftrightarrow> set (pg_leaf_pairs H rs) = set (pg_leaf_pairs H rs')"
proof
  assume "pg_leaf_map H rs = pg_leaf_map H rs'"
  then show "set (pg_leaf_pairs H rs) = set (pg_leaf_pairs H rs')"
    using pg_leaf_map_set [OF assms(1), of H] pg_leaf_map_set [OF assms(2), of H] by auto
next
  assume "set (pg_leaf_pairs H rs) = set (pg_leaf_pairs H rs')"
  then show "pg_leaf_map H rs = pg_leaf_map H rs'"
    unfolding pg_leaf_map_def by (rule map_of_assign_all_cong [OF inj_on_pg_leaf_pairs [OF assms(1)]])
qed

section \<open>The verdict\<close>

text \<open>
  C8. A table that is verified once, and of which at most nine rows are
  captured from then on while it and other tables are verified again and again, is judged
  exactly: verification reports tampering if and only if the hashes of the rows are no longer
  those of the rows that were there at the first verification and of the captured ones,
  except that a table from which just the rows of the first verification are gone passes.
  In particular an untouched table is never reported. The order of the rows does not matter,
  and the only other exception is a collision of the hash function.
\<close>

theorem monitoring_verdict:
  assumes "bolt_store B" "handler_inv h" "map_of (tableConfigs h) t \<noteq> None" "local_checkpoints v"
    and "digest_sizes ds" "H = Hasher_Hash ds g" "valid_utf8 alg"
    and "monitored B H alg h v t base db rs" "base @ rs \<noteq> []" "length rs \<le> 9"
    and "query_table v pg1 t = Inr (map Inr rs1)" "query_table v pg2 t = Inr (map Inr rs2)" "mset rs1 = mset rs2" "distinct (map row_id rs1)"
    and "inj_on H (set (root_inputs H (sort (map (row_hash H) rs1))) \<union> set (root_inputs H (sort (map (row_hash H) (base @ rs)))))"
  shows "reports_tampering (VerifyTable B H alg now v pg1 pg2 t db) \<longleftrightarrow>
    mset (map (row_hash H) rs1) \<noteq> mset (map (row_hash H) (base @ rs)) \<and> set (pg_leaf_pairs H rs1) \<noteq> set (pg_leaf_pairs H rs)"
proof -
  have t: "table_ok t" "valid_utf8 t" using assms(2,3) handler_inv_lookup validTableName_ok by blast+
  have utf8: "valid_utf8 (H x)" for x unfolding assms(6) by (rule utf8_Hasher_Hash)
  have inv: "bolt_store.mon_inv B H t base db rs"
    by (rule bolt_store.monitored_inv [OF assms(1,2) t(1) assms(4) utf8 t(2) assms(7,8,10)])
  have ex: "mset (expected_leaves B t db) = mset (map (row_hash H) (base @ rs))"
    using bolt_store.mon_expected [OF assms(1) inv t(1)] assms(10) by simp
  have width: "fixed_width H (hash_width g)" unfolding assms(6) by (rule fixed_width_Hasher [OF assms(5)])
  have "length x = hash_width g" if "x \<in> set (expected_leaves B t db)" for x
    using that mset_eq_setD [OF ex] row_hash_width [OF width] by auto
  then have roots: "roots_agree B H t rs1 db \<longleftrightarrow> mset (map (row_hash H) rs1) = mset (map (row_hash H) (base @ rs))"
    using roots_agree_mset [OF width, of B t db rs1] assms(15) ex
      properties_for_sort [of "sort (map (row_hash H) (base @ rs))" "expected_leaves B t db"]
    by (simp add: list_all_iff)
  have ne: "expected_leaves B t db \<noteq> []" using mset_eq_length [OF ex] assms(9) by auto
  have "distinct (map row_id rs)" using inv by (simp add: bolt_store.mon_inv_def [OF assms(1)])
  from pg_leaf_map_eq_iff [OF this assms(14), of H]
  have maps: "bolt_leaf_map B t db = pg_leaf_map H rs2 \<longleftrightarrow> set (pg_leaf_pairs H rs1) = set (pg_leaf_pairs H rs)"
    using bolt_store.mon_leaf_map [OF assms(1) inv t(1)] assms(10) pg_leaf_map_perm [OF assms(13,14), of H] by (simp add: eq_commute)
  show ?thesis unfolding VerifyTable_reports [OF assms(11,12)] roots maps using ne by blast
qed

text \<open>An empty table, a captured row, a further verification, and the row is gone.\<close>

theorem monitoring_verdict_witness:
  "\<exists>db. monitored mem_bolt (Hasher_Hash sample_digests sha256Hasher) ''sha256'' sample_handler (NewMerkleVerifier ''pg'') ''logs'' [] db [sample_row 1]
     \<and> reports_tampering (VerifyTable mem_bolt (Hasher_Hash sample_digests sha256Hasher) ''sha256'' ''2024'' (NewMerkleVerifier ''pg'')
         (sample_pg []) (sample_pg []) ''logs'' db)"
proof -
  let ?H = "Hasher_Hash sample_digests sha256Hasher" and ?v = "NewMerkleVerifier ''pg''" and ?e = "sample_insert 1"
  let ?M = "monitored mem_bolt ?H ''sha256'' sample_handler ?v ''logs'' []"
  have local: "local_checkpoints ?v" by (simp add: local_checkpoints_def NewMerkleVerifier_def)
  have fresh: "fresh_table mem_bolt ''logs'' []"
    using store_inv_empty stored_entries_empty by (simp add: fresh_table_def mem_bolt_def mem_bucket_def)
  have reads: "reads_rows ?v (sample_pg rs) (sample_pg rs) ''logs'' rs" for rs
    unfolding reads_rows_def using query_sample by blast
  let ?c = "new_checkpoint mem_bolt ''sha256'' ''2024'' ''logs'' [] 0 None []"
  have "\<exists>db1. SaveMerkleCheckpoint mem_bolt ?c [] = Inr db1"
    by (rule mem.SaveMerkleCheckpoint_ok) (simp_all add: new_checkpoint_def checkpoint_size_def smap_size_def fmt_int_def fmt_d_small)
  then obtain db1 where s1: "SaveMerkleCheckpoint mem_bolt ?c [] = Inr db1" by blast
  have cc: "createCheckpointWithTree mem_bolt ''sha256'' ''2024'' ?v ''logs'' [] 0 None [] = (Inr (), db1)"
    using s1 by (simp add: createCheckpointWithTree_def NewMerkleVerifier_def Let_def)
  have "VerifyTable mem_bolt ?H ''sha256'' ''2024'' ?v (sample_pg []) (sample_pg []) ''logs'' [] = Some (Inr (), db1)"
    by (simp add: VerifyTable_def calculateCurrentMerkleRootFromPG_def query_sample bolt_root_eq mem.fresh_expected [OF fresh] cc
        del: Hasher_Hash.simps)
  from monitored.start [OF fresh _ _ _ _ reads this] have m1: "?M db1 []" by (simp add: valid_utf8_literal)
  have ins: "list_all (insertion ?H sample_handler ''logs'') [?e]"
    by (simp add: insertion_def sample_insert_def sample_handler_def fmt_v_map_def valid_utf8_literal valid_utf8_Hasher
        del: Hasher_Hash.simps)
  have "length (CalculateDataHash ?H m) = 64" for m
    using fixed_width.length_H [OF fixed_width_Hasher [OF digest_sizes_sample], of sha256Hasher] by (simp add: CalculateDataHash_def)
  then have "list_all (event_small ?H) [?e]"
    by (simp add: event_small_def sample_insert_def entry_size_def make_entry_def fmt_v_map_def operation_defs del: Hasher_Hash.simps)
  then obtain db2 where "handle_all mem_bolt ?H sample_handler [?e] db1 = Inr db2" using mem.insertions_stored [OF ins] by blast
  then have run: "Handler_HandleChange mem_bolt ?H (fst ?e) sample_handler (snd ?e) db1 = Inr db2"
    by (cases ?e) (auto simp: bind_res_eq_Inr_iff)
  have row: "id_ok (sample_row 1)" by (simp add: id_ok_def row_sample valid_utf8_literal)
  have "?M db2 ([] @ [sample_row 1])"
    by (rule monitored.insert [OF m1 _ _ row _ run]) (use ins in \<open>simp_all add: captured_sample del: Hasher_Hash.simps\<close>)
  then have m2: "?M db2 [sample_row 1]" by simp
  obtain r db3 where v3: "VerifyTable mem_bolt ?H ''sha256'' ''2024'' ?v (sample_pg [sample_row 1]) (sample_pg [sample_row 1]) ''logs'' db2 = Some (r, db3)"
    using VerifyTable_some by fast
  have m3: "?M db3 [sample_row 1]"
    by (rule monitored.verify [OF m2 _ _ v3]) (simp_all add: valid_utf8_literal reads)
  have "reports_tampering (VerifyTable mem_bolt ?H ''sha256'' ''2024'' ?v (sample_pg []) (sample_pg []) ''logs'' db3) \<longleftrightarrow>
    mset (map (row_hash ?H) []) \<noteq> mset (map (row_hash ?H) ([] @ [sample_row 1])) \<and> set (pg_leaf_pairs ?H []) \<noteq> set (pg_leaf_pairs ?H [sample_row 1])"
    by (rule monitoring_verdict [OF mem.bolt_store_axioms sample_handler_inv local digest_sizes_sample refl _ m3 _ _ query_sample query_sample refl])
      (simp_all add: valid_utf8_literal)
  with m3 show ?thesis by (auto simp: pg_leaf_pairs_def)
qed

end
