(* ===== verification/Config.thy ===== *)
theory Config
  imports Hash
begin

text \<open>
  Package internal/config. The configuration library viper is a parameter over its own state;
  os.ExpandEnv of the standard library is modelled, over the environment.
\<close>

section \<open>Data\<close>

record DatabaseConfig =
  dc_Host :: string
  dc_Port :: int
  dc_Database :: string
  dc_User :: string
  dc_Password :: string

record config_NodeConfig =
  cn_ID :: string
  cn_BindAddr :: string
  cn_DataDir :: string
  cn_Peers :: "string list"
  cn_Bootstrap :: bool
  cn_PeerAddrs :: "(string, string) gomap"

record RaftConfig =
  rf_LeadershipTransferInterval :: string
  rf_FollowerAutoShutdown :: bool

record HashConfig =
  hc_Algorithm :: string

record ProtectedTableConfig =
  pt_Name :: string
  pt_VerifyInterval :: string

record AlertsConfig =
  ac_Enabled :: bool
  ac_SlackWebhook :: string

record Config =
  cf_Database :: DatabaseConfig
  cf_Node :: config_NodeConfig
  cf_Raft :: RaftConfig
  cf_Hash :: HashConfig
  cf_ProtectedTables :: "ProtectedTableConfig list"
  cf_Alerts :: AlertsConfig

definition ConnectionString :: "DatabaseConfig \<Rightarrow> string" where
  "ConnectionString d =
     ''host='' @ dc_Host d @ '' port='' @ fmt_int (dc_Port d) @ '' dbname='' @ dc_Database d
     @ '' user='' @ dc_User d @ '' password='' @ dc_Password d @ '' sslmode=disable''"

section \<open>Validation\<close>

definition validAlgorithms :: "string list" where
  "validAlgorithms = [''xxhash64'', ''xxhash128'', ''sha256'', ''blake2b_256'', ''blake3'']"

text \<open>Validate, which may change the configuration: the changed one, or the error.\<close>

definition Validate :: "Config \<Rightarrow> Config result" where
  "Validate c =
     (if dc_Host (cf_Database c) = [] then Inl (Errorf ''database.host is required'')
      else if dc_Database (cf_Database c) = [] then Inl (Errorf ''database.database is required'')
      else if dc_User (cf_Database c) = [] then Inl (Errorf ''database.user is required'')
      else if cn_ID (cf_Node c) = [] then Inl (Errorf ''node.id is required'')
      else if cn_BindAddr (cf_Node c) = [] then Inl (Errorf ''node.bind_addr is required'')
      else if cn_DataDir (cf_Node c) = [] then Inl (Errorf ''node.data_dir is required'')
      else
        (let c' = (if hc_Algorithm (cf_Hash c) = [] then c\<lparr>cf_Hash := \<lparr>hc_Algorithm = ''sha256''\<rparr>\<rparr> else c) in
         if hc_Algorithm (cf_Hash c') \<notin> set validAlgorithms
         then Inl (Errorf (''invalid hash algorithm: '' @ hc_Algorithm (cf_Hash c')
                @ '' (valid options: xxhash64, xxhash128, sha256, blake2b_256, blake3)''))
         else Inr c'))"

section \<open>Expansion of variables: os.ExpandEnv\<close>

definition shell_special :: "char \<Rightarrow> bool" where
  "shell_special c \<longleftrightarrow> c \<in> set ''*#$@!?-'' \<or> is_digit c"

definition alpha_num :: "char \<Rightarrow> bool" where
  "alpha_num c \<longleftrightarrow> c = CHR ''_'' \<or> is_digit c \<or> (97 \<le> (of_char c :: nat) \<and> (of_char c :: nat) \<le> 122)
     \<or> (65 \<le> (of_char c :: nat) \<and> (of_char c :: nat) \<le> 90)"

text \<open>
  The name after a dollar sign, and how many bytes it takes: a special variable or what stands
  between braces, or the letters, digits and underscores that follow.
\<close>

definition braced_name :: "string \<Rightarrow> string \<times> nat" where
  "braced_name cs =
     (case cs of
        c # d # _ \<Rightarrow> if shell_special c \<and> d = CHR ''}'' then ([c], 3)
                      else (let body = takeWhile (\<lambda>x. x \<noteq> CHR ''}'') cs in
                            if length body = length cs then ([], 1) else if body = [] then ([], 2) else (body, length body + 2))
      | _ \<Rightarrow> if cs = ''}'' then ([], 2) else ([], 1))"

definition shell_name :: "string \<Rightarrow> string \<times> nat" where
  "shell_name s =
     (case s of
        [] \<Rightarrow> ([], 0)
      | c # cs \<Rightarrow>
          if c = CHR ''{'' then braced_name cs
          else if shell_special c then ([c], 1)
          else (let body = takeWhile alpha_num s in (body, length body)))"

text \<open>A dollar sign at the end is kept, and so is one that no name follows; bad syntax is dropped.\<close>

function ExpandEnv :: "(string \<Rightarrow> string) \<Rightarrow> string \<Rightarrow> string" where
  "ExpandEnv env [] = []"
| "ExpandEnv env (c # cs) =
     (if c = CHR ''$'' \<and> cs \<noteq> [] then
        (case shell_name cs of (name, w) \<Rightarrow>
           (if name = [] \<and> 0 < w then [] else if name = [] then [c] else env name) @ ExpandEnv env (drop w cs))
      else c # ExpandEnv env cs)"
  by pat_completeness auto

termination ExpandEnv
  by (relation "measure (\<lambda>(env, s). length s)") auto

section \<open>Load\<close>

record 'v viper =
  vp_ReadInConfig :: "'v result"
  vp_AllKeys :: "'v \<Rightarrow> string list"
  vp_GetString :: "'v \<Rightarrow> string \<Rightarrow> string"
  vp_Set :: "string \<Rightarrow> string \<Rightarrow> 'v \<Rightarrow> 'v"
  vp_Unmarshal :: "'v \<Rightarrow> Config result"

fun expand_loop :: "'v viper \<Rightarrow> (string \<Rightarrow> string) \<Rightarrow> string list \<Rightarrow> 'v \<Rightarrow> 'v" where
  "expand_loop V env [] v = v"
| "expand_loop V env (key # keys) v =
     (let val = vp_GetString V v key; expanded = ExpandEnv env val in
      expand_loop V env keys (if expanded \<noteq> val then vp_Set V key expanded v else v))"

definition Load :: "'v viper \<Rightarrow> (string \<Rightarrow> string) \<Rightarrow> Config result" where
  "Load V env =
     bind_res (wrap ''failed to read config file'' (vp_ReadInConfig V)) (\<lambda>v.
     bind_res (wrap ''failed to unmarshal config'' (vp_Unmarshal V (expand_loop V env (vp_AllKeys V v) v))) (\<lambda>config.
       wrap ''invalid config'' (Validate config)))"

section \<open>Lemmas\<close>

lemma ExpandEnv_plain: "CHR ''$'' \<notin> set s \<Longrightarrow> ExpandEnv env s = s"
  by (induction env s rule: ExpandEnv.induct) auto

lemma validAlgorithms_Initialize: "a \<in> set validAlgorithms \<longleftrightarrow> (\<exists>g'. Initialize a g = Inr g')"
  by (auto simp: validAlgorithms_def Initialize_ok_iff)

text \<open>The fields that must be present.\<close>

definition required_fields :: "Config \<Rightarrow> string list" where
  "required_fields c = [dc_Host (cf_Database c), dc_Database (cf_Database c), dc_User (cf_Database c),
     cn_ID (cf_Node c), cn_BindAddr (cf_Node c), cn_DataDir (cf_Node c)]"

definition algorithm_or_default :: "Config \<Rightarrow> string" where
  "algorithm_or_default c = (if hc_Algorithm (cf_Hash c) = [] then ''sha256'' else hc_Algorithm (cf_Hash c))"

lemma Validate_ok_iff:
  "Validate c = Inr c' \<longleftrightarrow>
   [] \<notin> set (required_fields c) \<and> algorithm_or_default c \<in> set validAlgorithms
     \<and> c' = c\<lparr>cf_Hash := (cf_Hash c)\<lparr>hc_Algorithm := algorithm_or_default c\<rparr>\<rparr>"
  by (auto simp: Validate_def Let_def required_fields_def algorithm_or_default_def)

text \<open>
  A dollar sign in front of another one, of a digit or of another special character starts the
  name of a variable, and there is no escape for it: both are lost unless the environment has
  a variable of that name.
\<close>

lemma ExpandEnv_dollars:
  assumes "CHR ''$'' \<notin> set s" "shell_special c" "env [c] = []"
  shows "ExpandEnv env (s @ CHR ''$'' # c # t) = s @ ExpandEnv env t"
  using assms(1)
proof (induction s)
  case Nil
  have "c \<noteq> CHR ''{''" using assms(2) by (auto simp: shell_special_def is_digit_def)
  then show ?case using assms(2,3) by (simp add: shell_name_def)
qed auto

section \<open>Documented behaviour of viper\<close>

text \<open>The value of a key of the configuration; a key that is not there is as good as empty.\<close>

definition config_value :: "'v viper \<Rightarrow> 'v \<Rightarrow> string \<Rightarrow> string" where
  "config_value V v key = (if key \<in> set (vp_AllKeys V v) then vp_GetString V v key else [])"

definition required_keys :: "string list" where
  "required_keys = [''database.host'', ''database.database'', ''database.user'', ''node.id'', ''node.bind_addr'', ''node.data_dir'']"

text \<open>
  AllKeys lists every key once; Set overrides the value of the key, and of no other; Unmarshal
  fills a text field with the value of the key that its tags name, and leaves it empty if
  there is no such key.
\<close>

locale viper_library =
  fixes V :: "'v viper"
  assumes keys_distinct: "distinct (vp_AllKeys V v)"
    and keys_Set: "k \<in> set (vp_AllKeys V v) \<Longrightarrow> set (vp_AllKeys V (vp_Set V k x v)) = set (vp_AllKeys V v)"
    and get_Set: "k \<in> set (vp_AllKeys V v) \<Longrightarrow> k' \<in> set (vp_AllKeys V v) \<Longrightarrow>
      vp_GetString V (vp_Set V k x v) k' = (if k' = k then x else vp_GetString V v k')"
    and Unmarshal_fields: "vp_Unmarshal V v = Inr c \<Longrightarrow>
      required_fields c = map (config_value V v) required_keys \<and> hc_Algorithm (cf_Hash c) = config_value V v ''hash.algorithm''"
begin

lemma expand_loop_values:
  assumes "distinct keys" "set keys \<subseteq> set (vp_AllKeys V v)"
  shows "set (vp_AllKeys V (expand_loop V env keys v)) = set (vp_AllKeys V v)
    \<and> (\<forall>k \<in> set (vp_AllKeys V v). vp_GetString V (expand_loop V env keys v) k =
         (if k \<in> set keys then ExpandEnv env (vp_GetString V v k) else vp_GetString V v k))"
  using assms
proof (induction keys arbitrary: v)
  case (Cons key keys)
  define v1 where "v1 = (if ExpandEnv env (vp_GetString V v key) \<noteq> vp_GetString V v key
    then vp_Set V key (ExpandEnv env (vp_GetString V v key)) v else v)"
  have key: "key \<in> set (vp_AllKeys V v)" using Cons.prems(2) by simp
  have keys: "set (vp_AllKeys V v1) = set (vp_AllKeys V v)" by (simp add: v1_def keys_Set [OF key])
  have get: "vp_GetString V v1 k = (if k = key then ExpandEnv env (vp_GetString V v k) else vp_GetString V v k)"
    if "k \<in> set (vp_AllKeys V v)" for k using get_Set [OF key that] by (auto simp: v1_def)
  have "expand_loop V env (key # keys) v = expand_loop V env keys v1" by (simp add: v1_def Let_def)
  moreover have "distinct keys" "set keys \<subseteq> set (vp_AllKeys V v1)" "key \<notin> set keys" using Cons.prems keys by auto
  note Cons.IH [OF this(1,2)] this(3)
  ultimately show ?case using keys get by auto
qed simp

lemma expanded_value:
  "config_value V (expand_loop V env (vp_AllKeys V v) v) key = ExpandEnv env (config_value V v key)"
  using expand_loop_values [OF keys_distinct subset_refl, where v = v and env = env] by (simp add: config_value_def)

end

section \<open>Properties\<close>

text \<open>
  C31. Load accepts a configuration exactly if, with the variables of the environment
  put in for the values of all keys, it can be decoded, the required values are not empty, and
  the hash algorithm, sha256 if none is given, is one that Initialize knows. The configuration it
  returns has the expanded values, that algorithm, and is otherwise the one decoded.
\<close>

theorem Load_accepts:
  assumes "viper_library V" "vp_ReadInConfig V = Inr v"
  shows "(Load V env = Inr c' \<longleftrightarrow>
      (\<exists>c algorithm. vp_Unmarshal V (expand_loop V env (vp_AllKeys V v) v) = Inr c
        \<and> (\<forall>key \<in> set required_keys. ExpandEnv env (config_value V v key) \<noteq> [])
        \<and> algorithm = (if ExpandEnv env (config_value V v ''hash.algorithm'') = [] then ''sha256''
                       else ExpandEnv env (config_value V v ''hash.algorithm''))
        \<and> (\<exists>g'. Initialize algorithm g = Inr g')
        \<and> c' = c\<lparr>cf_Hash := (cf_Hash c)\<lparr>hc_Algorithm := algorithm\<rparr>\<rparr>))
    \<and> (Load V env = Inr c' \<longrightarrow> required_fields c' = map (\<lambda>key. ExpandEnv env (config_value V v key)) required_keys)"
proof -
  let ?v = "expand_loop V env (vp_AllKeys V v) v" and ?x = "\<lambda>key. ExpandEnv env (config_value V v key)"
  have fields: "required_fields c = map ?x required_keys" "hc_Algorithm (cf_Hash c) = ?x ''hash.algorithm''"
    if "vp_Unmarshal V ?v = Inr c" for c
    using viper_library.Unmarshal_fields [OF assms(1) that] by (simp_all add: viper_library.expanded_value [OF assms(1)])
  have load: "Load V env = Inr c' \<longleftrightarrow> (\<exists>c. vp_Unmarshal V ?v = Inr c \<and> Validate c = Inr c')"
    by (auto simp: Load_def assms(2) bind_res_eq_Inr_iff)
  have alg: "algorithm_or_default c = (if ?x ''hash.algorithm'' = [] then ''sha256'' else ?x ''hash.algorithm'')"
    if "vp_Unmarshal V ?v = Inr c" for c by (simp only: algorithm_or_default_def fields(2) [OF that])
  have valid: "Validate c = Inr c' \<longleftrightarrow> (\<forall>key \<in> set required_keys. ?x key \<noteq> []) \<and> (\<exists>g'. Initialize (algorithm_or_default c) g = Inr g')
      \<and> c' = c\<lparr>cf_Hash := (cf_Hash c)\<lparr>hc_Algorithm := algorithm_or_default c\<rparr>\<rparr>" if "vp_Unmarshal V ?v = Inr c" for c
    unfolding Validate_ok_iff validAlgorithms_Initialize [of _ g] fields(1) [OF that] set_map image_iff by metis
  have "required_fields c' = map ?x required_keys" if "vp_Unmarshal V ?v = Inr c" "Validate c = Inr c'" for c
  proof -
    have "required_fields c' = required_fields c" using that(2) by (simp add: Validate_ok_iff required_fields_def)
    then show ?thesis using fields(1) [OF that(1)] by simp
  qed
  moreover have "Load V env = Inr c' \<longleftrightarrow> (\<exists>c algorithm. vp_Unmarshal V ?v = Inr c \<and> (\<forall>key \<in> set required_keys. ?x key \<noteq> [])
      \<and> algorithm = (if ?x ''hash.algorithm'' = [] then ''sha256'' else ?x ''hash.algorithm'')
      \<and> (\<exists>g'. Initialize algorithm g = Inr g') \<and> c' = c\<lparr>cf_Hash := (cf_Hash c)\<lparr>hc_Algorithm := algorithm\<rparr>\<rparr>)"
    unfolding load using valid alg by (simp only: cong: conj_cong) blast
  ultimately show ?thesis using load by blast
qed

text \<open>A minimal configuration.\<close>

definition sample_cfg :: Config where
  "sample_cfg = \<lparr>cf_Database = \<lparr>dc_Host = ''db'', dc_Port = 5432, dc_Database = ''d'', dc_User = ''u'', dc_Password = []\<rparr>,
     cf_Node = \<lparr>cn_ID = ''node1'', cn_BindAddr = ''127.0.0.1:7000'', cn_DataDir = ''/data'', cn_Peers = [], cn_Bootstrap = True,
       cn_PeerAddrs = []\<rparr>,
     cf_Raft = \<lparr>rf_LeadershipTransferInterval = [], rf_FollowerAutoShutdown = False\<rparr>, cf_Hash = \<lparr>hc_Algorithm = []\<rparr>,
     cf_ProtectedTables = [\<lparr>pt_Name = ''logs'', pt_VerifyInterval = ''5m''\<rparr>],
     cf_Alerts = \<lparr>ac_Enabled = False, ac_SlackWebhook = []\<rparr>\<rparr>"

text \<open>A viper that keeps the keys and values of a file.\<close>

definition map_viper :: "(string, string) gomap \<Rightarrow> (string, string) gomap viper" where
  "map_viper settings =
     (let get = (\<lambda>v key. case map_of v key of Some x \<Rightarrow> x | None \<Rightarrow> []) in
      \<lparr>vp_ReadInConfig = Inr settings, vp_AllKeys = (\<lambda>v. remdups (map fst v)), vp_GetString = get,
       vp_Set = AList.update,
       vp_Unmarshal = (\<lambda>v. Inr (sample_cfg
         \<lparr>cf_Database := (cf_Database sample_cfg)
            \<lparr>dc_Host := get v ''database.host'', dc_Database := get v ''database.database'', dc_User := get v ''database.user''\<rparr>,
          cf_Node := (cf_Node sample_cfg)
            \<lparr>cn_ID := get v ''node.id'', cn_BindAddr := get v ''node.bind_addr'', cn_DataDir := get v ''node.data_dir''\<rparr>,
          cf_Hash := \<lparr>hc_Algorithm = get v ''hash.algorithm''\<rparr>\<rparr>))\<rparr>)"

interpretation map_viper: viper_library "map_viper settings" for settings
proof
  fix v c
  have "config_value (map_viper settings) v key = (case map_of v key of Some x \<Rightarrow> x | None \<Rightarrow> [])" for key
    by (cases "map_of v key") (force simp: config_value_def map_viper_def Let_def dest: map_of_SomeD)+
  then show "vp_Unmarshal (map_viper settings) v = Inr c \<Longrightarrow> required_fields c = map (config_value (map_viper settings) v) required_keys
      \<and> hc_Algorithm (cf_Hash c) = config_value (map_viper settings) v ''hash.algorithm''"
    by (auto simp: map_viper_def Let_def required_fields_def required_keys_def)
qed (auto simp: map_viper_def Let_def dom_update update_conv')

text \<open>The file of the documentation, whose host is a variable of the environment.\<close>

definition sample_file :: "(string, string) gomap" where
  "sample_file = [(''database.host'', ''${DB_HOST}''), (''database.database'', ''witnzdb''), (''database.user'', ''witnz''),
     (''node.id'', ''node1''), (''node.bind_addr'', ''0.0.0.0:7000''), (''node.data_dir'', ''/data/witnz'')]"

theorem Load_accepts_witness:
  "\<exists>c'. Load (map_viper sample_file) (\<lambda>name. if name = ''DB_HOST'' then ''postgres'' else []) = Inr c'
     \<and> dc_Host (cf_Database c') = ''postgres'' \<and> hc_Algorithm (cf_Hash c') = ''sha256''"
proof -
  let ?V = "map_viper sample_file" and ?env = "\<lambda>name. if name = ''DB_HOST'' then ''postgres'' else []"
  have read: "vp_ReadInConfig ?V = Inr sample_file" by (simp add: map_viper_def Let_def)
  obtain c where c: "vp_Unmarshal ?V (expand_loop ?V ?env (vp_AllKeys ?V sample_file) sample_file) = Inr c"
    by (simp add: map_viper_def Let_def)
  have vals: "map (\<lambda>key. ExpandEnv ?env (config_value ?V sample_file key)) required_keys =
      [''postgres'', ''witnzdb'', ''witnz'', ''node1'', ''0.0.0.0:7000'', ''/data/witnz'']"
    "ExpandEnv ?env (config_value ?V sample_file ''hash.algorithm'') = []"
    by (simp_all add: config_value_def map_viper_def Let_def sample_file_def required_keys_def shell_name_def braced_name_def
        shell_special_def is_digit_def)
  have ne: "\<forall>key \<in> set required_keys. ExpandEnv ?env (config_value ?V sample_file key) \<noteq> []"
    using vals(1) by (auto simp: required_keys_def)
  let ?c = "c\<lparr>cf_Hash := (cf_Hash c)\<lparr>hc_Algorithm := ''sha256''\<rparr>\<rparr>"
  have "Load ?V ?env = Inr ?c \<and> required_fields ?c = [''postgres'', ''witnzdb'', ''witnz'', ''node1'', ''0.0.0.0:7000'', ''/data/witnz'']"
    using Load_accepts [OF map_viper.viper_library_axioms read, where env = ?env and c' = ?c and g = None] c ne vals
    by (simp add: Initialize_def)
  then show ?thesis by (intro exI [of _ ?c]) (simp add: required_fields_def)
qed

end
