(* ===== verification/Replication.thy ===== *)
theory Replication
  imports Events
begin

text \<open>
  Package internal/cdc, file replication.go: the client of PostgreSQL's logical replication,
  which turns the messages of the server into change events.

  The packages pglogrepl, pgconn and pgtype are not part of the repository. The parsers are
  the parameter \<open>pglogrepl\<close>, the connection is the parameter \<open>pgconn\<close> over the state \<open>'w\<close>
  of the world outside, and the event handler is any function over a state \<open>'s\<close>.
\<close>

section \<open>The libraries\<close>

record RelationMessageColumn =
  rc_Flags :: "8 word"
  rc_Name :: string
  rc_DataType :: "32 word"

record RelationMessage =
  rm_RelationID :: "32 word"
  rm_RelationName :: string
  rm_Columns :: "RelationMessageColumn list"

record TupleDataColumn =
  td_DataType :: char
  td_Data :: bytes

type_synonym TupleData = "TupleDataColumn list"

datatype logical_message =
    Relation RelationMessage
  | Insert "32 word" TupleData
  | Update "32 word" TupleData "TupleData option"
  | Delete "32 word" "TupleData option"
  | OtherMessage

text \<open>
  The parsers: a keepalive message (ServerWALEnd and ReplyRequested), the WAL data of an
  XLogData message, a logical replication message; and the decoder that the type map has for
  the binary format of a type, if it knows the type.
\<close>

record pglogrepl =
  ParsePrimaryKeepaliveMessage :: "bytes \<Rightarrow> (64 word \<times> bool) result"
  ParseXLogData :: "bytes \<Rightarrow> bytes result"
  Parse :: "bytes \<Rightarrow> logical_message result"
  TypeForOID :: "32 word \<Rightarrow> (bytes \<Rightarrow> goval result) option"

text \<open>What ReceiveMessage of the connection returns.\<close>

datatype received =
    CopyData bytes
  | OtherBackendMessage
  | Timeout goerror
  | ReceiveError goerror

record 'w pgconn =
  pc_ReceiveMessage :: "'w \<Rightarrow> received \<times> 'w"
  pc_SendStandbyStatusUpdate :: "64 word \<Rightarrow> 'w \<Rightarrow> unit result \<times> 'w"
  pc_DropReplicationSlot :: "string \<Rightarrow> 'w \<Rightarrow> unit result \<times> 'w"
  pc_CreateReplicationSlot :: "string \<Rightarrow> string \<Rightarrow> 'w \<Rightarrow> unit result \<times> 'w"
  pc_StartReplication :: "string \<Rightarrow> 64 word \<Rightarrow> string list \<Rightarrow> 'w \<Rightarrow> unit result \<times> 'w"
  pc_Close :: "'w \<Rightarrow> unit result \<times> 'w"

text \<open>
  An event handler: its result and the state after it. \<^const>\<open>None\<close> is a panic, here and below.
\<close>

type_synonym 's handler = "ChangeEvent \<Rightarrow> 's \<Rightarrow> (unit result \<times> 's) option"

section \<open>The client\<close>

definition OutputPlugin :: string where
  "OutputPlugin = ''pgoutput''"

record ReplicationConfig =
  rp_Host :: string
  rp_Port :: int
  rp_Database :: string
  rp_User :: string
  rp_Password :: string
  rp_SlotName :: string
  rp_PublicationName :: string

record ('w, 's) ReplicationClient =
  cl_config :: ReplicationConfig
  cl_conn :: "'w pgconn option"
  cl_relations :: "(32 word, RelationMessage) gomap"
  cl_handler :: "'s handler option"

definition NewReplicationClient :: "ReplicationConfig \<Rightarrow> 's handler option \<Rightarrow> ('w, 's) ReplicationClient" where
  "NewReplicationClient config handler =
     \<lparr>cl_config = config, cl_conn = None, cl_relations = [], cl_handler = handler\<rparr>"

definition replication_conn_string :: "ReplicationConfig \<Rightarrow> string" where
  "replication_conn_string c =
     ''host='' @ rp_Host c @ '' port='' @ fmt_int (rp_Port c) @ '' dbname='' @ rp_Database c
     @ '' user='' @ rp_User c @ '' password='' @ rp_Password c @ '' replication=database''"

text \<open>Connect; \<open>connect\<close> is pgconn.Connect.\<close>

definition Client_Connect ::
    "(string \<Rightarrow> 'w \<Rightarrow> 'w pgconn result \<times> 'w) \<Rightarrow> ('w, 's) ReplicationClient \<Rightarrow> 'w
      \<Rightarrow> unit result \<times> ('w, 's) ReplicationClient \<times> 'w" where
  "Client_Connect connect rc w =
     (case connect (replication_conn_string (cl_config rc)) w of
        (Inl err, w') \<Rightarrow> (Inl (Wrapf ''failed to connect'' err), rc, w')
      | (Inr conn, w') \<Rightarrow> (Inr (), rc\<lparr>cl_conn := Some conn\<rparr>, w'))"

definition not_connected :: goerror where
  "not_connected = Errorf ''not connected''"

text \<open>CreateSlotIfNotExists drops the slot first and goes on whatever came of that.\<close>

definition CreateSlotIfNotExists :: "('w, 's) ReplicationClient \<Rightarrow> 'w \<Rightarrow> unit result \<times> 'w" where
  "CreateSlotIfNotExists rc w =
     (case cl_conn rc of
        None \<Rightarrow> (Inl not_connected, w)
      | Some conn \<Rightarrow>
          (let slot = rp_SlotName (cl_config rc);
               w1 = snd (pc_DropReplicationSlot conn slot w)
           in case pc_CreateReplicationSlot conn slot OutputPlugin w1 of
                (res, w2) \<Rightarrow> (wrap ''failed to create replication slot'' res, w2)))"

definition DropSlot :: "('w, 's) ReplicationClient \<Rightarrow> 'w \<Rightarrow> unit result \<times> 'w" where
  "DropSlot rc w =
     (case cl_conn rc of
        None \<Rightarrow> (Inl not_connected, w)
      | Some conn \<Rightarrow>
          (case pc_DropReplicationSlot conn (rp_SlotName (cl_config rc)) w of
             (res, w') \<Rightarrow> (wrap ''failed to drop replication slot'' res, w')))"

definition StartReplication :: "('w, 's) ReplicationClient \<Rightarrow> 64 word \<Rightarrow> 'w \<Rightarrow> unit result \<times> 'w" where
  "StartReplication rc startLSN w =
     (case cl_conn rc of
        None \<Rightarrow> (Inl not_connected, w)
      | Some conn \<Rightarrow>
          (case pc_StartReplication conn (rp_SlotName (cl_config rc)) startLSN
                  [''proto_version '' @ [CHR 0x27] @ ''1'' @ [CHR 0x27],
                   ''publication_names '' @ [CHR 0x27] @ rp_PublicationName (cl_config rc) @ [CHR 0x27]] w of
             (res, w') \<Rightarrow> (wrap ''failed to start replication'' res, w')))"

definition SendStandbyStatusUpdate :: "('w, 's) ReplicationClient \<Rightarrow> 64 word \<Rightarrow> 'w \<Rightarrow> unit result \<times> 'w" where
  "SendStandbyStatusUpdate rc lsn w =
     (case cl_conn rc of None \<Rightarrow> (Inl not_connected, w) | Some conn \<Rightarrow> pc_SendStandbyStatusUpdate conn lsn w)"

definition Client_Close :: "('w, 's) ReplicationClient \<Rightarrow> 'w \<Rightarrow> unit result \<times> 'w" where
  "Client_Close rc w = (case cl_conn rc of None \<Rightarrow> (Inr (), w) | Some conn \<Rightarrow> pc_Close conn w)"

section \<open>Rows\<close>

text \<open>decodeColumnValue; its error result is always nil.\<close>

definition decodeColumnValue :: "pglogrepl \<Rightarrow> 32 word \<Rightarrow> bytes \<Rightarrow> goval result" where
  "decodeColumnValue L oid data =
     (case TypeForOID L oid of
        None \<Rightarrow> Inr (GString data)
      | Some decode \<Rightarrow> (case decode data of Inl _ \<Rightarrow> Inr (GString data) | Inr val \<Rightarrow> Inr val))"

definition column_value :: "pglogrepl \<Rightarrow> RelationMessageColumn \<Rightarrow> TupleDataColumn \<Rightarrow> goval" where
  "column_value L rcol col =
     (if td_DataType col = CHR ''n'' then GNil
      else if td_DataType col = CHR ''u'' then GString ''__unchanged__''
      else if td_DataType col = CHR ''t'' then GString (td_Data col)
      else if td_DataType col = CHR ''b'' then
        (case decodeColumnValue L (rc_DataType rcol) (td_Data col) of
           Inr decoded \<Rightarrow> decoded
         | Inl _ \<Rightarrow> GString (td_Data col))
      else GString (td_Data col))"

text \<open>The loop over the columns; an index beyond the columns of the relation panics.\<close>

fun tuple_loop ::
    "pglogrepl \<Rightarrow> RelationMessage \<Rightarrow> nat \<Rightarrow> TupleData \<Rightarrow> (string, goval) gomap \<Rightarrow> (string, goval) gomap option" where
  "tuple_loop L rel i [] values = Some values"
| "tuple_loop L rel i (col # cols) values =
     (if i < length (rm_Columns rel) then
        tuple_loop L rel (Suc i) cols
          (AList.update (rc_Name (rm_Columns rel ! i)) (column_value L (rm_Columns rel ! i) col) values)
      else None)"

definition tupleToMap :: "pglogrepl \<Rightarrow> RelationMessage \<Rightarrow> TupleData \<Rightarrow> (string, goval) gomap option" where
  "tupleToMap L rel tuple = tuple_loop L rel 0 tuple []"

fun key_loop :: "RelationMessageColumn list \<Rightarrow> (string, goval) gomap \<Rightarrow> (string, goval) gomap \<Rightarrow> (string, goval) gomap" where
  "key_loop [] values pk = pk"
| "key_loop (col # cols) values pk =
     key_loop cols values
       (if rc_Flags col = 1 then
          (case map_of values (rc_Name col) of Some val \<Rightarrow> AList.update (rc_Name col) val pk | None \<Rightarrow> pk)
        else pk)"

definition extractPrimaryKey :: "RelationMessage \<Rightarrow> (string, goval) gomap \<Rightarrow> (string, goval) gomap" where
  "extractPrimaryKey rel values = key_loop (rm_Columns rel) values []"

section \<open>Messages\<close>

definition unknown_relation :: "32 word \<Rightarrow> goerror" where
  "unknown_relation i = Errorf (''unknown relation ID: '' @ fmt_d (unat i))"

text \<open>The call of the handler, if there is one.\<close>

definition deliver :: "('w, 's) ReplicationClient \<Rightarrow> ChangeEvent \<Rightarrow> 's \<Rightarrow> (unit result \<times> 's) option" where
  "deliver rc event s = (case cl_handler rc of None \<Rightarrow> Some (Inr (), s) | Some handler \<Rightarrow> handler event s)"

definition change_event ::
    "gotime \<Rightarrow> RelationMessage \<Rightarrow> OperationType \<Rightarrow> (string, goval) gomap \<Rightarrow> (string, goval) gomap \<Rightarrow> (string, goval) gomap
      \<Rightarrow> ChangeEvent" where
  "change_event now rel operation newData oldData keyData =
     \<lparr>ev_TableName = rm_RelationName rel, ev_Operation = operation, ev_Timestamp = now, ev_NewData = newData,
      ev_OldData = oldData, ev_PrimaryKey = extractPrimaryKey rel keyData, ev_TransactionID = 0, ev_LSN = 0\<rparr>"

definition handleInsert ::
    "pglogrepl \<Rightarrow> gotime \<Rightarrow> ('w, 's) ReplicationClient \<Rightarrow> 32 word \<Rightarrow> TupleData \<Rightarrow> 's \<Rightarrow> (unit result \<times> 's) option" where
  "handleInsert L now rc relID tuple s =
     (case map_of (cl_relations rc) relID of
        None \<Rightarrow> Some (Inl (unknown_relation relID), s)
      | Some rel \<Rightarrow>
          Option.bind (tupleToMap L rel tuple) (\<lambda>values.
            deliver rc (change_event now rel OperationInsert values [] values) s))"

text \<open>The map of an old tuple, which may be missing.\<close>

definition old_values :: "pglogrepl \<Rightarrow> RelationMessage \<Rightarrow> TupleData option \<Rightarrow> (string, goval) gomap option" where
  "old_values L rel oldTuple = (case oldTuple of None \<Rightarrow> Some [] | Some tuple \<Rightarrow> tupleToMap L rel tuple)"

definition handleUpdate ::
    "pglogrepl \<Rightarrow> gotime \<Rightarrow> ('w, 's) ReplicationClient \<Rightarrow> 32 word \<Rightarrow> TupleData \<Rightarrow> TupleData option \<Rightarrow> 's
      \<Rightarrow> (unit result \<times> 's) option" where
  "handleUpdate L now rc relID newTuple oldTuple s =
     (case map_of (cl_relations rc) relID of
        None \<Rightarrow> Some (Inl (unknown_relation relID), s)
      | Some rel \<Rightarrow>
          Option.bind (tupleToMap L rel newTuple) (\<lambda>newValues.
          Option.bind (old_values L rel oldTuple) (\<lambda>oldValues.
            deliver rc (change_event now rel OperationUpdate newValues oldValues newValues) s)))"

definition handleDelete ::
    "pglogrepl \<Rightarrow> gotime \<Rightarrow> ('w, 's) ReplicationClient \<Rightarrow> 32 word \<Rightarrow> TupleData option \<Rightarrow> 's \<Rightarrow> (unit result \<times> 's) option" where
  "handleDelete L now rc relID oldTuple s =
     (case map_of (cl_relations rc) relID of
        None \<Rightarrow> Some (Inl (unknown_relation relID), s)
      | Some rel \<Rightarrow>
          Option.bind (old_values L rel oldTuple) (\<lambda>values.
            deliver rc (change_event now rel OperationDelete [] values values) s))"

text \<open>What a message leaves: the result, the client, the world and the state of the handler.\<close>

type_synonym ('w, 's) outcome = "(unit result \<times> ('w, 's) ReplicationClient \<times> 'w \<times> 's) option"

definition keep :: "('w, 's) ReplicationClient \<Rightarrow> 'w \<Rightarrow> (unit result \<times> 's) option \<Rightarrow> ('w, 's) outcome" where
  "keep rc w r = map_option (\<lambda>(res, s). (res, rc, w, s)) r"

definition processWALData :: "pglogrepl \<Rightarrow> gotime \<Rightarrow> ('w, 's) ReplicationClient \<Rightarrow> bytes \<Rightarrow> 'w \<Rightarrow> 's \<Rightarrow> ('w, 's) outcome" where
  "processWALData L now rc walData w s =
     (case Parse L walData of
        Inl err \<Rightarrow> Some (Inl (Wrapf ''failed to parse logical replication message'' err), rc, w, s)
      | Inr msg \<Rightarrow>
          (case msg of
             Relation rel \<Rightarrow> Some (Inr (), rc\<lparr>cl_relations := AList.update (rm_RelationID rel) rel (cl_relations rc)\<rparr>, w, s)
           | Insert relID tuple \<Rightarrow> keep rc w (handleInsert L now rc relID tuple s)
           | Update relID newTuple oldTuple \<Rightarrow> keep rc w (handleUpdate L now rc relID newTuple oldTuple s)
           | Delete relID oldTuple \<Rightarrow> keep rc w (handleDelete L now rc relID oldTuple s)
           | OtherMessage \<Rightarrow> Some (Inr (), rc, w, s)))"

definition handleXLogData :: "pglogrepl \<Rightarrow> gotime \<Rightarrow> ('w, 's) ReplicationClient \<Rightarrow> bytes \<Rightarrow> 'w \<Rightarrow> 's \<Rightarrow> ('w, 's) outcome" where
  "handleXLogData L now rc data w s =
     (case ParseXLogData L data of
        Inl err \<Rightarrow> Some (Inl (Wrapf ''failed to parse xlog data'' err), rc, w, s)
      | Inr walData \<Rightarrow> processWALData L now rc walData w s)"

definition handleKeepalive :: "pglogrepl \<Rightarrow> ('w, 's) ReplicationClient \<Rightarrow> bytes \<Rightarrow> 'w \<Rightarrow> unit result \<times> 'w" where
  "handleKeepalive L rc data w =
     (case ParsePrimaryKeepaliveMessage L data of
        Inl err \<Rightarrow> (Inl (Wrapf ''failed to parse keepalive'' err), w)
      | Inr (serverWALEnd, replyRequested) \<Rightarrow>
          if replyRequested then SendStandbyStatusUpdate rc serverWALEnd w else (Inr (), w))"

text \<open>The tags 'k' of a keepalive and 'w' of WAL data.\<close>

definition handleCopyData :: "pglogrepl \<Rightarrow> gotime \<Rightarrow> ('w, 's) ReplicationClient \<Rightarrow> bytes \<Rightarrow> 'w \<Rightarrow> 's \<Rightarrow> ('w, 's) outcome" where
  "handleCopyData L now rc data w s =
     (case data of
        [] \<Rightarrow> Some (Inr (), rc, w, s)
      | tag # rest \<Rightarrow>
          if tag = CHR ''k'' then (case handleKeepalive L rc rest w of (res, w') \<Rightarrow> Some (res, rc, w', s))
          else if tag = CHR ''w'' then handleXLogData L now rc rest w s
          else Some (Inr (), rc, w, s))"

definition ReceiveMessage :: "pglogrepl \<Rightarrow> gotime \<Rightarrow> ('w, 's) ReplicationClient \<Rightarrow> 'w \<Rightarrow> 's \<Rightarrow> ('w, 's) outcome" where
  "ReceiveMessage L now rc w s =
     (case cl_conn rc of
        None \<Rightarrow> Some (Inl not_connected, rc, w, s)
      | Some conn \<Rightarrow>
          (case pc_ReceiveMessage conn w of
             (CopyData data, w') \<Rightarrow> handleCopyData L now rc data w' s
           | (OtherBackendMessage, w') \<Rightarrow> Some (Inr (), rc, w', s)
           | (Timeout err, w') \<Rightarrow> Some (Inr (), rc, w', s)
           | (ReceiveError err, w') \<Rightarrow> Some (Inl (Wrapf ''receive message failed'' err), rc, w', s)))"

section \<open>Lemmas on rows\<close>

text \<open>The pairs of names and values that a tuple assigns.\<close>

definition tuple_pairs :: "pglogrepl \<Rightarrow> RelationMessage \<Rightarrow> TupleData \<Rightarrow> (string \<times> goval) list" where
  "tuple_pairs L rel tuple = map2 (\<lambda>rcol col. (rc_Name rcol, column_value L rcol col)) (rm_Columns rel) tuple"

lemma tuple_loop_eq:
  "tuple_loop L rel i cols vs =
     (if i + length cols \<le> length (rm_Columns rel) \<or> cols = []
      then Some (assign_all (map2 (\<lambda>rcol col. (rc_Name rcol, column_value L rcol col)) (drop i (rm_Columns rel)) cols) vs)
      else None)"
proof (induction cols arbitrary: i vs)
  case (Cons col cols)
  show ?case
  proof (cases "i < length (rm_Columns rel)")
    case True
    then have "drop i (rm_Columns rel) = rm_Columns rel ! i # drop (Suc i) (rm_Columns rel)" by (rule Cons_nth_drop_Suc [symmetric])
    with True Cons.IH [of "Suc i"] show ?thesis by auto
  qed simp
qed simp

lemma tupleToMap_eq:
  "tupleToMap L rel tuple =
     (if length tuple \<le> length (rm_Columns rel) then Some (assign_all (tuple_pairs L rel tuple) []) else None)"
  by (auto simp: tupleToMap_def tuple_loop_eq tuple_pairs_def)

lemma key_loop_ok: "gomap_ok pk \<Longrightarrow> gomap_ok (key_loop cols vs pk)"
  by (induction cols vs pk rule: key_loop.induct) (auto simp: distinct_update split: option.splits)

lemma map_of_key_loop:
  "map_of (key_loop cols vs pk) k =
     (if (\<exists>col \<in> set cols. rc_Name col = k \<and> rc_Flags col = 1) \<and> map_of vs k \<noteq> None then map_of vs k else map_of pk k)"
  by (induction cols vs pk rule: key_loop.induct) (auto simp: update_conv' split: option.splits)

lemma extractPrimaryKey_ok: "gomap_ok (extractPrimaryKey rel vs)"
  by (simp add: extractPrimaryKey_def key_loop_ok)

lemma map_of_extractPrimaryKey:
  "map_of (extractPrimaryKey rel vs) k =
     (if \<exists>col \<in> set (rm_Columns rel). rc_Name col = k \<and> rc_Flags col = 1 then map_of vs k else None)"
  by (auto simp: extractPrimaryKey_def map_of_key_loop)

section \<open>Properties\<close>

text \<open>
  C29. The event of an INSERT message for a known relation holds the columns
  of the row under their names, and as its primary key exactly the columns flagged as part
  of the key; both are well-formed maps. A message for an unknown relation is an error, and
  one with more columns than the relation ends in a panic.
\<close>

theorem insert_event:
  "case map_of (cl_relations rc) relID of
     None \<Rightarrow> handleInsert L now rc relID tuple s = Some (Inl (unknown_relation relID), s)
   | Some rel \<Rightarrow>
       if length (rm_Columns rel) < length tuple then handleInsert L now rc relID tuple s = None
       else \<exists>vals. handleInsert L now rc relID tuple s = deliver rc (change_event now rel OperationInsert vals [] vals) s
         \<and> gomap_ok vals \<and> gomap_ok (extractPrimaryKey rel vals)
         \<and> map_of vals = map_of (rev (tuple_pairs L rel tuple))
         \<and> map_of (extractPrimaryKey rel vals) =
             map_of vals |` {rc_Name col |col. col \<in> set (rm_Columns rel) \<and> rc_Flags col = 1}"
proof (cases "map_of (cl_relations rc) relID")
  case (Some rel)
  let ?vals = "assign_all (tuple_pairs L rel tuple) []"
  have "map_of (extractPrimaryKey rel ?vals) =
      map_of ?vals |` {rc_Name col |col. col \<in> set (rm_Columns rel) \<and> rc_Flags col = 1}"
    by (rule ext) (auto simp: map_of_extractPrimaryKey restrict_map_def)
  then show ?thesis
    by (auto simp: Some handleInsert_def tupleToMap_eq gomap_ok_assign_all extractPrimaryKey_ok map_of_assign_all)
qed (simp add: handleInsert_def)

end
