(* ===== verification/Alert.thy ===== *)
theory Alert
  imports Json
begin

text \<open>
  Package internal/alert: messages to a Slack webhook. The HTTP client is a parameter, a
  function of the address and the body of a request over the state \<open>'w\<close> of the world
  outside; http.NewRequest, which rejects malformed addresses, is one as well.
\<close>

section \<open>Messages\<close>

record slackField =
  sf_Title :: string
  sf_Value :: string
  sf_Short :: bool

record slackAttachment =
  sa_Color :: string
  sa_Title :: string
  sa_Fields :: "slackField list"
  sa_Footer :: string
  sa_Ts :: int

record slackMessage =
  sm_Text :: string
  sm_Attachments :: "slackAttachment list"

definition slackField_json :: "slackField \<Rightarrow> json" where
  "slackField_json f = JObj [(''title'', JStr (sf_Title f)), (''value'', JStr (sf_Value f)), (''short'', JBool (sf_Short f))]"

definition slackAttachment_json :: "slackAttachment \<Rightarrow> json" where
  "slackAttachment_json a =
     JObj [(''color'', JStr (sa_Color a)), (''title'', JStr (sa_Title a)), (''fields'', JArr (map slackField_json (sa_Fields a))),
           (''footer'', JStr (sa_Footer a)), (''ts'', JNum (sa_Ts a))]"

definition slackMessage_json :: "slackMessage \<Rightarrow> json" where
  "slackMessage_json m =
     JObj ((''text'', JStr (sm_Text m))
       # (if sm_Attachments m = [] then [] else [(''attachments'', JArr (map slackAttachment_json (sm_Attachments m)))]))"

section \<open>The manager\<close>

record 'w http =
  http_NewRequest :: "string \<Rightarrow> unit result"
  http_Do :: "string \<Rightarrow> bytes \<Rightarrow> 'w \<Rightarrow> int result \<times> 'w"

record 'w alert_Manager =
  am_enabled :: bool
  am_slackWebhook :: string
  am_httpClient :: "'w http"

text \<open>NewManager; \<open>defaultClient\<close> is the http.Client with a timeout of ten seconds.\<close>

definition alert_NewManager :: "'w http \<Rightarrow> bool \<Rightarrow> string \<Rightarrow> 'w alert_Manager" where
  "alert_NewManager defaultClient enabled slackWebhook =
     \<lparr>am_enabled = enabled, am_slackWebhook = slackWebhook, am_httpClient = defaultClient\<rparr>"

definition alert_NewManagerWithClient :: "bool \<Rightarrow> string \<Rightarrow> 'w http \<Rightarrow> 'w alert_Manager" where
  "alert_NewManagerWithClient enabled slackWebhook client =
     \<lparr>am_enabled = enabled, am_slackWebhook = slackWebhook, am_httpClient = client\<rparr>"

definition sendSlackMessage :: "'w alert_Manager \<Rightarrow> slackMessage \<Rightarrow> 'w \<Rightarrow> unit result \<times> 'w" where
  "sendSlackMessage m msg w =
     (case http_NewRequest (am_httpClient m) (am_slackWebhook m) of
        Inl err \<Rightarrow> (Inl (Wrapf ''failed to create request'' err), w)
      | Inr _ \<Rightarrow>
          (case http_Do (am_httpClient m) (am_slackWebhook m) (json_print (slackMessage_json msg)) w of
             (Inl err, w') \<Rightarrow> (Inl (Wrapf ''failed to send slack message'' err), w')
           | (Inr status, w') \<Rightarrow>
               (if status \<noteq> 200 then Inl (Errorf (''slack returned non-200 status: '' @ fmt_int status)) else Inr (), w')))"

text \<open>The three kinds of alert; \<open>now\<close> is the Unix time.\<close>

definition alert_siren :: string where
  "alert_siren = [CHR 0xF0, CHR 0x9F, CHR 0x9A, CHR 0xA8]"

definition tamper_message :: "int \<Rightarrow> string \<Rightarrow> string \<Rightarrow> string \<Rightarrow> string \<Rightarrow> slackMessage" where
  "tamper_message now tableName operation recordID details =
     \<lparr>sm_Text = alert_siren @ '' *TAMPERING DETECTED*'',
      sm_Attachments = [\<lparr>sa_Color = ''danger'', sa_Title = ''Database Tampering Alert'',
        sa_Fields = [\<lparr>sf_Title = ''Table'', sf_Value = tableName, sf_Short = True\<rparr>,
                     \<lparr>sf_Title = ''Operation'', sf_Value = operation, sf_Short = True\<rparr>,
                     \<lparr>sf_Title = ''Record ID'', sf_Value = recordID, sf_Short = True\<rparr>,
                     \<lparr>sf_Title = ''Details'', sf_Value = details, sf_Short = False\<rparr>],
        sa_Footer = ''Witnz Tamper Detection'', sa_Ts = now\<rparr>]\<rparr>"

definition chain_message :: "int \<Rightarrow> string \<Rightarrow> 64 word \<Rightarrow> string \<Rightarrow> string \<Rightarrow> slackMessage" where
  "chain_message now tableName sequenceNum expectedHash actualHash =
     \<lparr>sm_Text = alert_siren @ '' *HASH CHAIN INTEGRITY VIOLATION*'',
      sm_Attachments = [\<lparr>sa_Color = ''danger'', sa_Title = ''Hash Chain Broken'',
        sa_Fields = [\<lparr>sf_Title = ''Table'', sf_Value = tableName, sf_Short = True\<rparr>,
                     \<lparr>sf_Title = ''Sequence'', sf_Value = fmt_d (unat sequenceNum), sf_Short = True\<rparr>,
                     \<lparr>sf_Title = ''Expected Hash'', sf_Value = expectedHash, sf_Short = False\<rparr>,
                     \<lparr>sf_Title = ''Actual Hash'', sf_Value = actualHash, sf_Short = False\<rparr>],
        sa_Footer = ''Witnz Tamper Detection'', sa_Ts = now\<rparr>]\<rparr>"

definition severity_color :: "string \<Rightarrow> string" where
  "severity_color severity =
     (if severity = ''warning'' then ''warning'' else if severity = ''good'' then ''good'' else ''danger'')"

definition system_message :: "int \<Rightarrow> string \<Rightarrow> string \<Rightarrow> string \<Rightarrow> slackMessage" where
  "system_message now title message severity =
     \<lparr>sm_Text = alert_siren @ '' *SYSTEM ALERT: '' @ title @ ''*'',
      sm_Attachments = [\<lparr>sa_Color = severity_color severity, sa_Title = title,
        sa_Fields = [\<lparr>sf_Title = ''Message'', sf_Value = message, sf_Short = False\<rparr>],
        sa_Footer = ''Witnz System Monitor'', sa_Ts = now\<rparr>]\<rparr>"

definition SendTamperAlert ::
    "int \<Rightarrow> 'w alert_Manager \<Rightarrow> string \<Rightarrow> string \<Rightarrow> string \<Rightarrow> string \<Rightarrow> 'w \<Rightarrow> unit result \<times> 'w" where
  "SendTamperAlert now m tableName operation recordID details w =
     (if \<not> am_enabled m \<or> am_slackWebhook m = [] then (Inr (), w)
      else sendSlackMessage m (tamper_message now tableName operation recordID details) w)"

definition SendHashChainBrokenAlert ::
    "int \<Rightarrow> 'w alert_Manager \<Rightarrow> string \<Rightarrow> 64 word \<Rightarrow> string \<Rightarrow> string \<Rightarrow> 'w \<Rightarrow> unit result \<times> 'w" where
  "SendHashChainBrokenAlert now m tableName sequenceNum expectedHash actualHash w =
     (if \<not> am_enabled m \<or> am_slackWebhook m = [] then (Inr (), w)
      else sendSlackMessage m (chain_message now tableName sequenceNum expectedHash actualHash) w)"

definition SendSystemAlert :: "int \<Rightarrow> 'w alert_Manager \<Rightarrow> string \<Rightarrow> string \<Rightarrow> string \<Rightarrow> 'w \<Rightarrow> unit result \<times> 'w" where
  "SendSystemAlert now m title message severity w =
     (if \<not> am_enabled m \<or> am_slackWebhook m = [] then (Inr (), w)
      else sendSlackMessage m (system_message now title message severity) w)"

section \<open>Properties\<close>

text \<open>
  C30. With alerts enabled and a webhook set, SendTamperAlert makes
  one request to the webhook, from whose body the table, the operation, the record and the
  details can be read back, and succeeds exactly if the answer has status 200; otherwise it
  does nothing and reports success.
\<close>

theorem tamper_alert_delivered:
  assumes "valid_utf8 tableName" "valid_utf8 operation" "valid_utf8 recordID" "valid_utf8 details"
    and "http_NewRequest (am_httpClient m) (am_slackWebhook m) = Inr ()"
  shows "if am_enabled m \<and> am_slackWebhook m \<noteq> []
    then \<exists>body. json_parse body = Some (slackMessage_json (tamper_message now tableName operation recordID details))
      \<and> snd (SendTamperAlert now m tableName operation recordID details w) =
          snd (http_Do (am_httpClient m) (am_slackWebhook m) body w)
      \<and> (fst (SendTamperAlert now m tableName operation recordID details w) = Inr () \<longleftrightarrow>
          fst (http_Do (am_httpClient m) (am_slackWebhook m) body w) = Inr 200)
    else SendTamperAlert now m tableName operation recordID details w = (Inr (), w)"
proof (cases "am_enabled m \<and> am_slackWebhook m \<noteq> []")
  case True
  let ?j = "slackMessage_json (tamper_message now tableName operation recordID details)"
  have lits: "valid_utf8 ''Table''" "valid_utf8 ''Operation''" "valid_utf8 ''Record ID''" "valid_utf8 ''Details''"
    "valid_utf8 ''danger''" "valid_utf8 ''Database Tampering Alert''" "valid_utf8 ''Witnz Tamper Detection''"
    "valid_utf8 ''text''" "valid_utf8 ''attachments''" "valid_utf8 ''color''" "valid_utf8 ''title''" "valid_utf8 ''fields''"
    "valid_utf8 ''footer''" "valid_utf8 ''ts''" "valid_utf8 ''value''" "valid_utf8 ''short''"
    by (rule valid_utf8_literal, simp)+
  have "valid_utf8 (alert_siren @ '' *TAMPERING DETECTED*'')" by (simp add: alert_siren_def) code_simp
  then have "json_ok ?j"
    using assms(1-4) lits
    by (simp add: slackMessage_json_def slackAttachment_json_def slackField_json_def tamper_message_def)
  then have "json_parse (json_print ?j) = Some ?j" by (rule json_parse_print)
  moreover obtain res w' where "http_Do (am_httpClient m) (am_slackWebhook m) (json_print ?j) w = (res, w')" by force
  then have "snd (SendTamperAlert now m tableName operation recordID details w) =
        snd (http_Do (am_httpClient m) (am_slackWebhook m) (json_print ?j) w)
      \<and> (fst (SendTamperAlert now m tableName operation recordID details w) = Inr () \<longleftrightarrow>
          fst (http_Do (am_httpClient m) (am_slackWebhook m) (json_print ?j) w) = Inr 200)"
    using True assms(5) by (cases res) (auto simp: SendTamperAlert_def sendSlackMessage_def)
  ultimately show ?thesis using True by auto
next
  case False
  then show ?thesis by (auto simp: SendTamperAlert_def)
qed

text \<open>A client that records the requests and answers with status 200.\<close>

definition sample_http :: "(string \<times> bytes) list http" where
  "sample_http = \<lparr>http_NewRequest = (\<lambda>_. Inr ()), http_Do = (\<lambda>url body w. (Inr 200, w @ [(url, body)]))\<rparr>"

definition sample_alerts :: "(string \<times> bytes) list alert_Manager" where
  "sample_alerts = alert_NewManagerWithClient True ''https://hooks'' sample_http"

theorem tamper_alert_delivered_witness:
  "\<exists>body. snd (SendTamperAlert 1704067200 sample_alerts ''logs'' ''UPDATE'' ''N/A'' ''x'' []) = [(''https://hooks'', body)]
     \<and> json_parse body = Some (slackMessage_json (tamper_message 1704067200 ''logs'' ''UPDATE'' ''N/A'' ''x''))"
  using tamper_alert_delivered [of "''logs''" "''UPDATE''" "''N/A''" "''x''" sample_alerts 1704067200 "[]"]
  by (auto simp: sample_alerts_def alert_NewManagerWithClient_def sample_http_def valid_utf8_literal)

end
