(* ===== verification/Manager.thy ===== *)
theory Manager
  imports Replication Alert RaftHandler
begin

text \<open>
  Package internal/cdc, file manager.go: the manager hands the events of the replication
  client to its handlers, and its loop receives messages, raises alerts and backs off after
  errors.

  Time and the context are given from outside, as the sequence of what the select statements
  of the loop meet. The channel stopCh is known by whether it has been closed. The alert
  manager works on the same world \<open>'w\<close> as the connection.
\<close>

section \<open>State and operations\<close>

record ('w, 's) Manager =
  mg_config :: ReplicationConfig
  mg_client :: "('w, 's) ReplicationClient option"
  mg_handlers :: "'s handler list"
  mg_currentLSN :: "64 word"
  mg_running :: bool
  mg_stopCh :: bool
  mg_alertManager :: "'w alert_Manager option"

definition NewManager :: "ReplicationConfig \<Rightarrow> ('w, 's) Manager" where
  "NewManager config =
     \<lparr>mg_config = config, mg_client = None, mg_handlers = [], mg_currentLSN = 0, mg_running = False,
      mg_stopCh = False, mg_alertManager = None\<rparr>"

definition AddHandler :: "'s handler \<Rightarrow> ('w, 's) Manager \<Rightarrow> ('w, 's) Manager" where
  "AddHandler handler m = m\<lparr>mg_handlers := mg_handlers m @ [handler]\<rparr>"

definition SetAlertManager :: "'w alert_Manager \<Rightarrow> ('w, 's) Manager \<Rightarrow> ('w, 's) Manager" where
  "SetAlertManager am m = m\<lparr>mg_alertManager := Some am\<rparr>"

definition SetLSN :: "64 word \<Rightarrow> ('w, 's) Manager \<Rightarrow> ('w, 's) Manager" where
  "SetLSN lsn m = m\<lparr>mg_currentLSN := lsn\<rparr>"

definition GetLSN :: "('w, 's) Manager \<Rightarrow> 64 word" where
  "GetLSN m = mg_currentLSN m"

text \<open>HandleChange: the handlers in turn, up to the first error. A tampering error is passed on as it is.\<close>

fun handlers_loop :: "'s handler list \<Rightarrow> ChangeEvent \<Rightarrow> 's \<Rightarrow> (unit result \<times> 's) option" where
  "handlers_loop [] event s = Some (Inr (), s)"
| "handlers_loop (handler # handlers) event s =
     (case handler event s of
        None \<Rightarrow> None
      | Some (Inl err, s') \<Rightarrow> Some (Inl (if IsTamperingError err then err else Wrapf ''handler failed'' err), s')
      | Some (Inr _, s') \<Rightarrow> handlers_loop handlers event s')"

definition Manager_HandleChange :: "('w, 's) Manager \<Rightarrow> 's handler" where
  "Manager_HandleChange m event s = handlers_loop (mg_handlers m) event s"

section \<open>Initialization\<close>

text \<open>
  The database connection of createPublicationIfNotExists: the query for the publication, and
  the command that creates it.
\<close>

record 'w pgx =
  px_exists :: "string \<Rightarrow> 'w \<Rightarrow> bool result \<times> 'w"
  px_Exec :: "string \<Rightarrow> 'w \<Rightarrow> unit result \<times> 'w"

definition manager_conn_string :: "ReplicationConfig \<Rightarrow> string" where
  "manager_conn_string c =
     ''host='' @ rp_Host c @ '' port='' @ fmt_int (rp_Port c) @ '' dbname='' @ rp_Database c
     @ '' user='' @ rp_User c @ '' password='' @ rp_Password c"

definition createPublicationIfNotExists ::
    "(string \<Rightarrow> 'w \<Rightarrow> 'w pgx result \<times> 'w) \<Rightarrow> ReplicationConfig \<Rightarrow> 'w \<Rightarrow> unit result \<times> 'w" where
  "createPublicationIfNotExists connect config w =
     (case connect (manager_conn_string config) w of
        (Inl err, w1) \<Rightarrow> (Inl (Wrapf ''failed to connect'' err), w1)
      | (Inr conn, w1) \<Rightarrow>
          (case px_exists conn (rp_PublicationName config) w1 of
             (Inl err, w2) \<Rightarrow> (Inl (Wrapf ''failed to check publication'' err), w2)
           | (Inr exists, w2) \<Rightarrow>
               if exists then (Inr (), w2)
               else (case px_Exec conn (''CREATE PUBLICATION '' @ rp_PublicationName config @ '' FOR ALL TABLES'') w2 of
                       (res, w3) \<Rightarrow> (wrap ''failed to create publication'' res, w3))))"

text \<open>The client is set only when everything has succeeded; after a failed slot it is closed.\<close>

definition Manager_Initialize ::
    "(string \<Rightarrow> 'w \<Rightarrow> 'w pgx result \<times> 'w) \<Rightarrow> (string \<Rightarrow> 'w \<Rightarrow> 'w pgconn result \<times> 'w) \<Rightarrow> ('w, 's) Manager \<Rightarrow> 'w
      \<Rightarrow> unit result \<times> ('w, 's) Manager \<times> 'w" where
  "Manager_Initialize pgx_connect pgconn_connect m w =
     (case createPublicationIfNotExists pgx_connect (mg_config m) w of
        (Inl err, w1) \<Rightarrow> (Inl (Wrapf ''failed to create publication'' err), m, w1)
      | (Inr _, w1) \<Rightarrow>
          (case Client_Connect pgconn_connect (NewReplicationClient (mg_config m) (Some (Manager_HandleChange m))) w1 of
             (Inl err, client, w2) \<Rightarrow> (Inl (Wrapf ''failed to connect'' err), m, w2)
           | (Inr _, client, w2) \<Rightarrow>
               (case CreateSlotIfNotExists client w2 of
                  (Inl err, w3) \<Rightarrow> (Inl (Wrapf ''failed to create slot'' err), m, snd (Client_Close client w3))
                | (Inr _, w3) \<Rightarrow> (Inr (), m\<lparr>mg_client := Some client\<rparr>, w3))))"

definition Manager_Start :: "('w, 's) Manager \<Rightarrow> 'w \<Rightarrow> unit result \<times> ('w, 's) Manager \<times> 'w" where
  "Manager_Start m w =
     (if mg_running m then (Inl (Errorf ''manager already running''), m, w)
      else (case mg_client m of
              None \<Rightarrow> (Inl (Errorf ''manager not initialized''), m, w)
            | Some client \<Rightarrow>
                (case StartReplication client (mg_currentLSN m) w of
                   (Inl err, w') \<Rightarrow> (Inl (Wrapf ''failed to start replication'' err), m, w')
                 | (Inr _, w') \<Rightarrow> (Inr (), m\<lparr>mg_running := True\<rparr>, w'))))"

text \<open>
  Stop, with the wait for the receiving loop, which ends when it sees the channel. No other
  channel is ever made, so a manager that has been stopped and started again panics
  (\<^const>\<open>None\<close>) when it is stopped again.
\<close>

definition Manager_Stop :: "('w, 's) Manager \<Rightarrow> 'w \<Rightarrow> (unit result \<times> ('w, 's) Manager \<times> 'w) option" where
  "Manager_Stop m w =
     (if \<not> mg_running m then Some (Inr (), m, w)
      else if mg_stopCh m then None
      else (let m' = m\<lparr>mg_running := False, mg_stopCh := True\<rparr> in
            case mg_client m of
              None \<Rightarrow> Some (Inr (), m', w)
            | Some client \<Rightarrow> (case Client_Close client w of (res, w') \<Rightarrow> Some (res, m', w'))))"

section \<open>The receiving loop\<close>

text \<open>
  The pause after an error, in nanoseconds: two to the number of errors, converted from
  float64 to int64, times one second, all in 64-bit arithmetic. Go leaves the conversion open
  when the value is out of range, so its result there is the parameter \<open>ovf\<close>.
\<close>

definition second :: "64 word" where
  "second = 1000000000"

definition maxBackoff :: "64 word" where
  "maxBackoff = 30 * second"

definition backoff :: "64 word \<Rightarrow> nat \<Rightarrow> 64 word" where
  "backoff ovf errorCount =
     (let b = (if errorCount < 63 then 2 ^ errorCount else ovf) * second
      in if sint maxBackoff < sint b then maxBackoff else b)"

text \<open>
  What a turn of the loop meets: the stop channel or the context, or a message, with the time
  of its event, the Unix time of an alert and whether the pause after an error is interrupted.
\<close>

datatype loop_input =
    Stopped
  | Turn gotime int bool

text \<open>
  The state of the loop: the client, the error count, the world, the state of the handlers,
  and the pauses made so far (latest first).
\<close>

record ('w, 's) loop_state =
  ls_client :: "('w, 's) ReplicationClient"
  ls_errorCount :: nat
  ls_world :: 'w
  ls_state :: 's
  ls_pauses :: "64 word list"

definition tamper_alert :: "int \<Rightarrow> ('w, 's) Manager \<Rightarrow> string \<Rightarrow> string \<Rightarrow> 'w \<Rightarrow> 'w" where
  "tamper_alert now m tableName operation w =
     (case mg_alertManager m of
        None \<Rightarrow> w
      | Some am \<Rightarrow> snd (SendTamperAlert now am tableName operation ''N/A'' ''Unauthorized modification attempt detected'' w))"

definition connection_alert :: "(64 word \<Rightarrow> string) \<Rightarrow> int \<Rightarrow> ('w, 's) Manager \<Rightarrow> goerror \<Rightarrow> 64 word \<Rightarrow> 'w \<Rightarrow> 'w" where
  "connection_alert dur now m err pause w =
     (case mg_alertManager m of
        None \<Rightarrow> w
      | Some am \<Rightarrow>
          snd (SendSystemAlert now am ''Replication Connection Lost''
            (''Failed to receive replication message: '' @ error_text err @ ''. Retrying in '' @ dur pause @ ''...'') ''danger'' w))"

text \<open>
  One turn; \<open>dur\<close> renders a time.Duration. The handler of the client is the manager itself, with
  the handlers it has by now. The loop goes on unless the flag is set. \<^const>\<open>None\<close> is a panic.
\<close>

definition loop_turn ::
    "pglogrepl \<Rightarrow> (64 word \<Rightarrow> string) \<Rightarrow> 64 word \<Rightarrow> ('w, 's) Manager \<Rightarrow> gotime \<Rightarrow> int \<Rightarrow> bool \<Rightarrow> ('w, 's) loop_state
      \<Rightarrow> (bool \<times> ('w, 's) loop_state) option" where
  "loop_turn L dur ovf m now unix interrupted ls =
     (case ReceiveMessage L now ((ls_client ls)\<lparr>cl_handler := Some (Manager_HandleChange m)\<rparr>) (ls_world ls) (ls_state ls) of
        None \<Rightarrow> None
      | Some (Inr _, rc, w, s) \<Rightarrow>
          Some (False, ls\<lparr>ls_client := rc, ls_world := w, ls_state := s, ls_errorCount := 0\<rparr>)
      | Some (Inl err, rc, w, s) \<Rightarrow>
          (case AsTamperingError err of
             Some tamperingErr \<Rightarrow>
               Some (False, ls\<lparr>ls_client := rc, ls_state := s,
                 ls_world := tamper_alert unix m (GetTableName tamperingErr) (GetOperation tamperingErr) w\<rparr>)
           | None \<Rightarrow>
               (let n = Suc (ls_errorCount ls); pause = backoff ovf n in
                Some (interrupted,
                  ls\<lparr>ls_client := rc, ls_world := connection_alert dur unix m err pause w, ls_state := s,
                     ls_errorCount := n, ls_pauses := pause # ls_pauses ls\<rparr>))))"

text \<open>The loop over its inputs: whether it has ended, and its state.\<close>

fun receive_loop ::
    "pglogrepl \<Rightarrow> (64 word \<Rightarrow> string) \<Rightarrow> 64 word \<Rightarrow> ('w, 's) Manager \<Rightarrow> loop_input list \<Rightarrow> ('w, 's) loop_state
      \<Rightarrow> (bool \<times> ('w, 's) loop_state) option" where
  "receive_loop L dur ovf m [] ls = Some (False, ls)"
| "receive_loop L dur ovf m (Stopped # inputs) ls = Some (True, ls)"
| "receive_loop L dur ovf m (Turn now unix interrupted # inputs) ls =
     (case loop_turn L dur ovf m now unix interrupted ls of
        None \<Rightarrow> None
      | Some (True, ls') \<Rightarrow> Some (True, ls')
      | Some (False, ls') \<Rightarrow> receive_loop L dur ovf m inputs ls')"

text \<open>
  receiveLoop starts with no errors counted. A channel that has been closed before is the
  first thing it sees.
\<close>

definition receiveLoop ::
    "pglogrepl \<Rightarrow> (64 word \<Rightarrow> string) \<Rightarrow> 64 word \<Rightarrow> ('w, 's) Manager \<Rightarrow> ('w, 's) ReplicationClient \<Rightarrow> loop_input list \<Rightarrow> 'w \<Rightarrow> 's
      \<Rightarrow> (bool \<times> ('w, 's) loop_state) option" where
  "receiveLoop L dur ovf m client inputs w s =
     receive_loop L dur ovf m (if mg_stopCh m then [Stopped] else inputs)
       \<lparr>ls_client = client, ls_errorCount = 0, ls_world = w, ls_state = s, ls_pauses = []\<rparr>"

section \<open>The handlers of the program\<close>

text \<open>
  What a handler promises: it ignores the tables it does not protect, and it answers an
  update or deletion of a protected table with a tampering error and no change of state.
\<close>

locale event_handler =
  fixes handle :: "'s handler" and protected :: "string \<Rightarrow> bool"
  assumes ignores: "\<not> protected (ev_TableName event) \<Longrightarrow> handle event s = Some (Inr (), s)"
    and reports: "protected (ev_TableName event) \<Longrightarrow> ev_Operation event \<in> {OperationUpdate, OperationDelete} \<Longrightarrow>
      handle event s = Some (Inl (TamperingErr (ev_TableName event) (ev_Operation event)), s)"
begin

lemma Manager_reports:
  assumes "mg_handlers m = handle # hs" "protected (ev_TableName event)" "ev_Operation event \<in> {OperationUpdate, OperationDelete}"
  shows "Manager_HandleChange m event s = Some (Inl (TamperingErr (ev_TableName event) (ev_Operation event)), s)"
  using reports [OF assms(2,3)] by (simp add: Manager_HandleChange_def assms(1))

lemma Manager_ignores:
  assumes "mg_handlers m = [handle]" "\<not> protected (ev_TableName event)"
  shows "Manager_HandleChange m event s = Some (Inr (), s)"
  using ignores [OF assms(2)] by (simp add: Manager_HandleChange_def assms(1))

end

text \<open>
  The two handlers of the program. \<open>clock\<close> gives the time at which the handler is reached, from
  that of the event.
\<close>

definition local_handler ::
    "'db bolt \<Rightarrow> (string \<Rightarrow> string) \<Rightarrow> (gotime \<Rightarrow> gotime) \<Rightarrow> HashChainHandler \<Rightarrow> 'db handler" where
  "local_handler B H clock h event db =
     (case Handler_HandleChange B H (clock (ev_Timestamp event)) h event db of
        Inl err \<Rightarrow> Some (Inl err, db)
      | Inr db' \<Rightarrow> Some (Inr (), db'))"

definition raft_handler ::
    "'db bolt \<Rightarrow> (string \<Rightarrow> string) \<Rightarrow> (gotime \<Rightarrow> gotime) \<Rightarrow> ('r, 'db) RaftHashChainHandler \<Rightarrow> ('r \<times> 'db) handler" where
  "raft_handler B H clock h event w = RaftHandler_HandleChange B H (clock (ev_Timestamp event)) h event w"

interpretation local: event_handler "local_handler B H clock h" "\<lambda>t. map_of (tableConfigs h) t \<noteq> None" for B H clock h
  by unfold_locales (auto simp: local_handler_def Handler_HandleChange_def NewTamperingError_def split: option.splits)

interpretation replicated: event_handler "raft_handler B H clock h" "\<lambda>t. map_of (tableConfigs (rh_handler h)) t \<noteq> None"
  for B H clock h
  by unfold_locales (auto simp: raft_handler_def RaftHandler_HandleChange_def NewTamperingError_def split: option.splits)

section \<open>Lemmas on the loop\<close>

text \<open>The loop can end only by a stop or by an interrupted pause.\<close>

fun goes_on :: "loop_input \<Rightarrow> bool" where
  "goes_on Stopped = False"
| "goes_on (Turn now unix interrupted) = (\<not> interrupted)"

lemma loop_turn_goes_on: "loop_turn L dur ovf m now unix False ls = Some (b, ls') \<Longrightarrow> \<not> b"
  by (auto simp: loop_turn_def Let_def split: option.splits sum.splits)

lemma receive_loop_goes_on:
  "list_all goes_on inputs \<Longrightarrow> receive_loop L dur ovf m inputs ls = Some (b, ls') \<Longrightarrow> \<not> b"
proof (induction L dur ovf m inputs ls rule: receive_loop.induct)
  case (3 L dur ovf m now unix interrupted inputs ls)
  have i: "\<not> interrupted" "list_all goes_on inputs" using "3.prems"(1) by simp_all
  obtain c ls1 where turn: "loop_turn L dur ovf m now unix interrupted ls = Some (c, ls1)"
    using "3.prems"(2) by (auto split: option.splits)
  then have "\<not> c" using i loop_turn_goes_on by metis
  with "3.prems"(2) turn have "receive_loop L dur ovf m inputs ls1 = Some (b, ls')" by simp
  with "3.IH" [OF turn refl _ i(2)] \<open>\<not> c\<close> show ?case by simp
qed simp_all

text \<open>A turn that receives WAL data.\<close>

lemma ReceiveMessage_wal:
  assumes "cl_conn rc = Some conn" "pc_ReceiveMessage conn w = (CopyData (CHR ''w'' # data), w')"
    and "ParseXLogData L data = Inr wal"
  shows "ReceiveMessage L now rc w s = processWALData L now rc wal w' s"
  using assms by (simp add: ReceiveMessage_def handleCopyData_def handleXLogData_def)

text \<open>A message that changes or deletes a row of a relation, and the operation it stands for.\<close>

fun modification :: "logical_message \<Rightarrow> (32 word \<times> OperationType) option" where
  "modification (Update relID newTuple oldTuple) = Some (relID, OperationUpdate)"
| "modification (Delete relID oldTuple) = Some (relID, OperationDelete)"
| "modification _ = None"

fun message_tuples :: "logical_message \<Rightarrow> TupleData list" where
  "message_tuples (Insert relID tuple) = [tuple]"
| "message_tuples (Update relID newTuple oldTuple) = newTuple # (case oldTuple of None \<Rightarrow> [] | Some t \<Rightarrow> [t])"
| "message_tuples (Delete relID oldTuple) = (case oldTuple of None \<Rightarrow> [] | Some t \<Rightarrow> [t])"
| "message_tuples _ = []"

lemma old_values_some:
  "(\<And>t. oldTuple = Some t \<Longrightarrow> length t \<le> length (rm_Columns rel)) \<Longrightarrow> \<exists>vs. old_values L rel oldTuple = Some vs"
  by (auto simp: old_values_def tupleToMap_eq split: option.splits)

lemma processWALData_modification:
  assumes "Parse L wal = Inr msg" "modification msg = Some (relID, op)" "map_of (cl_relations rc) relID = Some rel"
    and "\<forall>t \<in> set (message_tuples msg). length t \<le> length (rm_Columns rel)"
  shows "\<exists>event. processWALData L now rc wal w s = keep rc w (deliver rc event s)
    \<and> ev_TableName event = rm_RelationName rel \<and> ev_Operation event = op"
proof (cases msg)
  case (Update i newTuple oldTuple)
  obtain vs where "old_values L rel oldTuple = Some vs"
    using old_values_some [of oldTuple rel L] assms(4) by (auto simp: Update split: option.splits)
  moreover have "length newTuple \<le> length (rm_Columns rel)" using assms(4) by (simp add: Update)
  ultimately show ?thesis
    using assms(1-3) by (auto simp: Update processWALData_def handleUpdate_def tupleToMap_eq change_event_def)
next
  case (Delete i oldTuple)
  obtain vs where "old_values L rel oldTuple = Some vs"
    using old_values_some [of oldTuple rel L] assms(4) by (auto simp: Delete split: option.splits)
  then show ?thesis
    using assms(1-3) by (auto simp: Delete processWALData_def handleDelete_def change_event_def)
qed (use assms(2) in simp_all)

text \<open>The pauses.\<close>

lemma backoff_doubles: "1 \<le> n \<Longrightarrow> n \<le> 33 \<Longrightarrow> sint (backoff ovf n) = int (min (2 ^ n) 30) * 10 ^ 9"
proof -
  assume n: "1 \<le> n" "n \<le> 33"
  have "(2::int) ^ n \<le> 2 ^ 33" using n(2) by (rule power_increasing) simp
  moreover have "0 \<le> (2::int) ^ n" by simp
  moreover have "- (2 ^ 63) \<le> p * 10 ^ 9 \<and> p * 10 ^ 9 < 2 ^ 63" if "p \<le> 2 ^ 33" "0 \<le> p" for p :: int
    using that by simp
  ultimately have range: "- (2 ^ 63) \<le> (2::int) ^ n * 10 ^ 9" "(2::int) ^ n * 10 ^ 9 < 2 ^ 63"
    by blast+
  have "(2 ^ n * second :: 64 word) = word_of_int (2 ^ n * 10 ^ 9)" by (simp add: second_def)
  then have b: "sint (2 ^ n * second :: 64 word) = 2 ^ n * 10 ^ 9"
    using range by (simp only: sint_sbintrunc') (rule signed_take_bit_int_eq_self; simp)
  have "sint maxBackoff = 30 * 10 ^ 9" by (simp add: maxBackoff_def second_def)
  moreover have "(2::nat) ^ n \<le> 30 \<longleftrightarrow> (2::int) ^ n \<le> 30"
    using of_nat_le_iff [of "2 ^ n" 30, where 'a = int] by simp
  ultimately show ?thesis using b n(2) by (auto simp: backoff_def Let_def min_def)
qed

text \<open>The error counts from 34 on at which the product wraps to a positive number, and is capped.\<close>

definition capped_again :: "nat list" where
  "capped_again = [37, 41, 42, 45, 47, 50, 51, 53]"

lemma backoff_wraps:
  assumes "34 \<le> n" "n < 55"
  shows "if n \<in> set capped_again then backoff ovf n = maxBackoff else sint (backoff ovf n) < 0"
proof -
  have "n \<in> set [34..<55]" using assms by (simp only: set_upt atLeastLessThan_iff)
  moreover have "list_all (\<lambda>n. if n \<in> set capped_again then backoff ovf n = maxBackoff else sint (backoff ovf n) < 0) [34..<55]"
    by (simp add: upt_rec_numeral backoff_def maxBackoff_def second_def capped_again_def)
  ultimately show ?thesis unfolding list_all_iff by (rule bspec [rotated])
qed

lemma backoff_zero: "55 \<le> n \<Longrightarrow> n < 63 \<Longrightarrow> backoff ovf n = 0"
proof -
  assume "55 \<le> n" "n < 63"
  then have "n \<in> set [55..<63]" by (simp only: set_upt atLeastLessThan_iff)
  moreover have "list_all (\<lambda>n. backoff ovf n = 0) [55..<63]"
    by (simp add: upt_rec_numeral backoff_def maxBackoff_def second_def)
  ultimately show ?thesis by (simp only: list_all_iff)
qed

lemma backoff_overflow: "63 \<le> n \<Longrightarrow> ovf \<in> {2 ^ 63, 2 ^ 63 - 1} \<Longrightarrow> sint (backoff ovf n) \<le> 0"
  by (auto simp: backoff_def maxBackoff_def second_def)

text \<open>A connection that fails whenever it is read, with no alerts to send.\<close>

lemma outage_loop:
  assumes "cl_conn (ls_client ls) = Some conn" "\<And>w. pc_ReceiveMessage conn w = (ReceiveError err, w)"
    and "mg_alertManager m = None" "list_all goes_on inputs"
  shows "\<exists>ls'. receive_loop L dur ovf m inputs ls = Some (False, ls')
    \<and> ls_errorCount ls' = ls_errorCount ls + length inputs \<and> ls_state ls' = ls_state ls
    \<and> rev (ls_pauses ls') = rev (ls_pauses ls) @ map (backoff ovf) [Suc (ls_errorCount ls)..<Suc (ls_errorCount ls + length inputs)]"
  using assms(1,4)
proof (induction inputs arbitrary: ls)
  case (Cons i inputs)
  then obtain now unix where i: "i = Turn now unix False" by (cases i) auto
  let ?n = "Suc (ls_errorCount ls)"
  let ?ls = "ls\<lparr>ls_client := (ls_client ls)\<lparr>cl_handler := Some (Manager_HandleChange m)\<rparr>, ls_errorCount := ?n, ls_pauses := backoff ovf ?n # ls_pauses ls\<rparr>"
  have turn: "loop_turn L dur ovf m now unix False ls = Some (False, ?ls)"
    using Cons.prems(1) assms(2,3) by (simp add: loop_turn_def ReceiveMessage_def connection_alert_def Let_def)
  have "cl_conn (ls_client ?ls) = Some conn" using Cons.prems(1) by simp
  from Cons.IH [OF this] Cons.prems(2) obtain ls' where ls': "receive_loop L dur ovf m inputs ?ls = Some (False, ls')"
    "ls_errorCount ls' = ?n + length inputs" "ls_state ls' = ls_state ls"
    "rev (ls_pauses ls') = rev (ls_pauses ?ls) @ map (backoff ovf) [Suc ?n..<Suc (?n + length inputs)]" by auto
  have "[?n..<Suc (ls_errorCount ls + length (i # inputs))] = ?n # [Suc ?n..<Suc (?n + length inputs)]"
    by (subst upt_conv_Cons) simp_all
  with ls' show ?case by (auto simp: i turn)
qed simp

text \<open>A manager that has been initialized and started for the first time.\<close>

lemma manager_fresh:
  assumes "Manager_Initialize pgx_connect pgconn_connect m w = (Inr (), m1, w1)" "\<not> mg_stopCh m"
    and "Manager_Start m1 w1 = (Inr (), m2, w2)"
  shows "mg_running m2 \<and> \<not> mg_stopCh m2"
  using assms
  by (auto simp: Manager_Initialize_def Manager_Start_def split: if_splits option.splits sum.splits prod.splits)

section \<open>Properties\<close>

text \<open>
  C20. When the server sends an update or deletion of a row of a
  protected table, the turn of the loop that receives it raises one alert that names the
  table and the operation; the state of the handlers and the error count stay as they were
  and the loop goes on. This holds of every handler that meets the contract of the two
  handlers of the program.
\<close>

theorem modification_alerted:
  assumes "event_handler handle protected" "mg_handlers m = handle # hs" "mg_alertManager m = Some am"
    and "cl_conn (ls_client ls) = Some conn" "pc_ReceiveMessage conn (ls_world ls) = (CopyData (CHR ''w'' # data), w)"
    and "ParseXLogData L data = Inr wal" "Parse L wal = Inr msg" "modification msg = Some (relID, op)"
    and "map_of (cl_relations (ls_client ls)) relID = Some rel" "protected (rm_RelationName rel)"
    and "\<forall>t \<in> set (message_tuples msg). length t \<le> length (rm_Columns rel)"
  shows "\<exists>ls'. loop_turn L dur ovf m now unix interrupted ls = Some (False, ls')
    \<and> ls_world ls' = snd (SendTamperAlert unix am (rm_RelationName rel) op ''N/A'' ''Unauthorized modification attempt detected'' w)
    \<and> ls_state ls' = ls_state ls \<and> ls_errorCount ls' = ls_errorCount ls \<and> ls_pauses ls' = ls_pauses ls"
proof -
  let ?rc = "(ls_client ls)\<lparr>cl_handler := Some (Manager_HandleChange m)\<rparr>"
  have conn: "cl_conn ?rc = Some conn" and rel: "map_of (cl_relations ?rc) relID = Some rel" using assms(4,9) by simp_all
  obtain event where event: "processWALData L now ?rc wal w (ls_state ls) = keep ?rc w (deliver ?rc event (ls_state ls))"
    "ev_TableName event = rm_RelationName rel" "ev_Operation event = op"
    using processWALData_modification [OF assms(7,8) rel assms(11)] by blast
  have "op \<in> {OperationUpdate, OperationDelete}" using assms(8) by (cases msg) auto
  then have "Manager_HandleChange m event (ls_state ls) = Some (Inl (TamperingErr (rm_RelationName rel) op), ls_state ls)"
    using event_handler.Manager_reports [OF assms(1,2)] assms(10) event by simp
  then have "ReceiveMessage L now ?rc (ls_world ls) (ls_state ls) =
      Some (Inl (TamperingErr (rm_RelationName rel) op), ?rc, w, ls_state ls)"
    unfolding ReceiveMessage_wal [OF conn assms(5,6)] event(1) by (simp add: deliver_def keep_def)
  then show ?thesis by (simp add: loop_turn_def tamper_alert_def GetTableName_def GetOperation_def assms(3))
qed

text \<open>
  C21. While the connection is lost the loop goes on. Its first 33 pauses
  double from two seconds and stay at 30. Then the product leaves 64 bits: of the pauses 34 to
  54 eight are of 30 seconds again and the others negative, so that the loop tries again at
  once; pauses 55 to 62 are zero; and from the 63rd error on they are zero or negative if the
  conversion gives the least or the greatest number.
\<close>

theorem outage_backoff:
  assumes "cl_conn client = Some conn" "\<And>w. pc_ReceiveMessage conn w = (ReceiveError err, w)"
    and "mg_alertManager m = None" "list_all goes_on inputs" "\<not> mg_stopCh m"
  shows "\<exists>ls. receiveLoop L dur ovf m client inputs w s = Some (False, ls)
    \<and> rev (ls_pauses ls) = map (backoff ovf) [1..<Suc (length inputs)]
    \<and> (\<forall>n. 1 \<le> n \<and> n \<le> 33 \<longrightarrow> sint (backoff ovf n) = int (min (2 ^ n) 30) * 10 ^ 9)
    \<and> (\<forall>n. 34 \<le> n \<and> n < 55 \<longrightarrow> (if n \<in> {37, 41, 42, 45, 47, 50, 51, 53} then sint (backoff ovf n) = 30 * 10 ^ 9 else sint (backoff ovf n) < 0))
    \<and> (\<forall>n. 55 \<le> n \<and> n < 63 \<longrightarrow> backoff ovf n = 0)
    \<and> (\<forall>n. 63 \<le> n \<and> ovf \<in> {2 ^ 63, 2 ^ 63 - 1} \<longrightarrow> sint (backoff ovf n) \<le> 0)"
proof -
  let ?ls = "\<lparr>ls_client = client, ls_errorCount = 0, ls_world = w, ls_state = s, ls_pauses = []\<rparr>"
  have "cl_conn (ls_client ?ls) = Some conn" using assms(1) by simp
  from outage_loop [OF this assms(2-4)] obtain ls where "receive_loop L dur ovf m inputs ?ls = Some (False, ls)"
    "rev (ls_pauses ls) = map (backoff ovf) [1..<Suc (length inputs)]" by fastforce
  then have "receiveLoop L dur ovf m client inputs w s = Some (False, ls)" using assms(5) by (simp add: receiveLoop_def)
  moreover note \<open>rev (ls_pauses ls) = map (backoff ovf) [1..<Suc (length inputs)]\<close>
  moreover have wraps: "if n \<in> {37, 41, 42, 45, 47, 50, 51, 53} then sint (backoff ovf n) = 30 * 10 ^ 9 else sint (backoff ovf n) < 0"
    if "34 \<le> n" "n < 55" for n
    using backoff_wraps [OF that, of ovf] by (simp add: capped_again_def maxBackoff_def second_def split: if_splits)
  ultimately show ?thesis
    using backoff_doubles [of _ ovf] wraps backoff_zero [of _ ovf] backoff_overflow [of _ ovf] by blast
qed


text \<open>
  C25. Stopping a manager that does not run does nothing, and starting one that
  runs is an error that changes nothing. But a manager can be used only once: after it has
  been stopped, it can be initialized and started again without an error, and then its
  receiving loop ends before it has received anything, and stopping it is a panic.
\<close>

theorem manager_restart:
  assumes "mg_running m" "Manager_Stop m w = Some (res, m1, w1)"
    and "Manager_Initialize pgx_connect pgconn_connect m1 w1 = (Inr (), m2, w2)" "Manager_Start m2 w2 = (Inr (), m3, w3)"
  shows "Manager_Stop m1 w' = Some (Inr (), m1, w')
    \<and> Manager_Start m3 w' = (Inl (Errorf ''manager already running''), m3, w')
    \<and> receiveLoop L dur ovf m3 client inputs w' s =
        Some (True, \<lparr>ls_client = client, ls_errorCount = 0, ls_world = w', ls_state = s, ls_pauses = []\<rparr>)
    \<and> Manager_Stop m3 w' = None"
proof -
  have m1: "\<not> mg_running m1" "mg_stopCh m1"
    using assms(1,2) by (auto simp: Manager_Stop_def Let_def split: if_splits option.splits prod.splits)
  have "mg_stopCh m2" using assms(3) m1(2) by (auto simp: Manager_Initialize_def split: sum.splits prod.splits)
  then have "mg_running m3" "mg_stopCh m3"
    using assms(4) by (auto simp: Manager_Start_def split: if_splits option.splits sum.splits prod.splits)
  with m1(1) show ?thesis by (simp add: Manager_Stop_def Manager_Start_def receiveLoop_def)
qed

text \<open>A server that sends an update of a row of the table logs again and again.\<close>

definition sample_relation :: RelationMessage where
  "sample_relation = \<lparr>rm_RelationID = 7, rm_RelationName = ''logs'',
     rm_Columns = [\<lparr>rc_Flags = 1, rc_Name = ''id'', rc_DataType = 23\<rparr>, \<lparr>rc_Flags = 0, rc_Name = ''ok'', rc_DataType = 16\<rparr>]\<rparr>"

definition sample_tuple :: TupleData where
  "sample_tuple = [\<lparr>td_DataType = CHR ''t'', td_Data = ''1''\<rparr>, \<lparr>td_DataType = CHR ''t'', td_Data = ''t''\<rparr>]"

definition sample_lib :: pglogrepl where
  "sample_lib = \<lparr>ParsePrimaryKeepaliveMessage = (\<lambda>_. Inl (Errorf ''short'')), ParseXLogData = Inr,
     Parse = (\<lambda>_. Inr (Update 7 sample_tuple None)), TypeForOID = (\<lambda>_. None)\<rparr>"

definition sample_conn :: "received \<Rightarrow> 'w pgconn" where
  "sample_conn r = \<lparr>pc_ReceiveMessage = (\<lambda>w. (r, w)), pc_SendStandbyStatusUpdate = (\<lambda>_ w. (Inr (), w)),
     pc_DropReplicationSlot = (\<lambda>_ w. (Inr (), w)), pc_CreateReplicationSlot = (\<lambda>_ _ w. (Inr (), w)),
     pc_StartReplication = (\<lambda>_ _ _ w. (Inr (), w)), pc_Close = (\<lambda>w. (Inr (), w))\<rparr>"

definition sample_repl_config :: ReplicationConfig where
  "sample_repl_config = \<lparr>rp_Host = ''db'', rp_Port = 5432, rp_Database = ''d'', rp_User = ''u'', rp_Password = ''p'',
     rp_SlotName = ''witnz_node1'', rp_PublicationName = ''witnz_publication''\<rparr>"

definition sample_client :: "received \<Rightarrow> ('w, 's) ReplicationClient" where
  "sample_client r = \<lparr>cl_config = sample_repl_config, cl_conn = Some (sample_conn r), cl_relations = [(7, sample_relation)], cl_handler = None\<rparr>"

definition sample_manager :: "((string \<times> bytes) list, mem_db) Manager" where
  "sample_manager = SetAlertManager sample_alerts
     (AddHandler (local_handler mem_bolt sample_hash (\<lambda>t. t) sample_handler) (NewManager sample_repl_config))"

theorem modification_alerted_witness:
  "\<exists>ls'. loop_turn sample_lib (\<lambda>_. ''2s'') 0 sample_manager ''2024'' 1704067200 False
      \<lparr>ls_client = sample_client (CopyData ''wU''), ls_errorCount = 0, ls_world = [], ls_state = [], ls_pauses = []\<rparr> = Some (False, ls')
    \<and> length (ls_world ls') = 1"
proof -
  let ?ls = "\<lparr>ls_client = sample_client (CopyData ''wU''), ls_errorCount = 0, ls_world = [], ls_state = [], ls_pauses = []\<rparr>
    :: ((string \<times> bytes) list, mem_db) loop_state"
  have hs: "mg_handlers sample_manager = local_handler mem_bolt sample_hash (\<lambda>t. t) sample_handler # []"
    and am: "mg_alertManager sample_manager = Some sample_alerts"
    by (simp_all add: sample_manager_def SetAlertManager_def AddHandler_def NewManager_def)
  have conn: "cl_conn (ls_client ?ls) = Some (sample_conn (CopyData ''wU''))"
    "pc_ReceiveMessage (sample_conn (CopyData ''wU'')) (ls_world ?ls) = (CopyData (CHR ''w'' # ''U''), [])"
    and rel: "map_of (cl_relations (ls_client ?ls)) 7 = Some sample_relation"
    by (simp_all add: sample_client_def sample_conn_def)
  have lib: "ParseXLogData sample_lib ''U'' = Inr ''U''" "Parse sample_lib ''U'' = Inr (Update 7 sample_tuple None)"
    "modification (Update 7 sample_tuple None) = Some (7, OperationUpdate)"
    by (simp_all add: sample_lib_def)
  have prot: "map_of (tableConfigs sample_handler) (rm_RelationName sample_relation) \<noteq> None"
    by (simp add: sample_handler_def sample_relation_def)
  have len: "\<forall>t \<in> set (message_tuples (Update 7 sample_tuple None)). length t \<le> length (rm_Columns sample_relation)"
    by (simp add: sample_tuple_def sample_relation_def)
  show ?thesis
    using modification_alerted [OF local.event_handler_axioms hs am conn lib rel prot len, of "\<lambda>_. ''2s''" 0 "''2024''" 1704067200 False]
    by (fastforce simp: SendTamperAlert_def sendSlackMessage_def sample_alerts_def alert_NewManagerWithClient_def sample_http_def)
qed

theorem outage_backoff_witness:
  "\<exists>ls. receiveLoop sample_lib (\<lambda>_. ''2s'') 0 (NewManager sample_repl_config) (sample_client (ReceiveError (Errorf ''EOF'')))
      (replicate 34 (Turn ''2024'' 1704067200 False)) () () = Some (False, ls)
    \<and> rev (ls_pauses ls) = map (backoff 0) [1..<Suc 34]"
proof -
  have "cl_conn (sample_client (ReceiveError (Errorf ''EOF'')) :: (unit, unit) ReplicationClient) =
      Some (sample_conn (ReceiveError (Errorf ''EOF'')))" by (simp add: sample_client_def)
  moreover have "pc_ReceiveMessage (sample_conn (ReceiveError (Errorf ''EOF''))) w = (ReceiveError (Errorf ''EOF''), w)" for w :: unit
    by (simp add: sample_conn_def)
  moreover have "mg_alertManager (NewManager sample_repl_config :: (unit, unit) Manager) = None"
    "\<not> mg_stopCh (NewManager sample_repl_config :: (unit, unit) Manager)" by (simp_all add: NewManager_def)
  moreover have "list_all goes_on (replicate 34 (Turn ''2024'' 1704067200 False))" by (simp add: list_all_iff)
  ultimately show ?thesis
    using outage_backoff [of "sample_client (ReceiveError (Errorf ''EOF'')) :: (unit, unit) ReplicationClient"
        "sample_conn (ReceiveError (Errorf ''EOF''))" "Errorf ''EOF''" "NewManager sample_repl_config"
        "replicate 34 (Turn ''2024'' 1704067200 False)" sample_lib "\<lambda>_. ''2s''" 0 "()" "()"]
    by (auto simp del: upt_Suc)
qed

text \<open>A manager of a server on which the publication and the slot can be made.\<close>

definition sample_pgx :: "'w pgx" where
  "sample_pgx = \<lparr>px_exists = (\<lambda>_ w. (Inr True, w)), px_Exec = (\<lambda>_ w. (Inr (), w))\<rparr>"

definition sample_running :: "(unit, unit) Manager" where
  "sample_running = (NewManager sample_repl_config)\<lparr>mg_running := True\<rparr>"

theorem manager_restart_witness:
  "\<exists>m1 m2 m3. Manager_Stop sample_running () = Some (Inr (), m1, ())
    \<and> Manager_Initialize (\<lambda>_ w. (Inr sample_pgx, w)) (\<lambda>_ w. (Inr (sample_conn (ReceiveError (Errorf ''EOF''))), w)) m1 () = (Inr (), m2, ())
    \<and> Manager_Start m2 () = (Inr (), m3, ()) \<and> Manager_Stop m3 () = None"
proof -
  let ?pgx = "\<lambda>_ w. (Inr sample_pgx, w) :: unit pgx result \<times> unit"
  let ?pg = "\<lambda>_ w. (Inr (sample_conn (ReceiveError (Errorf ''EOF''))), w) :: unit pgconn result \<times> unit"
  obtain m1 where 1: "mg_running sample_running" "Manager_Stop sample_running () = Some (Inr (), m1, ())"
    by (simp add: sample_running_def Manager_Stop_def NewManager_def)
  then have "\<not> mg_running m1"
    by (auto simp: sample_running_def NewManager_def Manager_Stop_def)
  then obtain m2 m3 where 2: "Manager_Initialize ?pgx ?pg m1 () = (Inr (), m2, ())" and 3: "Manager_Start m2 () = (Inr (), m3, ())"
    by (simp add: Manager_Initialize_def createPublicationIfNotExists_def sample_pgx_def Client_Connect_def NewReplicationClient_def
        CreateSlotIfNotExists_def sample_conn_def Manager_Start_def StartReplication_def)
  then show ?thesis using manager_restart [OF 1 2 3] 1(2) by blast
qed

end
