(* ===== verification/Commands.thy ===== *)
theory Commands
  imports Config Manager Verifier
begin

text \<open>
  Command witnz, file cmd/witnz/main.go: the subcommands init, start, status and verify. The
  parser of the command line (cobra), the file system, bolt.Open, PostgreSQL and Raft are
  parameters. What a command prints is a list of texts where a property speaks of it.
\<close>

section \<open>Configuration\<close>

record ('v, 'db) cmd_env =
  ce_cfgFile :: string
  ce_Stat :: "string \<Rightarrow> bool"
  ce_viper :: "string \<Rightarrow> 'v viper"
  ce_Getenv :: "string \<Rightarrow> string"
  ce_Join :: "string \<Rightarrow> string \<Rightarrow> string"
  ce_MkdirAll :: "string \<Rightarrow> unit result"
  ce_Open :: "string \<Rightarrow> 'db result"

definition defaultPaths :: "string list" where
  "defaultPaths = [''config/witnz.yaml'', ''witnz.yaml'', ''/etc/witnz/witnz.yaml'']"

definition findConfigFile :: "('v, 'db) cmd_env \<Rightarrow> string result" where
  "findConfigFile env =
     (if ce_cfgFile env \<noteq> [] then
        if ce_Stat env (ce_cfgFile env) then Inr (ce_cfgFile env)
        else Inl (Errorf (''config file not found: '' @ ce_cfgFile env))
      else (case find (ce_Stat env) defaultPaths of
              Some path \<Rightarrow> Inr path
            | None \<Rightarrow> Inl (Errorf (''config file not found in default locations: ['' @ join '' '' defaultPaths @ '']''))))"

text \<open>The steps all commands begin with: the configuration and the hash algorithm.\<close>

definition load_config :: "('v, 'db) cmd_env \<Rightarrow> (Config \<times> globalHasher) result" where
  "load_config env =
     bind_res (findConfigFile env) (\<lambda>configPath.
     bind_res (wrap ''failed to load config'' (Load (ce_viper env configPath) (ce_Getenv env))) (\<lambda>cfg.
     bind_res (wrap ''failed to initialize hash algorithm'' (Initialize (hc_Algorithm (cf_Hash cfg)) None)) (\<lambda>g.
       Inr (cfg, g))))"

definition db_path :: "('v, 'db) cmd_env \<Rightarrow> Config \<Rightarrow> string" where
  "db_path env cfg = ce_Join env (cn_DataDir (cf_Node cfg)) ''witnz.db''"

section \<open>init\<close>

text \<open>The lines the command prints, and its result.\<close>

definition initCmd :: "'db bolt \<Rightarrow> ('v, 'db) cmd_env \<Rightarrow> string list \<times> 'db result" where
  "initCmd B env =
     (case findConfigFile env of
        Inl err \<Rightarrow> ([], Inl err)
      | Inr configPath \<Rightarrow>
          (case bind_res (load_config env) (\<lambda>(cfg, g).
                bind_res (wrap ''failed to create data directory'' (ce_MkdirAll env (cn_DataDir (cf_Node cfg)))) (\<lambda>_.
                bind_res (wrap ''failed to initialize storage'' (Storage_New B (ce_Open env (db_path env cfg)))) (\<lambda>store.
                  Inr (cfg, store)))) of
             Inl err \<Rightarrow> ([''Using config file: '' @ configPath], Inl err)
           | Inr (cfg, store) \<Rightarrow>
               ([''Using config file: '' @ configPath, ''Initialized witnz node: '' @ cn_ID (cf_Node cfg),
                 ''Data directory: '' @ cn_DataDir (cf_Node cfg), ''Database path: '' @ db_path env cfg], Inr store)))"

section \<open>version\<close>

definition versionCmd :: "string list" where
  "versionCmd = [''witnz v0.2.0'', ''PostgreSQL Tamper Detection System'']"

section \<open>start\<close>

fun protect_loop :: "ProtectedTableConfig list \<Rightarrow> HashChainHandler \<Rightarrow> HashChainHandler result" where
  "protect_loop [] h = Inr h"
| "protect_loop (t # ts) h =
     bind_res (wrap (''failed to add table '' @ pt_Name t)
       (Handler_AddTable \<lparr>tc_Name = pt_Name t, tc_VerifyInterval = []\<rparr> h)) (protect_loop ts)"

definition raft_config :: "Config \<Rightarrow> NodeConfig" where
  "raft_config cfg =
     \<lparr>nc_NodeID = cn_ID (cf_Node cfg), nc_BindAddr = cn_BindAddr (cf_Node cfg), nc_DataDir = cn_DataDir (cf_Node cfg),
      nc_Bootstrap = cn_Bootstrap (cf_Node cfg), nc_PeerAddrs = cn_PeerAddrs (cf_Node cfg), nc_JoinRetries = 0, nc_JoinRetryWait = 0\<rparr>"

text \<open>Raft is used if there are peers or the node bootstraps; \<open>r\<close> is its state when it is to be in sync.\<close>

definition start_consensus ::
    "'db bolt \<Rightarrow> ('r, 'db) start_env \<Rightarrow> 'r \<Rightarrow> Config \<Rightarrow> ('r, 'db) Node option result" where
  "start_consensus B senv r cfg =
     (if cn_PeerAddrs (cf_Node cfg) \<noteq> [] \<or> cn_Bootstrap (cf_Node cfg) then
        (case Node_Start B senv (NewNode (raft_config cfg)) of
           (res, n) \<Rightarrow>
             bind_res (wrap ''failed to start raft node'' res) (\<lambda>_.
             bind_res (wrap ''failed to sync hash chain from leader'' (SyncHashChainFromLeader n r)) (\<lambda>_.
               Inr (Some n))))
      else Inr None)"

definition cdc_config :: "Config \<Rightarrow> ReplicationConfig" where
  "cdc_config cfg =
     \<lparr>rp_Host = dc_Host (cf_Database cfg), rp_Port = dc_Port (cf_Database cfg), rp_Database = dc_Database (cf_Database cfg),
      rp_User = dc_User (cf_Database cfg), rp_Password = dc_Password (cf_Database cfg),
      rp_SlotName = ''witnz_'' @ cn_ID (cf_Node cfg), rp_PublicationName = ''witnz_publication''\<rparr>"

text \<open>The event handler: over Raft if there is a node, and the local one otherwise.\<close>

definition start_handler ::
    "'db bolt \<Rightarrow> (string \<Rightarrow> string) \<Rightarrow> (gotime \<Rightarrow> gotime) \<Rightarrow> HashChainHandler \<Rightarrow> ('r, 'db) Node option \<Rightarrow> ('r \<times> 'db) handler" where
  "start_handler B H clock base node =
     (case node of
        Some n \<Rightarrow> raft_handler B H clock (NewRaftHashChainHandler base (Some n))
      | None \<Rightarrow> (\<lambda>event (r, db). map_option (\<lambda>(res, db'). (res, r, db')) (local_handler B H clock base event db)))"

text \<open>What precedes change data capture: configuration, store, handler and Raft.\<close>

definition start_node ::
    "'db bolt \<Rightarrow> ('v, 'db) cmd_env \<Rightarrow> ('r, 'db) start_env \<Rightarrow> 'r
      \<Rightarrow> (Config \<times> globalHasher \<times> 'db \<times> HashChainHandler \<times> ('r, 'db) Node option) result" where
  "start_node B env senv r =
     bind_res (load_config env) (\<lambda>(cfg, g).
     bind_res (wrap ''failed to initialize storage'' (Storage_New B (ce_Open env (db_path env cfg)))) (\<lambda>store.
     bind_res (protect_loop (cf_ProtectedTables cfg) NewHashChainHandler) (\<lambda>baseHandler.
     bind_res (start_consensus B senv r cfg) (\<lambda>node.
       Inr (cfg, g, store, baseHandler, node)))))"

text \<open>
  The verifier works on the store that Raft replicates into: the same operations, on pairs of
  the state of Raft and the store.
\<close>

definition pair_bolt :: "'db bolt \<Rightarrow> ('r \<times> 'db) bolt" where
  "pair_bolt B =
     (let up = (\<lambda>(r :: 'r) res. case res of Inl err \<Rightarrow> Inl err | Inr db \<Rightarrow> Inr (r, db)) in
      \<lparr>bolt_create = (\<lambda>(r, db) b. up r (bolt_create B db b)),
       bolt_get = (\<lambda>(r, db). bolt_get B db),
       bolt_put = (\<lambda>(r, db) b k v. up r (bolt_put B db b k v)),
       bolt_delete = (\<lambda>(r, db) b k. up r (bolt_delete B db b k)),
       bolt_pairs = (\<lambda>(r, db). bolt_pairs B db),
       bolt_commit = (\<lambda>(r, db). up r (bolt_commit B db))\<rparr>)"

text \<open>A started node as the verifier's RaftNode. (Its Raft is set, so the last case does not arise.)\<close>

definition raft_interface :: "('r, 'db) Node \<Rightarrow> ('r \<times> 'db) RaftNode" where
  "raft_interface n =
     \<lparr>rn_IsLeader = (\<lambda>w. Node_IsLeader n (fst w)),
      rn_ApplyCheckpoint = (\<lambda>c w. case ApplyCheckpoint n c w of Some x \<Rightarrow> x | None \<Rightarrow> (Inl not_initialized, w))\<rparr>"

fun verifier_tables :: "ProtectedTableConfig list \<Rightarrow> 'w MerkleVerifier \<Rightarrow> 'w MerkleVerifier result" where
  "verifier_tables [] v = Inr v"
| "verifier_tables (t # ts) v =
     bind_res (wrap ''invalid table configuration''
       (Verifier_AddTable \<lparr>tc_Name = pt_Name t, tc_VerifyInterval = pt_VerifyInterval t\<rparr> v)) (verifier_tables ts)"

definition start_verifier :: "Config \<Rightarrow> ('r, 'db) Node option \<Rightarrow> ('r \<times> 'db) MerkleVerifier result" where
  "start_verifier cfg node =
     (let v = NewMerkleVerifier (ConnectionString (cf_Database cfg)) in
      verifier_tables (cf_ProtectedTables cfg) (case node of None \<Rightarrow> v | Some n \<Rightarrow> SetRaftNode (raft_interface n) v))"

text \<open>
  How the goroutines of the command run: what the receiving loop meets before the tables are
  verified at the start, and after that until the signal comes or the process ends; what the
  periodic verification has done to the state of Raft and the store by then; and which
  goroutines of the verifier get to run when the command ends with an error. (Turns of the
  receiving loop during the verification at the start count as before or after it.)
\<close>

record 's schedule =
  sc_before :: "loop_input list"
  sc_after :: "loop_input list"
  sc_periodic :: "'s \<Rightarrow> 's"
  sc_runs :: "string \<times> int \<Rightarrow> bool"

text \<open>The receiving loop goes on, unless it has ended.\<close>

definition receive_on ::
    "pglogrepl \<Rightarrow> (64 word \<Rightarrow> string) \<Rightarrow> 64 word \<Rightarrow> ('w, 's) Manager \<Rightarrow> loop_input list \<Rightarrow> bool \<times> ('w, 's) loop_state
      \<Rightarrow> (bool \<times> ('w, 's) loop_state) option" where
  "receive_on L dur ovf m inputs = (\<lambda>(ended, ls). if ended then Some (ended, ls) else receive_loop L dur ovf m inputs ls)"

text \<open>
  From the start of replication on. \<^const>\<open>None\<close> is a panic, also that of the receiving loop or of a
  goroutine of the verifier, which ends the process. When Start of the verifier returns an
  error, the goroutines it has started before are not stopped; otherwise they are waited for
  at the end, since the deferred Stop of the verifier runs after that of the manager, so each of
  them gets to run.
\<close>

definition start_run ::
    "'db bolt \<Rightarrow> (string \<Rightarrow> string) \<Rightarrow> string \<Rightarrow> pglogrepl \<Rightarrow> (64 word \<Rightarrow> string) \<Rightarrow> 64 word \<Rightarrow> (string \<Rightarrow> int result)
      \<Rightarrow> (nat \<Rightarrow> gotime \<times> pg \<times> pg) \<Rightarrow> ('r \<times> 'db) schedule \<Rightarrow> Config \<Rightarrow> ('r, 'db) Node option
      \<Rightarrow> ('w, 'r \<times> 'db) Manager \<Rightarrow> ('w, 'r \<times> 'db) ReplicationClient \<Rightarrow> 'w \<Rightarrow> 'r \<times> 'db \<Rightarrow> unit result option" where
  "start_run B H alg L dur ovf ParseDuration reads sch cfg node m client w s =
     Option.bind (receiveLoop L dur ovf m client (sc_before sch) w s) (\<lambda>(ended, ls).
       case start_verifier cfg node of
         Inl err \<Rightarrow> map_option (\<lambda>_. Inl err) (receive_on L dur ovf m (sc_after sch) (ended, ls))
       | Inr v \<Rightarrow>
           Option.bind (Verifier_Start (pair_bolt B) H alg ParseDuration v reads (ls_state ls)) (\<lambda>(started, res, s1).
           Option.bind (receive_on L dur ovf m (sc_after sch) (ended, ls\<lparr>ls_state := sc_periodic sch s1\<rparr>)) (\<lambda>(_, ls1).
             case res of
               Inl err \<Rightarrow>
                 if list_ex (\<lambda>(table, interval). sc_runs sch (table, interval) \<and> NewTicker_panics interval) started then None
                 else Some (Inl (Wrapf ''failed to start Merkle verifier'' err))
             | Inr _ \<Rightarrow>
                 if list_ex (\<lambda>(_, interval). NewTicker_panics interval) started then None
                 else Option.bind (Manager_Stop (m\<lparr>mg_client := Some (ls_client ls1)\<rparr>) (ls_world ls1)) (\<lambda>(stopped, _).
                   map_option (\<lambda>_. wrap ''failed to stop CDC manager'' stopped) (Verifier_Stop v)))))"

text \<open>The command; a manager that has been started has a client.\<close>

definition startCmd ::
    "'db bolt \<Rightarrow> digests \<Rightarrow> ('v, 'db) cmd_env \<Rightarrow> ('r, 'db) start_env \<Rightarrow> 'r \<Rightarrow> (gotime \<Rightarrow> gotime)
      \<Rightarrow> (string \<Rightarrow> 'w \<Rightarrow> 'w pgx result \<times> 'w) \<Rightarrow> (string \<Rightarrow> 'w \<Rightarrow> 'w pgconn result \<times> 'w)
      \<Rightarrow> pglogrepl \<Rightarrow> (64 word \<Rightarrow> string) \<Rightarrow> 64 word
      \<Rightarrow> (string \<Rightarrow> int result) \<Rightarrow> (nat \<Rightarrow> gotime \<times> pg \<times> pg) \<Rightarrow> ('r \<times> 'db) schedule \<Rightarrow> 'w \<Rightarrow> unit result option" where
  "startCmd B ds env senv r clock pgx_connect pgconn_connect L dur ovf ParseDuration reads sch w =
     (case start_node B env senv r of
        Inl err \<Rightarrow> Some (Inl err)
      | Inr (cfg, g, store, baseHandler, node) \<Rightarrow>
          (let H = Hasher_Hash ds (GetHasher g);
               manager = AddHandler (start_handler B H clock baseHandler node) (NewManager (cdc_config cfg))
           in case Manager_Initialize pgx_connect pgconn_connect manager w of
                (Inl err, _) \<Rightarrow> Some (Inl (Wrapf ''failed to initialize CDC manager'' err))
              | (Inr _, m1, w1) \<Rightarrow>
                  (case Manager_Start m1 w1 of
                     (Inl err, _) \<Rightarrow> Some (Inl (Wrapf ''failed to start CDC manager'' err))
                   | (Inr _, m2, w2) \<Rightarrow>
                       Option.bind (mg_client m2) (\<lambda>client.
                         start_run B H (Hasher_Name (GetHasher g)) L dur ovf ParseDuration reads sch cfg node m2 client w2 (r, store)))))"

section \<open>status\<close>

text \<open>The text of one table; \<open>rfc3339\<close> renders a time. The slice DataHash[:16] panics on a shorter hash.\<close>

definition status_entry :: "(gotime \<Rightarrow> string) \<Rightarrow> HashEntry result \<Rightarrow> string list option" where
  "status_entry rfc3339 latest =
     (case latest of
        Inl _ \<Rightarrow> Some [''    No entries yet'']
      | Inr e \<Rightarrow>
          if length (DataHash e) < 16 then None
          else Some [''    Latest sequence: '' @ fmt_d (unat (SequenceNum e)),
                     ''    Latest data hash: '' @ take 16 (DataHash e) @ ''...'',
                     ''    Timestamp: '' @ rfc3339 (Timestamp e)])"

definition status_checkpoint :: "MerkleCheckpoint result \<Rightarrow> string list" where
  "status_checkpoint cp =
     (case cp of
        Inl _ \<Rightarrow> []
      | Inr c \<Rightarrow> [''    Latest checkpoint: seq='' @ fmt_d (unat (cp_SequenceNum c)) @ '', records='' @ fmt_int (cp_RecordCount c)])"

fun status_tables :: "'db bolt \<Rightarrow> (gotime \<Rightarrow> string) \<Rightarrow> ProtectedTableConfig list \<Rightarrow> 'db \<Rightarrow> string list option" where
  "status_tables B rfc3339 [] db = Some []"
| "status_tables B rfc3339 (t # ts) db =
     Option.bind (status_entry rfc3339 (GetLatestHashEntry B (pt_Name t) db)) (\<lambda>entry.
     Option.bind (status_tables B rfc3339 ts db) (\<lambda>rest.
       Some ([''  - '' @ pt_Name t] @ entry @ status_checkpoint (GetLatestMerkleCheckpoint B (pt_Name t) db) @ rest)))"

fun total_entries :: "'db bolt \<Rightarrow> ProtectedTableConfig list \<Rightarrow> 'db \<Rightarrow> int \<Rightarrow> int" where
  "total_entries B [] db n = n"
| "total_entries B (t # ts) db n =
     total_entries B ts db (case GetAllHashEntries B (pt_Name t) db of Inl _ \<Rightarrow> n | Inr entries \<Rightarrow> n + int (length entries))"

definition status_mode :: "Config \<Rightarrow> string list" where
  "status_mode cfg =
     (if cn_PeerAddrs (cf_Node cfg) \<noteq> [] \<or> cn_Bootstrap (cf_Node cfg) then
        [''Cluster Mode: Raft (bootstrap: '' @ (if cn_Bootstrap (cf_Node cfg) then ''true'' else ''false'') @ '')'',
         ''Peers: '' @ fmt_d (length (cn_PeerAddrs (cf_Node cfg))) @ '' configured'',
         [], ''Note: To check Raft leader status, use '' @ [CHR 0x27] @ ''docker-compose logs'' @ [CHR 0x27] @ '' and look for:'',
         ''  - '' @ [CHR 0x27] @ ''entering leader state'' @ [CHR 0x27] @ '' (this node is leader)'',
         ''  - '' @ [CHR 0x27] @ ''entering follower state'' @ [CHR 0x27] @ '' (this node is follower)'']
      else [''Cluster Mode: single-node (no Raft)''])"

text \<open>The lines the command prints, or its error.\<close>

definition statusCmd :: "'db bolt \<Rightarrow> (gotime \<Rightarrow> string) \<Rightarrow> ('v, 'db) cmd_env \<Rightarrow> string list result option" where
  "statusCmd B rfc3339 env =
     (case bind_res (load_config env) (\<lambda>(cfg, g).
             bind_res (wrap ''failed to open storage'' (Storage_New B (ce_Open env (db_path env cfg)))) (\<lambda>store. Inr (cfg, store))) of
        Inl err \<Rightarrow> Some (Inl err)
      | Inr (cfg, store) \<Rightarrow>
          map_option (\<lambda>tables. Inr
            ([''Node ID: '' @ cn_ID (cf_Node cfg), ''Data Directory: '' @ cn_DataDir (cf_Node cfg),
              ''Bind Address: '' @ cn_BindAddr (cf_Node cfg)]
             @ status_mode cfg @ [[], ''Protected Tables:''] @ tables
             @ [[], ''Storage Statistics:'', ''  Total hash entries: '' @ fmt_int (total_entries B (cf_ProtectedTables cfg) store 0)]))
            (status_tables B rfc3339 (cf_ProtectedTables cfg) store))"

section \<open>verify\<close>

text \<open>The loop: each table with the time and the database reads of its verification.\<close>

definition verify_line :: "unit result \<Rightarrow> string" where
  "verify_line res =
     (case res of
        Inl err \<Rightarrow> ''  '' @ [CHR 0xE2, CHR 0x9D, CHR 0x8C] @ '' FAILED: '' @ error_text err
      | Inr _ \<Rightarrow> ''  '' @ [CHR 0xE2, CHR 0x9C, CHR 0x85] @ '' OK: Merkle Root is intact'')"

fun verify_loop_cmd ::
    "'db bolt \<Rightarrow> (string \<Rightarrow> string) \<Rightarrow> string \<Rightarrow> 'db MerkleVerifier \<Rightarrow> string list \<Rightarrow> (nat \<Rightarrow> gotime \<times> pg \<times> pg) \<Rightarrow> nat \<Rightarrow> 'db
      \<Rightarrow> (string list \<times> 'db) option" where
  "verify_loop_cmd B H alg v [] reads i db = Some ([], db)"
| "verify_loop_cmd B H alg v (table # tables) reads i db =
     (case reads i of (now, pg1, pg2) \<Rightarrow>
        Option.bind (VerifyTable B H alg now v pg1 pg2 table db) (\<lambda>(res, db').
        Option.bind (verify_loop_cmd B H alg v tables reads (Suc i) db') (\<lambda>(out, db'').
          Some ((''Verifying table: '' @ table) # verify_line res # out, db''))))"

definition tables_to_verify :: "string list \<Rightarrow> Config \<Rightarrow> string list" where
  "tables_to_verify args cfg = (case args of a # _ \<Rightarrow> [a] | [] \<Rightarrow> map pt_Name (cf_ProtectedTables cfg))"

text \<open>
  The function RunE of the command. (That there is at most one argument is checked by cobra
  before it calls this function.)
\<close>

definition verifyCmd ::
    "'db bolt \<Rightarrow> digests \<Rightarrow> ('v, 'db) cmd_env \<Rightarrow> string list \<Rightarrow> (nat \<Rightarrow> gotime \<times> pg \<times> pg) \<Rightarrow> (string list \<times> 'db) result option" where
  "verifyCmd B ds env args reads =
     (case bind_res (load_config env) (\<lambda>(cfg, g).
             bind_res (wrap ''failed to open storage'' (Storage_New B (ce_Open env (db_path env cfg)))) (\<lambda>store. Inr (cfg, g, store))) of
        Inl err \<Rightarrow> Some (Inl err)
      | Inr (cfg, g, store) \<Rightarrow>
          map_option Inr
            (verify_loop_cmd B (Hasher_Hash ds (GetHasher g)) (Hasher_Name (GetHasher g))
              (NewMerkleVerifier (ConnectionString (cf_Database cfg))) (tables_to_verify args cfg) reads 0 store))"

text \<open>The exit code of the program: 1 exactly if the command returns an error.\<close>

definition exit_code :: "'a result \<Rightarrow> int" where
  "exit_code r = (case r of Inl _ \<Rightarrow> 1 | Inr _ \<Rightarrow> 0)"

section \<open>Lemmas\<close>

text \<open>Opening the store keeps what is in it.\<close>

context bolt_store
begin

lemma Storage_New_keeps:
  assumes "Storage_New B (Inr db) = Inr db'"
  shows "bolt_get B db' = bolt_get B db"
  using assms by (auto simp: Storage_New_def db_Update_def bind_res_eq_Inr_iff dest!: get_create get_commit)

end

lemma protect_loop_ok:
  assumes "protect_loop ts h = Inr h'" "handler_inv h"
  shows "handler_inv h' \<and> list_all (\<lambda>t. validTableName (pt_Name t)) ts
    \<and> (\<forall>t. map_of (tableConfigs h') t \<noteq> None \<longleftrightarrow> map_of (tableConfigs h) t \<noteq> None \<or> t \<in> pt_Name ` set ts)"
  using assms
proof (induction ts arbitrary: h)
  case (Cons p ts)
  then obtain h1 where h1: "Handler_AddTable \<lparr>tc_Name = pt_Name p, tc_VerifyInterval = []\<rparr> h = Inr h1" "protect_loop ts h1 = Inr h'"
    by (auto simp: bind_res_eq_Inr_iff)
  moreover have "handler_inv h1" using handler_inv_AddTable [OF Cons.prems(2) h1(1)] .
  moreover have "map_of (tableConfigs h1) t \<noteq> None \<longleftrightarrow> map_of (tableConfigs h) t \<noteq> None \<or> t = pt_Name p" "validTableName (pt_Name p)" for t
    using h1(1) by (auto simp: Handler_AddTable_def update_conv' split: if_splits)
  ultimately show ?case using Cons.IH [of h1] by auto
qed simp

definition table_config :: "ProtectedTableConfig \<Rightarrow> TableConfig" where
  "table_config t = \<lparr>tc_Name = pt_Name t, tc_VerifyInterval = pt_VerifyInterval t\<rparr>"

lemma table_config_sel [simp]: "tc_Name (table_config t) = pt_Name t" "tc_VerifyInterval (table_config t) = pt_VerifyInterval t"
  by (simp_all add: table_config_def)

lemma verifier_tables_ok:
  "list_all (\<lambda>t. validTableName (pt_Name t)) ts \<Longrightarrow>
   \<exists>v'. verifier_tables ts v = Inr v' \<and> mv_tables v' = mv_tables v @ map table_config ts \<and> mv_stopCh v' = mv_stopCh v"
proof (induction ts arbitrary: v)
  case (Cons t ts)
  let ?v = "v\<lparr>mv_tables := mv_tables v @ [\<lparr>tc_Name = pt_Name t, tc_VerifyInterval = pt_VerifyInterval t\<rparr>]\<rparr>"
  from Cons.IH [of ?v] Cons.prems show ?case by (auto simp: Verifier_AddTable_def table_config_def)
qed simp

lemma start_verifier_ok:
  assumes "list_all (\<lambda>t. validTableName (pt_Name t)) (cf_ProtectedTables cfg)"
  shows "\<exists>v. start_verifier cfg node = Inr v \<and> mv_tables v = map table_config (cf_ProtectedTables cfg) \<and> \<not> mv_stopCh v"
  using verifier_tables_ok [OF assms]
  by (fastforce simp: start_verifier_def NewMerkleVerifier_def SetRaftNode_def Let_def split: option.splits)

text \<open>
  The intervals of the tables that have one, and the goroutines that the verifier starts: those
  before the first interval that is no duration.
\<close>

definition intervals :: "(string \<Rightarrow> int result) \<Rightarrow> ProtectedTableConfig list \<Rightarrow> (string \<times> int result) list" where
  "intervals P ts = [(pt_Name t, P (pt_VerifyInterval t)). t \<leftarrow> ts, pt_VerifyInterval t \<noteq> []]"

lemma start_periodic_intervals:
  "fst (start_periodic P (map table_config ts)) =
     map (\<lambda>(t, iv). (t, projr iv)) (takeWhile (\<lambda>(t, iv). \<not> isl iv) (intervals P ts))
   \<and> isl (snd (start_periodic P (map table_config ts))) = list_ex (\<lambda>(t, iv). isl iv) (intervals P ts)"
proof (induction ts)
  case (Cons t ts)
  then show ?case by (cases "start_periodic P (map table_config ts)"; cases "P (pt_VerifyInterval t)") (auto simp: intervals_def)
qed (simp add: intervals_def)

lemma start_handler_contract:
  "event_handler (start_handler B H clock base node) (\<lambda>t. map_of (tableConfigs base) t \<noteq> None)"
proof (cases node)
  case None
  show ?thesis
    unfolding start_handler_def None
    by unfold_locales (auto simp: local.ignores local.reports)
next
  case (Some n)
  have "rh_handler (NewRaftHashChainHandler base (Some n)) = base" by (simp add: NewRaftHashChainHandler_def)
  with replicated.event_handler_axioms [of B H clock "NewRaftHashChainHandler base (Some n)"] show ?thesis
    by (simp add: start_handler_def Some)
qed

lemma status_tables_None_iff:
  "status_tables B rfc3339 ts db = None \<longleftrightarrow>
   (\<exists>t \<in> set ts. \<exists>e. GetLatestHashEntry B (pt_Name t) db = Inr e \<and> length (DataHash e) < 16)"
proof (induction ts)
  case (Cons t ts)
  have "status_entry rfc3339 r = None \<longleftrightarrow> (\<exists>e. r = Inr e \<and> length (DataHash e) < 16)" for r
    by (auto simp: status_entry_def split: sum.splits)
  with Cons show ?case by (auto simp: bind_eq_None_conv)
qed simp

lemma total_entries_sum:
  "total_entries B ts db n =
     n + (\<Sum>t \<leftarrow> ts. case GetAllHashEntries B (pt_Name t) db of Inl _ \<Rightarrow> 0 | Inr es \<Rightarrow> int (length es))"
  by (induction B ts db n rule: total_entries.induct) (auto split: sum.splits)

lemma verify_loop_cmd_some: "\<exists>r. verify_loop_cmd B H alg v tables reads i db = Some r"
proof (induction tables arbitrary: i db)
  case (Cons t tables)
  obtain now pg1 pg2 where r: "reads i = (now, pg1, pg2)" by (cases "reads i") auto
  obtain res db' where "VerifyTable B H alg now v pg1 pg2 t db = Some (res, db')"
    using VerifyTable_some [of B H alg now v pg1 pg2 t db] by fastforce
  moreover obtain out db'' where "verify_loop_cmd B H alg v tables reads (Suc i) db' = Some (out, db'')"
    using Cons [of "Suc i" db'] by fastforce
  ultimately show ?case by (simp add: r)
qed simp

section \<open>Properties\<close>

text \<open>
  C23. When the command start has set up its node, the tables of the
  configuration, and no others, are protected: the event handler, over Raft or local, reports
  every update and deletion of them and ignores all other tables, and the verifier is given the
  same tables. A table with an invalid name keeps the node from starting.
\<close>

theorem start_protects:
  assumes "start_node B env senv r = Inr (cfg, g, store, baseHandler, node)"
  shows "handler_inv baseHandler \<and> (\<forall>t \<in> set (cf_ProtectedTables cfg). validTableName (pt_Name t))
    \<and> event_handler (start_handler B H clock baseHandler node) (\<lambda>t. t \<in> pt_Name ` set (cf_ProtectedTables cfg))
    \<and> (\<exists>v. start_verifier cfg node = Inr v \<and> map tc_Name (mv_tables v) = map pt_Name (cf_ProtectedTables cfg))"
proof -
  have p: "protect_loop (cf_ProtectedTables cfg) NewHashChainHandler = Inr baseHandler"
    using assms by (auto simp: start_node_def bind_res_eq_Inr_iff)
  note ok = protect_loop_ok [OF p handler_inv_New]
  then have "(\<lambda>t. map_of (tableConfigs baseHandler) t \<noteq> None) = (\<lambda>t. t \<in> pt_Name ` set (cf_ProtectedTables cfg))"
    by (simp add: NewHashChainHandler_def)
  with start_handler_contract [of B H clock baseHandler node]
  have c: "event_handler (start_handler B H clock baseHandler node) (\<lambda>t. t \<in> pt_Name ` set (cf_ProtectedTables cfg))" by simp
  obtain v where "start_verifier cfg node = Inr v" "mv_tables v = map table_config (cf_ProtectedTables cfg)"
    using start_verifier_ok [of cfg node] ok by auto
  then have "map tc_Name (mv_tables v) = map pt_Name (cf_ProtectedTables cfg)" by simp
  then show ?thesis using c ok \<open>start_verifier cfg node = Inr v\<close> by (auto simp: list_all_iff)
qed

text \<open>
  C24. When the command start has set up its node and replication has started, it
  ends in a panic if the receiving loop does, or if a goroutine of the verifier that gets to run
  has an interval that is zero or negative, though the configuration has been accepted: every
  goroutine gets to run if all intervals are durations, and only those of tables before the
  first that is none can otherwise. If there is no panic, the command ends with an error if some
  interval is no duration, and else returns, after the signal, what closing the connection
  returns then.
\<close>

theorem start_outcome:
  assumes "start_node B env senv r = Inr (cfg, g, store, baseHandler, node)"
    and "H = Hasher_Hash ds (GetHasher g)" "alg = Hasher_Name (GetHasher g)"
    and "Manager_Initialize pgx_connect pgconn_connect
      (AddHandler (start_handler B H clock baseHandler node) (NewManager (cdc_config cfg))) w = (Inr (), m1, w1)"
    and "Manager_Start m1 w1 = (Inr (), m2, w2)" "mg_client m2 = Some client"
    and "ivs = intervals ParseDuration (cf_ProtectedTables cfg)"
    and "panics = list_ex (\<lambda>(table, iv). projr iv \<le> 0 \<and> (list_ex (\<lambda>(_, iv). isl iv) ivs \<longrightarrow> sc_runs sch (table, projr iv)))
      (takeWhile (\<lambda>(_, iv). \<not> isl iv) ivs)"
    and "outcome = startCmd B ds env senv r clock pgx_connect pgconn_connect L dur ovf ParseDuration reads sch w"
  shows "(receiveLoop L dur ovf m2 client (sc_before sch) w2 (r, store) = None \<longrightarrow> outcome = None)
    \<and> (\<forall>ended ls. receiveLoop L dur ovf m2 client (sc_before sch) w2 (r, store) = Some (ended, ls) \<longrightarrow>
        (\<exists>v s1. start_verifier cfg node = Inr v \<and> startup_loop (pair_bolt B) H alg v (mv_tables v) reads 0 (ls_state ls) = Some s1
          \<and> (receive_on L dur ovf m2 (sc_after sch) (ended, ls\<lparr>ls_state := sc_periodic sch s1\<rparr>) = None \<longrightarrow> outcome = None)
          \<and> (\<forall>ended' ls'. receive_on L dur ovf m2 (sc_after sch) (ended, ls\<lparr>ls_state := sc_periodic sch s1\<rparr>) = Some (ended', ls') \<longrightarrow>
              (panics \<longrightarrow> outcome = None)
              \<and> (\<not> panics \<and> list_ex (\<lambda>(_, iv). isl iv) ivs \<longrightarrow>
                  (\<exists>err. outcome = Some (Inl (Wrapf ''failed to start Merkle verifier'' err))))
              \<and> (\<not> panics \<and> \<not> list_ex (\<lambda>(_, iv). isl iv) ivs \<longrightarrow>
                  outcome = Some (wrap ''failed to stop CDC manager'' (fst (Client_Close (ls_client ls') (ls_world ls'))))))))"
proof -
  let ?run = "start_run B H alg L dur ovf ParseDuration reads sch cfg node m2 client w2 (r, store)"
  have out: "outcome = ?run" using assms(1-6,9) by (simp add: startCmd_def Let_def)
  have "protect_loop (cf_ProtectedTables cfg) NewHashChainHandler = Inr baseHandler"
    using assms(1) by (auto simp: start_node_def bind_res_eq_Inr_iff)
  from protect_loop_ok [OF this handler_inv_New] obtain v where
    v: "start_verifier cfg node = Inr v" "mv_tables v = map table_config (cf_ProtectedTables cfg)" "\<not> mv_stopCh v"
    using start_verifier_ok [of cfg node] by auto
  have stop: "Manager_Stop (m2\<lparr>mg_client := Some c\<rparr>) w' =
      Some (fst (Client_Close c w'), m2\<lparr>mg_client := Some c, mg_running := False, mg_stopCh := True\<rparr>, snd (Client_Close c w'))" for c w'
    using manager_fresh [OF assms(4) _ assms(5)]
    by (simp add: Manager_Stop_def AddHandler_def NewManager_def Let_def split: prod.split)
  obtain started res where p: "start_periodic ParseDuration (mv_tables v) = (started, res)" by force
  have started: "started = map (\<lambda>(t, iv). (t, projr iv)) (takeWhile (\<lambda>(t, iv). \<not> isl iv) ivs)" "isl res = list_ex (\<lambda>(_, iv). isl iv) ivs"
    using start_periodic_intervals [of ParseDuration "cf_ProtectedTables cfg"] p by (simp_all add: v(2) assms(7))
  have panics: "panics \<longleftrightarrow> list_ex (\<lambda>(t, i). (isl res \<longrightarrow> sc_runs sch (t, i)) \<and> NewTicker_panics i) started"
    unfolding assms(8) started by (simp add: list_ex_iff NewTicker_panics_def case_prod_beta) blast
  have "\<exists>v s1. start_verifier cfg node = Inr v \<and> startup_loop (pair_bolt B) H alg v (mv_tables v) reads 0 (ls_state ls) = Some s1
      \<and> (receive_on L dur ovf m2 (sc_after sch) (ended, ls\<lparr>ls_state := sc_periodic sch s1\<rparr>) = None \<longrightarrow> outcome = None)
      \<and> (\<forall>ended' ls'. receive_on L dur ovf m2 (sc_after sch) (ended, ls\<lparr>ls_state := sc_periodic sch s1\<rparr>) = Some (ended', ls') \<longrightarrow>
          (panics \<longrightarrow> outcome = None)
          \<and> (\<not> panics \<and> list_ex (\<lambda>(_, iv). isl iv) ivs \<longrightarrow> (\<exists>err. outcome = Some (Inl (Wrapf ''failed to start Merkle verifier'' err))))
          \<and> (\<not> panics \<and> \<not> list_ex (\<lambda>(_, iv). isl iv) ivs \<longrightarrow>
              outcome = Some (wrap ''failed to stop CDC manager'' (fst (Client_Close (ls_client ls') (ls_world ls'))))))"
    if rl: "receiveLoop L dur ovf m2 client (sc_before sch) w2 (r, store) = Some (ended, ls)" for ended ls
  proof -
    obtain s1 where s1: "startup_loop (pair_bolt B) H alg v (mv_tables v) reads 0 (ls_state ls) = Some s1"
      using startup_loop_some [of "pair_bolt B" H alg v "mv_tables v" reads 0 "ls_state ls"] by (elim exE)
    have run: "?run = Option.bind (receive_on L dur ovf m2 (sc_after sch) (ended, ls\<lparr>ls_state := sc_periodic sch s1\<rparr>)) (\<lambda>(_, ls1).
        if panics then None
        else case res of
          Inl err \<Rightarrow> Some (Inl (Wrapf ''failed to start Merkle verifier'' err))
        | Inr _ \<Rightarrow> Some (wrap ''failed to stop CDC manager'' (fst (Client_Close (ls_client ls1) (ls_world ls1)))))"
      using v(3) by (cases res; cases "receive_on L dur ovf m2 (sc_after sch) (ended, ls\<lparr>ls_state := sc_periodic sch s1\<rparr>)")
        (auto simp: start_run_def rl v(1) Verifier_Start_def s1 p stop panics Verifier_Stop_def split: prod.splits)
    show ?thesis
      by (rule exI [of _ v], rule exI [of _ s1]) (use v(1) s1 started(2) in \<open>cases res; simp add: out run isl_def\<close>)
  qed
  moreover have "receiveLoop L dur ovf m2 client (sc_before sch) w2 (r, store) = None \<longrightarrow> outcome = None"
    by (simp add: out start_run_def)
  ultimately show ?thesis by blast
qed

text \<open>
  The command status ends in a panic exactly if the latest entry of some
  protected table has a data hash shorter than 16 bytes, which no hash algorithm of the program
  produces; otherwise it prints, last, the total of the stored entries of all protected tables.
\<close>

theorem status_panics:
  assumes "load_config env = Inr (cfg, g)" "Storage_New B (ce_Open env (db_path env cfg)) = Inr store"
  shows "(statusCmd B rfc3339 env = None \<longleftrightarrow>
      (\<exists>t \<in> set (cf_ProtectedTables cfg). \<exists>e. GetLatestHashEntry B (pt_Name t) store = Inr e \<and> length (DataHash e) < 16))
    \<and> 16 \<le> hash_width (GetHasher g)
    \<and> (\<forall>out. statusCmd B rfc3339 env = Some (Inr out) \<longrightarrow> last out = ''  Total hash entries: '' @
        fmt_int (\<Sum>t \<leftarrow> cf_ProtectedTables cfg. case GetAllHashEntries B (pt_Name t) store of Inl _ \<Rightarrow> 0 | Inr es \<Rightarrow> int (length es)))"
proof -
  have "16 \<le> hash_width (GetHasher g)" by (cases "GetHasher g") simp_all
  then show ?thesis
    using assms status_tables_None_iff [of B rfc3339 "cf_ProtectedTables cfg" store]
    by (auto simp: statusCmd_def total_entries_sum)
qed

text \<open>
  C32. The command verify prints the verdict of VerifyTable and returns no
  error whatever it is: once the configuration and the store have been opened, the exit code
  is 0, also when tampering is found.
\<close>

theorem verify_exit_code:
  assumes "load_config env = Inr (cfg, g)" "Storage_New B (ce_Open env (db_path env cfg)) = Inr store"
  shows "(\<exists>out. verifyCmd B ds env args reads = Some (Inr out) \<and> exit_code (Inr out) = 0)
    \<and> (\<forall>t res db'. VerifyTable B (Hasher_Hash ds (GetHasher g)) (Hasher_Name (GetHasher g)) (fst (reads 0))
           (NewMerkleVerifier (ConnectionString (cf_Database cfg))) (fst (snd (reads 0))) (snd (snd (reads 0))) t store = Some (res, db') \<longrightarrow>
         verifyCmd B ds env [t] reads = Some (Inr ([''Verifying table: '' @ t, verify_line res], db')))"
proof -
  have run: "verifyCmd B ds env args reads =
      map_option Inr (verify_loop_cmd B (Hasher_Hash ds (GetHasher g)) (Hasher_Name (GetHasher g))
        (NewMerkleVerifier (ConnectionString (cf_Database cfg))) (tables_to_verify args cfg) reads 0 store)" for args
    using assms by (simp add: verifyCmd_def)
  obtain out where "verifyCmd B ds env args reads = Some (Inr out)"
    using verify_loop_cmd_some unfolding run by fast
  moreover have "verifyCmd B ds env [t] reads = Some (Inr ([''Verifying table: '' @ t, verify_line res], db'))"
    if "VerifyTable B (Hasher_Hash ds (GetHasher g)) (Hasher_Name (GetHasher g)) (fst (reads 0))
           (NewMerkleVerifier (ConnectionString (cf_Database cfg))) (fst (snd (reads 0))) (snd (snd (reads 0))) t store = Some (res, db')"
    for t res db'
    using that unfolding run by (cases "reads 0") (simp add: tables_to_verify_def)
  ultimately show ?thesis by (auto simp: exit_code_def)
qed

text \<open>A node that bootstraps a cluster of its own, with the table logs.\<close>

definition sample_viper :: "unit viper" where
  "sample_viper = \<lparr>vp_ReadInConfig = Inr (), vp_AllKeys = (\<lambda>_. [''database.host'']), vp_GetString = (\<lambda>_ _. ''db''),
     vp_Set = (\<lambda>_ _ v. v), vp_Unmarshal = (\<lambda>_. Inr sample_cfg)\<rparr>"

definition sample_interval_cfg :: "string \<Rightarrow> Config" where
  "sample_interval_cfg iv = sample_cfg\<lparr>cf_ProtectedTables := [\<lparr>pt_Name = ''logs'', pt_VerifyInterval = iv\<rparr>]\<rparr>"

definition sample_cmd_env :: "string \<Rightarrow> (unit, mem_db) cmd_env" where
  "sample_cmd_env iv = \<lparr>ce_cfgFile = ''witnz.yaml'', ce_Stat = (\<lambda>_. True), ce_viper = (\<lambda>_. sample_viper\<lparr>vp_Unmarshal := (\<lambda>_. Inr (sample_interval_cfg iv))\<rparr>), ce_Getenv = (\<lambda>_. []),
     ce_Join = (\<lambda>a b. a @ ''/'' @ b), ce_MkdirAll = (\<lambda>_. Inr ()), ce_Open = (\<lambda>_. Inr [])\<rparr>"

definition sample_valid_cfg :: "string \<Rightarrow> Config" where
  "sample_valid_cfg iv = (sample_interval_cfg iv)\<lparr>cf_Hash := \<lparr>hc_Algorithm = ''sha256''\<rparr>\<rparr>"

lemma sample_load: "load_config (sample_cmd_env iv) = Inr ((sample_valid_cfg iv), Some sha256Hasher)"
proof -
  let ?v = "sample_viper\<lparr>vp_Unmarshal := (\<lambda>_. Inr (sample_interval_cfg iv))\<rparr>"
  have "Validate (sample_interval_cfg iv) = Inr (sample_valid_cfg iv)"
    by (simp add: Validate_ok_iff required_fields_def algorithm_or_default_def sample_valid_cfg_def sample_interval_cfg_def sample_cfg_def validAlgorithms_def)
  moreover have "expand_loop ?v (\<lambda>_. []) (vp_AllKeys ?v ()) () = ()" by simp
  ultimately have "Load ?v (\<lambda>_. []) = Inr (sample_valid_cfg iv)" by (simp add: Load_def sample_viper_def)
  moreover have "findConfigFile (sample_cmd_env iv) = Inr ''witnz.yaml''" by (simp add: findConfigFile_def sample_cmd_env_def)
  ultimately show ?thesis by (simp add: load_config_def sample_cmd_env_def sample_valid_cfg_def Initialize_def)
qed

lemma sample_store: "\<exists>store. Storage_New mem_bolt (ce_Open (sample_cmd_env iv) p) = Inr store"
  by (simp add: Storage_New_def sample_cmd_env_def db_Update_def mem_bolt_def)

lemma sample_consensus: "\<exists>n. start_consensus mem_bolt sample_env sample_voter (sample_valid_cfg iv) = Inr (Some n)"
proof -
  have "start_raft mem_bolt sample_env = Inr (single_raft mem_bolt, l, s, ''127.0.0.1:7000'') \<Longrightarrow> ?thesis" for l s
    by (simp add: start_consensus_def Node_Start_def start_cluster_def sample_valid_cfg_def sample_interval_cfg_def sample_cfg_def raft_config_def NewNode_def
        sample_env_def SyncHashChainFromLeader_def Node_IsLeader_def single_raft_def sample_voter_def)
  moreover have "\<exists>l s. start_raft mem_bolt sample_env = Inr (single_raft mem_bolt, l, s, ''127.0.0.1:7000'')"
    by (simp add: start_raft_def sample_env_def NewBoltStore_def BoltStore_initialize_def db_Update_def mem_bolt_def)
  ultimately show ?thesis by blast
qed

lemma sample_tables: "cf_ProtectedTables (sample_valid_cfg iv) = [\<lparr>pt_Name = ''logs'', pt_VerifyInterval = iv\<rparr>]"
  by (simp add: sample_valid_cfg_def sample_interval_cfg_def)

lemma sample_start:
  "\<exists>store h n. start_node mem_bolt (sample_cmd_env iv) sample_env sample_voter = Inr ((sample_valid_cfg iv), Some sha256Hasher, store, h, Some n)"
proof -
  obtain store where store: "Storage_New mem_bolt (ce_Open (sample_cmd_env iv) (db_path (sample_cmd_env iv) (sample_valid_cfg iv))) = Inr store"
    using sample_store by blast
  obtain n where n: "start_consensus mem_bolt sample_env sample_voter (sample_valid_cfg iv) = Inr (Some n)" using sample_consensus by blast
  have "\<exists>h. protect_loop (cf_ProtectedTables (sample_valid_cfg iv)) NewHashChainHandler = Inr h"
    by (simp add: sample_tables Handler_AddTable_def name_start_def name_char_def)
  then show ?thesis by (auto simp: start_node_def sample_load store n)
qed

theorem start_protects_witness:
  "\<exists>store baseHandler node. start_node mem_bolt (sample_cmd_env ''5m'') sample_env sample_voter =
      Inr ((sample_valid_cfg ''5m''), Some sha256Hasher, store, baseHandler, node)
    \<and> event_handler (start_handler mem_bolt sample_hash (\<lambda>t. t) baseHandler node) (\<lambda>t. t = ''logs'')"
proof -
  obtain store h n where s: "start_node mem_bolt (sample_cmd_env ''5m'') sample_env sample_voter = Inr ((sample_valid_cfg ''5m''), Some sha256Hasher, store, h, Some n)"
    using sample_start by blast
  with start_protects [OF s, of sample_hash "\<lambda>t. t"] show ?thesis by (auto simp: sample_tables)
qed

theorem status_panics_witness:
  "statusCmd mem_bolt (\<lambda>t. t) (sample_cmd_env ''5m'') \<noteq> None"
proof -
  obtain store where store: "Storage_New mem_bolt (Inr []) = Inr store" by (simp add: Storage_New_def db_Update_def mem_bolt_def)
  then have s: "Storage_New mem_bolt (ce_Open (sample_cmd_env ''5m'') (db_path (sample_cmd_env ''5m'') (sample_valid_cfg ''5m''))) = Inr store"
    by (simp add: sample_cmd_env_def)
  have "bolt_get mem_bolt store = bolt_get mem_bolt []" using mem.Storage_New_keeps [OF store] .
  then have "bolt_pairs mem_bolt store HashChainBucket = bolt_pairs mem_bolt [] HashChainBucket" by (intro mem.pairs_cong) simp
  then have "bolt_pairs mem_bolt store HashChainBucket = []" by (simp add: mem_bolt_def mem_bucket_def)
  then have "GetLatestHashEntry mem_bolt t store \<noteq> Inr e" for t e
    by (simp add: GetLatestHashEntry_def scan_prefix_def)
  with status_panics [OF sample_load s] show ?thesis by blast
qed

theorem verify_exit_code_witness:
  "\<exists>out. verifyCmd mem_bolt sample_digests (sample_cmd_env ''5m'') [] (\<lambda>_. (''2024'', sample_pg [], sample_pg [])) = Some (Inr out)
    \<and> exit_code (Inr out) = 0"
proof -
  obtain store where "Storage_New mem_bolt (ce_Open (sample_cmd_env ''5m'') (db_path (sample_cmd_env ''5m'') (sample_valid_cfg ''5m''))) = Inr store"
    using sample_store by blast
  from verify_exit_code [OF sample_load this] show ?thesis by blast
qed

text \<open>With the interval 0s the command panics.\<close>

definition sample_durations :: "string \<Rightarrow> int result" where
  "sample_durations s =
     (if s = ''0s'' then Inr 0 else if s = ''5m'' then Inr 300000000000 else Inl (Errorf ''time: invalid duration''))"

lemma sample_replication:
  "\<exists>m1 m2 client. Manager_Initialize (\<lambda>_ w. (Inr sample_pgx, w)) (\<lambda>_ w. (Inr (sample_conn (ReceiveError (Errorf ''EOF''))), w))
      (AddHandler h (NewManager c)) () = (Inr (), m1, ())
    \<and> Manager_Start m1 () = (Inr (), m2, ()) \<and> mg_client m2 = Some client"
  by (simp add: Manager_Initialize_def createPublicationIfNotExists_def sample_pgx_def Client_Connect_def NewReplicationClient_def
      CreateSlotIfNotExists_def sample_conn_def Manager_Start_def StartReplication_def AddHandler_def NewManager_def)

definition sample_schedule :: "'s schedule" where
  "sample_schedule = \<lparr>sc_before = [], sc_after = [], sc_periodic = (\<lambda>s. s), sc_runs = (\<lambda>_. False)\<rparr>"

theorem start_outcome_witness:
  "startCmd mem_bolt sample_digests (sample_cmd_env ''0s'') sample_env sample_voter (\<lambda>t. t)
     (\<lambda>_ w. (Inr sample_pgx, w)) (\<lambda>_ w. (Inr (sample_conn (ReceiveError (Errorf ''EOF''))), w))
     sample_lib (\<lambda>_. []) 0 sample_durations (\<lambda>_. (''2024'', sample_pg [], sample_pg [])) sample_schedule () = None"
proof -
  obtain store h n where s: "start_node mem_bolt (sample_cmd_env ''0s'') sample_env sample_voter = Inr ((sample_valid_cfg ''0s''), Some sha256Hasher, store, h, Some n)"
    using sample_start by blast
  obtain m1 m2 client where m: "Manager_Initialize (\<lambda>_ w. (Inr sample_pgx, w)) (\<lambda>_ w. (Inr (sample_conn (ReceiveError (Errorf ''EOF''))), w))
      (AddHandler (start_handler mem_bolt (Hasher_Hash sample_digests (GetHasher (Some sha256Hasher))) (\<lambda>t. t) h (Some n)) (NewManager (cdc_config (sample_valid_cfg ''0s'')))) () = (Inr (), m1, ())"
    "Manager_Start m1 () = (Inr (), m2, ())" "mg_client m2 = Some client"
    using sample_replication by blast
  have fresh: "\<not> mg_stopCh m2" using manager_fresh [OF m(1) _ m(2)] by (simp add: AddHandler_def NewManager_def)
  have rec: "\<exists>ls. receiveLoop sample_lib (\<lambda>_. []) 0 m2 client (sc_before sample_schedule) () (sample_voter, store) = Some (False, ls)"
    "receive_on sample_lib (\<lambda>_. []) 0 m2 (sc_after sample_schedule) (False, ls) = Some (False, ls)" for ls
    using fresh by (simp_all add: receiveLoop_def receive_on_def sample_schedule_def)
  have "intervals sample_durations (cf_ProtectedTables (sample_valid_cfg ''0s'')) = [(''logs'', Inr 0)]"
    by (simp add: intervals_def sample_tables sample_durations_def)
  then show ?thesis
    using start_outcome [OF s refl refl m refl refl refl, where ParseDuration = sample_durations and sch = sample_schedule
        and L = sample_lib and dur = "\<lambda>_. []" and ovf = 0 and reads = "\<lambda>_. (''2024'', sample_pg [], sample_pg [])"] rec
    by auto
qed

end
