(* ===== verification/Spec2Isabelle.thy ===== *)
theory Spec2Isabelle
  imports System Monitor Commands
begin

text \<open>
  witnz (Go) watches append-only PostgreSQL tables for tampering. Every node follows the
  logical replication stream of the database; an insertion into a protected table becomes a
  hash entry in an embedded store, directly or through a Raft log that all nodes share, and an
  update or deletion raises an alert. A verifier compares the hashes on record with the rows of
  the tables through Merkle trees, at start and periodically, and keeps checkpoints.

  This development translates the program's packages into executable definitions and proves
  what they do. Each theory opens with a description of its own.

  \<^bold>\<open>Layers.\<close>
  \<^item> \<open>Prelude\<close>: errors as values, Go maps as association lists (a statement about every list is
    one about every iteration order), decimal and hexadecimal rendering, byte order of keys.
  \<^item> \<open>Json\<close>: encoding/json for the values the program stores: printing, parsing, UTF-8
    coercion, and that parsing undoes printing.
  \<^item> \<open>Hash\<close> (internal/hash/hash.go): the hash algorithms (SHA-256 in full, the others as
    parameters with their digest sizes), HashChain and MerkleTree; the hash of a record.
  \<^item> \<open>Merkle\<close> (internal/hash/merkle.go): the tree builder, proofs, comparison of trees and leaf maps.
  \<^item> \<open>Bolt\<close>: go.etcd.io/bbolt as a parameter, with its documented behaviour as the locales
    \<open>bolt_store\<close> and \<open>reliable_bolt\<close> and an in-memory store as reference.
  \<^item> \<open>Storage\<close> (internal/storage): hash entries, checkpoints and metadata; the locale
    \<open>hash_store\<close> is what its clients rely on.
  \<^item> \<open>Events\<close>, \<open>Handler\<close> (internal/cdc/types.go, internal/verify/errors.go, handler.go): change
    events, tampering errors and the handler that records insertions.
  \<^item> \<open>Verifier\<close> (internal/verify/merkle_verifier.go): VerifyTable, checkpoints, the periodic loop.
  \<^item> \<open>Monitor\<close>: the handler and the verifier together on one store, as an inductive predicate of
    the states that captured insertions and rounds of verification lead to.
  \<^item> \<open>BoltStore\<close> (internal/consensus/bbolt_store.go): the Raft log and stable store; the locale
    \<open>log_store\<close> is the contract of a Raft log. The cursor of bbolt is a parameter: the locale
    \<open>bolt_cursor\<close> has what is documented of it, which leaves open how it goes on after a change of
    the bucket, and \<open>steady_cursor\<close> what DeleteRange relies on.
  \<^item> \<open>Fsm\<close>, \<open>Cluster\<close> (internal/consensus/types.go, fsm.go): the replicated state machine, its
    snapshots, and a cluster of replicas as a step relation, with snapshots that are written
    late and restored over what a node has.
  \<^item> \<open>Node\<close>, \<open>RaftHandler\<close> (internal/consensus/node.go, leadership_transfer.go,
    internal/verify/handler_raft.go): the Raft node, over the Raft library as a parameter (locale
    \<open>raft_library\<close>), the rotation of leadership, and the replicating event handler.
  \<^item> \<open>System\<close>: the handlers and the checkpoints of all nodes of a cluster, each at its own place of
    the stream of changes, over the replicas of \<open>Cluster\<close> and a leadership that moves, as a step
    relation. Raft is any library whose Apply has one of its documented outcomes (locale
    \<open>documented_raft\<close>): refused, committed and applied, or in doubt after a loss of leadership.
  \<^item> \<open>Alert\<close>, \<open>Replication\<close>, \<open>Manager\<close> (internal/alert, internal/cdc): Slack messages, the
    replication client, and the loop that receives messages, raises alerts and backs off; the
    locale \<open>event_handler\<close> is the contract of the two event handlers.
  \<^item> \<open>Config\<close>, \<open>Commands\<close> (internal/config, cmd/witnz/main.go): the configuration, over viper as a
    parameter (locale \<open>viper_library\<close>), and the commands version, init, start, status and verify.

  \<^bold>\<open>State.\<close> The store of a node is a value of an arbitrary type \<open>'db\<close>, read and written by the
  operations of a \<open>bolt\<close> record; the Raft library has a state \<open>'r\<close> of its own, and the world
  outside (connections, HTTP) is a state \<open>'w\<close>. A function returns the new state, with an error
  of type \<^typ>\<open>goerror\<close> on the left of a sum, and \<^const>\<open>None\<close> where Go panics. Sequence numbers, log
  indices and durations are 64-bit words. A channel that is only ever closed is a flag, so that
  closing it twice is the panic it is in Go, and where aliasing matters (the store behind a
  state machine and its snapshots) a reference is an address.

  \<^bold>\<open>What is shown.\<close>
  \<^item> Hashing and trees: the root binds the leaves up to order, proofs are complete and sound, the
    comparison of leaf maps is exact, and the hash of a record binds its normalised fields.
  \<^item> Storage: entries refine a map from numbers to entries for each table, and the latest one is
    the greatest as text. Hence the chain of a table stops growing at ten entries
    (\<open>insertions_chain\<close>), and a table that started empty and has had more insertions since is
    reported as tampered with (\<open>captured_insertions_verdict\<close>).
  \<^item> Verification: it always returns, and its verdict and what it stores are characterised exactly
    (\<open>VerifyTable_verdict\<close>, \<open>VerifyTable_effect\<close>). Of a run with at
    most nine captured rows, checkpoints and entries together describe the table, so that an
    untouched table is never reported and every change is, but for one
    (\<open>monitoring_verdict\<close>): that all rows known only from a checkpoint are deleted.
  \<^item> Consensus: replicas agree on what they have applied whatever snapshots and restarts happen,
    replay is harmless, snapshots carry the entries and not the checkpoints, and the log store
    refines a map from indices to entries, though it loses two fields of an entry and its
    DeleteRange relies on a cursor that goes on in a bucket that changes.
  \<^item> The system: with one leader the cluster is the local handler, replicated to every node, on
    the insertions that the leader does not report as failed (\<open>stable_leader_refines\<close>);
    whatever happens, no entry is made up and nodes that have caught up hold what the log
    prescribes (\<open>system_safety\<close>); but when leadership moves, an insertion can be recorded by no
    one, or twice (\<open>leadership_change_loses\<close>).
  \<^item> Capture: events are well formed, modifications are alerted, the pauses of the receiving
    loop leave 64 bits after 33 errors and many of the later ones are none, and a row sent as
    text is recognised by the verifier
    exactly if its values print as that text, which booleans do not.
  \<^item> Life cycle: a manager can be started once only, and stopping twice panics; a verification
    interval that is not positive ends the process (\<open>start_outcome\<close>).
  \<^item> Configuration and commands: what Load accepts and how it expands variables, which tables start
    protects and how it ends, when status panics, and that verify exits with 0 whatever it finds.

  \<^bold>\<open>Bounds.\<close> The JSON parser recurses on a fuel of the length of its input, which is enough for
  every printed value (\<open>json_parse_print\<close>). The loops of buildTree and of DeleteRange are partial
  functions, with \<^const>\<open>None\<close> for not returning, and that they return is proved (\<open>Build_total\<close>,
  \<open>log_store_delete\<close> for a cursor that goes on); all other recursion is structural or has a
  measure.
  Loops that wait for events are functions of the list of what they meet, and the result says
  whether they have ended.

  \<^bold>\<open>Not modelled.\<close> Locks, and the interleaving of goroutines within an operation (that of nodes,
  and of the goroutines of the command start between operations, is); what
  the loggers, the verifier and the command start print; closing of the store and of
  connections other than by the manager, which have no effect on what is stated; the wiring of
  cobra; the unused type SnapshotMeta; the third-party libraries themselves, which are
  parameters.
\<close>

section \<open>From the replication stream to the verifier\<close>

text \<open>
  The handler hashes the values that the replication stream carries, the verifier those that a
  query returns. A row is recognised when both give the same hash under the same id.
\<close>

lemma fst_foldl_record:
  "foldl (\<lambda>(d, i) (k, x). (AList.update k x d, if k = ''id'' then fmt_v x else i)) (d, i) row =
     (assign_all row d, foldl (\<lambda>i (k, x). if k = ''id'' then fmt_v x else i) i row)"
proof (induction row arbitrary: d i)
  case (Cons kx row)
  then show ?case by (cases kx) simp
qed simp

lemma foldl_id_keep: "''id'' \<notin> fst ` set row \<Longrightarrow> foldl (\<lambda>i (k, x). if k = ''id'' then fmt_v x else i) i row = i"
proof (induction row)
  case (Cons kx row)
  then show ?case by (cases kx) auto
qed simp

lemma row_record_distinct:
  assumes "gomap_ok row"
  shows "fst (row_record row) = row" "map_of row ''id'' = Some v \<Longrightarrow> row_id row = fmt_v v"
proof -
  show "fst (row_record row) = row"
    using assign_all_fresh [of "[]" row] assms by (simp add: row_record_def fst_foldl_record)
  have "map_of row ''id'' = Some v \<Longrightarrow> foldl (\<lambda>i (k, x). if k = ''id'' then fmt_v x else i) i row = fmt_v v" for i
    using assms
  proof (induction row arbitrary: i)
    case (Cons kx row)
    then show ?case by (cases kx) (auto simp: foldl_id_keep split: if_splits)
  qed simp
  then show "map_of row ''id'' = Some v \<Longrightarrow> row_id row = fmt_v v"
    by (simp add: row_id_def row_record_def fst_foldl_record)
qed

lemma singleton_map:
  assumes "gomap_ok m" "map_of m = [k \<mapsto> v]"
  shows "m = [(k, v)]"
proof -
  have "set m = {(k, v)}"
  proof (rule set_eqI)
    fix x
    have "x \<in> set m \<longleftrightarrow> map_of m (fst x) = Some (snd x)" using assms(1) by simp
    also have "\<dots> \<longleftrightarrow> x \<in> {(k, v)}" unfolding assms(2) by (cases x) (auto split: if_splits)
    finally show "x \<in> set m \<longleftrightarrow> x \<in> {(k, v)}" .
  qed
  moreover have "distinct m" using assms(1) by (simp add: distinct_map)
  ultimately show ?thesis by (rule distinct_singleton [rotated])
qed


text \<open>
  The columns of a row in text format, and the row that a query returns for it, with the values
  of another type.
\<close>

definition text_tuple :: "RelationMessage \<Rightarrow> TupleData \<Rightarrow> bool" where
  "text_tuple rel tuple \<longleftrightarrow> length tuple = length (rm_Columns rel) \<and> distinct (map rc_Name (rm_Columns rel))
     \<and> list_all (\<lambda>col. td_DataType col = CHR ''t'') tuple"

definition query_row :: "RelationMessage \<Rightarrow> goval list \<Rightarrow> (string \<times> goval) list" where
  "query_row rel vals = zip (map rc_Name (rm_Columns rel)) vals"

lemma text_tuple_pairs:
  assumes "text_tuple rel tuple"
  shows "tuple_pairs L rel tuple = zip (map rc_Name (rm_Columns rel)) (map (\<lambda>col. GString (td_Data col)) tuple)"
proof -
  have "td_DataType (tuple ! i) = CHR ''t''" if "i < length tuple" for i
    using assms that by (simp add: text_tuple_def list_all_length)
  with assms show ?thesis
    by (intro nth_equalityI) (auto simp: tuple_pairs_def text_tuple_def column_value_def)
qed

lemma gomap_ok_zip: "distinct names \<Longrightarrow> length names = length vals \<Longrightarrow> gomap_ok (zip names vals)"
  by simp

lemma normalized_zip:
  assumes "distinct names" "length vals = length names" "length vals' = length names"
  shows "normalized_field (zip names vals) = normalized_field (zip names vals') \<longleftrightarrow>
    (\<forall>i < length names. timestamp_field (names ! i) \<or> normalizeValue (vals ! i) = normalizeValue (vals' ! i))"
proof -
  have some: "map_of (zip names vs) (names ! i) = Some (vs ! i)" if "length vs = length names" "i < length names" for vs :: "goval list" and i
    using that assms(1) by (simp add: map_of_zip_nth del: map_of_eq_Some_iff)
  have none: "map_of (zip names vs) k = None" if "length vs = length names" "k \<notin> set names" for vs :: "goval list" and k
    using that by (auto simp: map_of_eq_None_iff dest: set_zip_leftD)
  show ?thesis
  proof
    assume eq: "normalized_field (zip names vals) = normalized_field (zip names vals')"
    show "\<forall>i < length names. timestamp_field (names ! i) \<or> normalizeValue (vals ! i) = normalizeValue (vals' ! i)"
    proof (intro allI impI)
      fix i
      assume i: "i < length names"
      show "timestamp_field (names ! i) \<or> normalizeValue (vals ! i) = normalizeValue (vals' ! i)"
        using fun_cong [OF eq, of "names ! i"]
        by (simp add: normalized_field_def some [OF assms(2) i] some [OF assms(3) i] split: if_splits)
    qed
  next
    assume eq: "\<forall>i < length names. timestamp_field (names ! i) \<or> normalizeValue (vals ! i) = normalizeValue (vals' ! i)"
    show "normalized_field (zip names vals) = normalized_field (zip names vals')"
    proof
      fix k
      show "normalized_field (zip names vals) k = normalized_field (zip names vals') k"
      proof (cases "k \<in> set names")
        case True
        then obtain i where i: "i < length names" "k = names ! i" by (auto simp: in_set_conv_nth)
        with eq show ?thesis
          by (auto simp: normalized_field_def some [OF assms(2) i(1)] some [OF assms(3) i(1)])
      qed (simp add: normalized_field_def none assms(2,3))
    qed
  qed
qed

lemma map_of_zip_id:
  assumes "distinct names" "length vs = length names" "k < length names" "names ! k = x"
  shows "map_of (zip names vs) x = Some (vs ! k)"
  using map_of_zip_nth [of names vs k] assms by (simp del: map_of_eq_Some_iff)

lemma text_tuple_key:
  assumes "text_tuple rel tuple" "k < length tuple" "rc_Name (rm_Columns rel ! k) = x"
    and "\<forall>i < length tuple. rc_Flags (rm_Columns rel ! i) = 1 \<longleftrightarrow> i = k"
  shows "extractPrimaryKey rel (tuple_pairs L rel tuple) = [(x, GString (td_Data (tuple ! k)))]"
proof (rule singleton_map [OF extractPrimaryKey_ok], rule ext)
  fix n
  have len: "length tuple = length (rm_Columns rel)" using assms(1) by (simp add: text_tuple_def)
  have v: "map_of (tuple_pairs L rel tuple) x = Some (GString (td_Data (tuple ! k)))"
    unfolding text_tuple_pairs [OF assms(1)]
    using map_of_zip_id [of "map rc_Name (rm_Columns rel)" "map (\<lambda>col. GString (td_Data col)) tuple" k x] assms
    by (simp add: text_tuple_def del: map_of_eq_Some_iff)
  have "(\<exists>col \<in> set (rm_Columns rel). rc_Name col = n \<and> rc_Flags col = 1) \<longleftrightarrow> n = x"
    using assms(2-4) len by (metis in_set_conv_nth)
  then show "map_of (extractPrimaryKey rel (tuple_pairs L rel tuple)) n = [x \<mapsto> GString (td_Data (tuple ! k))] n"
    using v by (simp add: map_of_extractPrimaryKey)
qed

text \<open>
  C22. The insertion of a row whose only key column is id, sent in text
  format, is recognised by the verifier exactly if every column other than created_at and
  updated_at has a value that prints as its text. A boolean is sent as t or f and prints as
  true or false: no row with a boolean column is ever recognised.
\<close>

theorem insertion_recognised:
  assumes "map_of (cl_relations rc) relID = Some rel" "text_tuple rel tuple" "length vals = length tuple"
    and "k < length tuple" "rc_Name (rm_Columns rel ! k) = ''id''"
    and "\<forall>i < length tuple. rc_Flags (rm_Columns rel ! i) = 1 \<longleftrightarrow> i = k"
    and "CHR '']'' \<notin> set (td_Data (tuple ! k))" "CHR '' '' \<notin> set (td_Data (tuple ! k))"
    and "\<forall>bs. vals ! k \<noteq> GBytes bs"
    and "smap_utf8 (NormalizeForHash (tuple_pairs L rel tuple))" "smap_utf8 (NormalizeForHash (query_row rel vals))"
    and "inj_on H {json_print (json_of_smap (NormalizeForHash (tuple_pairs L rel tuple))),
                   json_print (json_of_smap (NormalizeForHash (query_row rel vals)))}"
  shows "\<exists>event. handleInsert L now rc relID tuple s = deliver rc event s
    \<and> (captured H (t, event) (query_row rel vals) \<longleftrightarrow>
        (\<forall>i < length tuple. timestamp_field (rc_Name (rm_Columns rel ! i)) \<or> normalizeValue (vals ! i) = td_Data (tuple ! i)))
    \<and> (\<forall>i b. i < length tuple \<and> vals ! i = GBool b \<and> td_Data (tuple ! i) \<in> {''t'', ''f''}
         \<and> \<not> timestamp_field (rc_Name (rm_Columns rel ! i)) \<longrightarrow> \<not> captured H (t, event) (query_row rel vals))"
proof -
  let ?names = "map rc_Name (rm_Columns rel)" and ?data = "tuple_pairs L rel tuple"
  have len: "length tuple = length (rm_Columns rel)" and dist: "distinct ?names" using assms(2) by (simp_all add: text_tuple_def)
  have data: "?data = zip ?names (map (\<lambda>col. GString (td_Data col)) tuple)" using assms(2) by (rule text_tuple_pairs)
  have ok: "gomap_ok ?data" "gomap_ok (query_row rel vals)" using dist len assms(3) by (simp_all add: data query_row_def)
  let ?event = "change_event now rel OperationInsert ?data [] ?data"
  have deliver: "handleInsert L now rc relID tuple s = deliver rc ?event s"
    using assms(1) len assign_all_fresh [of "[]" ?data] ok(1) by (simp add: handleInsert_def tupleToMap_eq)
  have idv: "map_of (query_row rel vals) ''id'' = Some (vals ! k)"
    unfolding query_row_def by (rule map_of_zip_id [OF dist]) (use len assms(3-5) in simp_all)
  have pk: "extractPrimaryKey rel ?data = [(''id'', GString (td_Data (tuple ! k)))]"
    by (rule text_tuple_key [OF assms(2,4,5,6)])
  have l: "length (map (\<lambda>col. GString (td_Data col)) tuple) = length ?names" "length vals = length ?names" using len assms(3) by simp_all
  have nz: "normalized_field ?data = normalized_field (query_row rel vals) \<longleftrightarrow>
      (\<forall>i < length tuple. timestamp_field (rc_Name (rm_Columns rel ! i)) \<or> normalizeValue (vals ! i) = td_Data (tuple ! i))"
    unfolding data query_row_def normalized_zip [OF dist l] using len by auto
  have hash: "CalculateDataHash H ?data = row_hash H (query_row rel vals) \<longleftrightarrow>
      (\<forall>i < length tuple. timestamp_field (rc_Name (rm_Columns rel ! i)) \<or> normalizeValue (vals ! i) = td_Data (tuple ! i))"
    using CalculateDataHash_iff [OF ok assms(10-12)] row_record_distinct(1) [OF ok(2)] nz by (simp add: row_hash_def)
  have "normalizeValue (vals ! k) = fmt_v (vals ! k)" using assms(9) by (cases "vals ! k") auto
  moreover have "\<not> timestamp_field ''id''" by (simp add: timestamp_field_def)
  ultimately have main: "captured H (t, ?event) (query_row rel vals) \<longleftrightarrow>
      (\<forall>i < length tuple. timestamp_field (rc_Name (rm_Columns rel ! i)) \<or> normalizeValue (vals ! i) = td_Data (tuple ! i))"
    using hash extractID_single [of "GString (td_Data (tuple ! k))"] assms(4,5,7,8) row_record_distinct(2) [OF ok(2) idv]
    by (auto simp: captured_def change_event_def pk)
  have "normalizeValue (GBool b) \<notin> {''t'', ''f''}" for b by simp
  with main have "\<not> captured H (t, ?event) (query_row rel vals)"
    if "i < length tuple" "vals ! i = GBool b" "td_Data (tuple ! i) \<in> {''t'', ''f''}" "\<not> timestamp_field (rc_Name (rm_Columns rel ! i))" for i b
    using that by metis
  with main deliver show ?thesis by blast
qed

text \<open>The row of the sample update, inserted: its second column is a boolean.\<close>

definition quiet_client :: "(unit, unit) ReplicationClient" where
  "quiet_client = sample_client OtherBackendMessage"

theorem insertion_recognised_witness:
  "\<exists>event. handleInsert sample_lib ''2024'' quiet_client 7 sample_tuple () =
       deliver quiet_client event ()
     \<and> \<not> captured (\<lambda>x. x) (''2024'', event) (query_row sample_relation [GInt 1, GBool True])"
proof -
  have pairs: "tuple_pairs sample_lib sample_relation sample_tuple = [(''id'', GString ''1''), (''ok'', GString ''t'')]"
    by (simp add: tuple_pairs_def sample_relation_def sample_tuple_def column_value_def)
  have row: "query_row sample_relation [GInt 1, GBool True] = [(''id'', GInt 1), (''ok'', GBool True)]"
    by (simp add: query_row_def sample_relation_def)
  have utf8: "smap_utf8 (NormalizeForHash (tuple_pairs sample_lib sample_relation sample_tuple))"
    "smap_utf8 (NormalizeForHash (query_row sample_relation [GInt 1, GBool True]))"
    by (simp_all add: pairs row NormalizeForHash_def timestamp_field_def smap_utf8_def fmt_int_def fmt_d.simps digit_def valid_utf8_literal)
  have rel: "map_of (cl_relations quiet_client) 7 = Some sample_relation"
    by (simp add: quiet_client_def sample_client_def)
  have tt: "text_tuple sample_relation sample_tuple" by (simp add: text_tuple_def sample_relation_def sample_tuple_def)
  have flags: "\<forall>i < length sample_tuple. rc_Flags (rm_Columns sample_relation ! i) = 1 \<longleftrightarrow> i = 0"
    by (auto simp: sample_tuple_def sample_relation_def less_Suc_eq)
  have "length [GInt 1, GBool True] = length sample_tuple" "0 < length sample_tuple" "rc_Name (rm_Columns sample_relation ! 0) = ''id''"
    "CHR '']'' \<notin> set (td_Data (sample_tuple ! 0))" "CHR '' '' \<notin> set (td_Data (sample_tuple ! 0))"
    "\<forall>bs. [GInt 1, GBool True] ! 0 \<noteq> GBytes bs"
    by (simp_all add: sample_tuple_def sample_relation_def)
  note main = insertion_recognised [OF rel tt this(1-3) flags this(4-6) utf8 inj_on_id2, of "''2024''" "()" "''2024''"]
  obtain event where event: "handleInsert sample_lib ''2024'' quiet_client 7 sample_tuple () =
       deliver quiet_client event ()"
    "\<And>i b. i < length sample_tuple \<and> [GInt 1, GBool True] ! i = GBool b \<and> td_Data (sample_tuple ! i) \<in> {''t'', ''f''}
       \<and> \<not> timestamp_field (rc_Name (rm_Columns sample_relation ! i)) \<Longrightarrow>
       \<not> captured (\<lambda>x. x) (''2024'', event) (query_row sample_relation [GInt 1, GBool True])"
    using main by blast
  have "1 < length sample_tuple \<and> [GInt 1, GBool True] ! 1 = GBool True \<and> td_Data (sample_tuple ! 1) \<in> {''t'', ''f''}
      \<and> \<not> timestamp_field (rc_Name (rm_Columns sample_relation ! 1))"
    by (simp add: sample_tuple_def sample_relation_def timestamp_field_def)
  from event(2) [OF this] event(1) show ?thesis by blast
qed

end
